(* ===== verification/Py_Prelude.thy ===== *)
theory Py_Prelude
  imports Main "HOL-Library.AList"
begin

text \<open>
  Shared vocabulary of the development: Python's exceptions as values, the sequencing
  combinator for code that may raise, \<open>for\<close> loops over a list, indexing with Python's
  out-of-range behaviour, and insertion-ordered dictionaries (\<open>dict\<close>,
  \<open>collections.OrderedDict\<close>) as association lists with distinct keys.
\<close>

section \<open>Exceptions as values\<close>

datatype py_err =
    ValueError
  | RuntimeError
  | KeyError
  | IndexError
  | AssertionError
  | StopIteration
  | ZeroDivisionError
  | OverflowError
  | AttributeError

type_synonym 'a result = "py_err + 'a"

text \<open>\<open>chain m f\<close> runs \<open>m\<close> and hands its value to \<open>f\<close>; an exception of \<open>m\<close> ends the run.\<close>

definition chain :: "'a result \<Rightarrow> ('a \<Rightarrow> 'b result) \<Rightarrow> 'b result" where
  "chain m f = (case m of Inl e \<Rightarrow> Inl e | Inr x \<Rightarrow> f x)"

text \<open>A \<open>for\<close> loop whose body updates a state and may raise.\<close>

fun for_each :: "'x list \<Rightarrow> ('x \<Rightarrow> 's \<Rightarrow> 's result) \<Rightarrow> 's \<Rightarrow> 's result" where
  "for_each [] f s = Inr s"
| "for_each (x # xs) f s = chain (f x s) (for_each xs f)"

text \<open>Indexing by a non-negative index, and by a Python integer (negative counts from the end).\<close>

definition py_nth :: "'a list \<Rightarrow> nat \<Rightarrow> 'a result" where
  "py_nth xs i = (if i < length xs then Inr (xs ! i) else Inl IndexError)"

definition py_index :: "'a list \<Rightarrow> int \<Rightarrow> 'a result" where
  "py_index xs i =
     (if 0 \<le> i then py_nth xs (nat i)
      else if nat (- i) \<le> length xs then py_nth xs (length xs - nat (- i))
      else Inl IndexError)"

text \<open>A guard: Python's \<open>assert\<close> or an \<open>if ... raise\<close>.\<close>

definition guard :: "bool \<Rightarrow> py_err \<Rightarrow> unit result" where
  "guard b e = (if b then Inr () else Inl e)"

section \<open>Insertion-ordered dictionaries\<close>

type_synonym ('k, 'v) odict = "('k \<times> 'v) list"

text \<open>
  Lookup is \<open>map_of\<close>, assignment is \<open>AList.update\<close> (a present key keeps its position, a
  new key goes to the end), deletion is \<open>AList.delete\<close>.
\<close>

definition od_keys :: "('k, 'v) odict \<Rightarrow> 'k list" where
  "od_keys d = map fst d"

definition od_has :: "('k, 'v) odict \<Rightarrow> 'k \<Rightarrow> bool" where
  "od_has d k = (k \<in> set (od_keys d))"

definition od_move_to_end :: "('k, 'v) odict \<Rightarrow> 'k \<Rightarrow> ('k, 'v) odict" where
  "od_move_to_end d k =
     (case map_of d k of None \<Rightarrow> d | Some v \<Rightarrow> AList.delete k d @ [(k, v)])"

definition od_move_to_front :: "('k, 'v) odict \<Rightarrow> 'k \<Rightarrow> ('k, 'v) odict" where
  "od_move_to_front d k =
     (case map_of d k of None \<Rightarrow> d | Some v \<Rightarrow> (k, v) # AList.delete k d)"

section \<open>Shared lemmas\<close>

named_theorems od_simps \<open>rewriting of ordered dictionaries\<close>

lemma chain_Inl [simp]: "chain (Inl e) f = Inl e"
  by (simp add: chain_def)

lemma chain_Inr [simp]: "chain (Inr x) f = f x"
  by (simp add: chain_def)

lemma chain_eq_Inr [simp]: "chain m f = Inr y \<longleftrightarrow> (\<exists>x. m = Inr x \<and> f x = Inr y)"
  by (cases m) simp_all

lemma guard_eq_Inr [simp]: "guard b e = Inr u \<longleftrightarrow> b"
  by (simp add: guard_def)

lemma guard_True [simp]: "guard True e = Inr ()"
  by (simp add: guard_def)

lemma guard_False [simp]: "guard False e = Inl e"
  by (simp add: guard_def)

lemma py_nth_eq_Inr [simp]: "py_nth xs i = Inr x \<longleftrightarrow> i < length xs \<and> xs ! i = x"
  by (auto simp: py_nth_def)

lemma py_nth_in [simp]: "i < length xs \<Longrightarrow> py_nth xs i = Inr (xs ! i)"
  by (simp add: py_nth_def)

lemma py_index_nat [simp]: "i < length xs \<Longrightarrow> py_index xs (int i) = Inr (xs ! i)"
  by (simp add: py_index_def)

lemma for_each_append: "for_each (xs @ ys) f s = chain (for_each xs f s) (for_each ys f)"
proof (induction xs arbitrary: s)
  case Nil
  then show ?case by simp
next
  case (Cons x xs)
  then show ?case by (cases "f x s") auto
qed

text \<open>Partial correctness of a loop: an invariant of the body is an invariant of the loop.\<close>

lemma for_each_inv:
  assumes "for_each xs f s = Inr s'" and "P s"
    and "\<And>x s s'. x \<in> set xs \<Longrightarrow> P s \<Longrightarrow> f x s = Inr s' \<Longrightarrow> P s'"
  shows "P s'"
  using assms
proof (induction xs arbitrary: s)
  case Nil
  then show ?case by simp
next
  case (Cons x xs)
  then obtain u where u: "f x s = Inr u" "for_each xs f u = Inr s'" by auto
  then have "P u" using Cons.prems by auto
  with u(2) show ?case using Cons.prems(3) by (intro Cons.IH) auto
qed

text \<open>
  Total correctness of a loop over indices: a predicate indexed by the number of rounds
  done that every round advances.
\<close>

lemma for_each_total:
  assumes "P 0 s"
    and "\<And>i s. i < length xs \<Longrightarrow> P i s \<Longrightarrow> \<exists>s'. f (xs ! i) s = Inr s' \<and> P (Suc i) s'"
  shows "\<exists>s'. for_each xs f s = Inr s' \<and> P (length xs) s'"
  using assms
proof (induction xs arbitrary: s P)
  case Nil
  then show ?case by simp
next
  case (Cons x xs)
  from Cons.prems(2) [of 0] Cons.prems(1) obtain u where u: "f x s = Inr u" "P 1 u"
    by auto
  have "\<exists>s'. for_each xs f u = Inr s' \<and> P (Suc (length xs)) s'"
  proof (rule Cons.IH [of "\<lambda>i. P (Suc i)"])
    show "P (Suc 0) u" using u(2) by simp
  next
    fix i s
    assume "i < length xs" "P (Suc i) s"
    then show "\<exists>s'. f (xs ! i) s = Inr s' \<and> P (Suc (Suc i)) s'"
      using Cons.prems(2) [of "Suc i" s] by simp
  qed
  with u(1) show ?case by auto
qed

lemma set_od_keys [od_simps]: "set (od_keys d) = dom (map_of d)"
  by (simp add: od_keys_def dom_map_of_conv_image_fst)

lemma od_has_iff: "od_has d k \<longleftrightarrow> (\<exists>v. map_of d k = Some v)"
  by (simp add: od_has_def set_od_keys domIff)

lemma not_od_has_iff: "\<not> od_has d k \<longleftrightarrow> map_of d k = None"
  by (auto simp: od_has_iff)

lemma od_has_dom: "od_has d k \<longleftrightarrow> k \<in> dom (map_of d)"
  by (auto simp: od_has_iff)

lemma map_of_update [od_simps]: "map_of (AList.update k v d) = (map_of d)(k \<mapsto> v)"
  by (simp add: update_conv')

lemma map_of_delete [od_simps]: "map_of (AList.delete k d) = (map_of d)(k := None)"
  by (simp add: delete_conv')

lemma update_new: "map_of d k = None \<Longrightarrow> AList.update k v d = d @ [(k, v)]"
  by (induction d) (auto split: if_splits)

lemma delete_absent: "map_of d k = None \<Longrightarrow> AList.delete k d = d"
  by (induction d) (auto simp: AList.delete_eq split: if_splits)

lemma delete_append [od_simps]: "AList.delete k (A @ B) = AList.delete k A @ AList.delete k B"
  by (simp add: AList.delete_eq)

lemma delete_mid:
  "k \<notin> fst ` set A \<Longrightarrow> k \<notin> fst ` set B \<Longrightarrow> AList.delete k (A @ (k, v) # B) = A @ B"
  by (simp add: delete_append delete_absent map_of_eq_None_iff)

lemma od_split:
  assumes "distinct (map fst d)" and "map_of d k = Some v"
  obtains A B where "d = A @ (k, v) # B" "AList.delete k d = A @ B"
    "map_of A k = None" "map_of B k = None"
proof -
  from assms(2) have "(k, v) \<in> set d" by (rule map_of_SomeD)
  then obtain A B where d: "d = A @ (k, v) # B" by (auto dest: split_list)
  with assms(1) have "k \<notin> fst ` set A" "k \<notin> fst ` set B" by auto
  then have n: "map_of A k = None" "map_of B k = None" and "AList.delete k d = A @ B"
    by (simp_all add: map_of_eq_None_iff d delete_mid)
  from d this(3,1,2) show ?thesis by (rule that)
qed

lemma map_of_move_to_end [od_simps]: "map_of (od_move_to_end d k) = map_of d"
  by (auto simp: od_move_to_end_def map_of_delete map_add_def fun_eq_iff split: option.splits)

lemma map_of_move_to_front [od_simps]: "map_of (od_move_to_front d k) = map_of d"
  by (auto simp: od_move_to_front_def map_of_delete fun_eq_iff split: option.splits)

lemma set_move_to_end:
  assumes "distinct (map fst d)"
  shows "set (od_move_to_end d k) = set d" "distinct (map fst (od_move_to_end d k))"
    "set (map snd (od_move_to_end d k)) = set (map snd d)"
    "length (od_move_to_end d k) = length d"
    "distinct (map snd (od_move_to_end d k)) = distinct (map snd d)"
proof -
  have "set (od_move_to_end d k) = set d \<and> distinct (map fst (od_move_to_end d k)) \<and>
    set (map snd (od_move_to_end d k)) = set (map snd d) \<and>
    length (od_move_to_end d k) = length d \<and>
    distinct (map snd (od_move_to_end d k)) = distinct (map snd d)"
  proof (cases "map_of d k")
    case None
    then show ?thesis using assms by (simp add: od_move_to_end_def)
  next
    case (Some v)
    with assms obtain A B where "d = A @ (k, v) # B" "AList.delete k d = A @ B"
      by (rule od_split)
    then show ?thesis using Some assms by (auto simp: od_move_to_end_def)
  qed
  then show "set (od_move_to_end d k) = set d" "distinct (map fst (od_move_to_end d k))"
    "set (map snd (od_move_to_end d k)) = set (map snd d)"
    "length (od_move_to_end d k) = length d"
    "distinct (map snd (od_move_to_end d k)) = distinct (map snd d)" by auto
qed

lemma set_move_to_front:
  assumes "distinct (map fst d)"
  shows "set (od_move_to_front d k) = set d" "distinct (map fst (od_move_to_front d k))"
    "set (map snd (od_move_to_front d k)) = set (map snd d)"
    "distinct (map snd (od_move_to_front d k)) = distinct (map snd d)"
proof -
  have "set (od_move_to_front d k) = set d \<and> distinct (map fst (od_move_to_front d k)) \<and>
    set (map snd (od_move_to_front d k)) = set (map snd d) \<and>
    distinct (map snd (od_move_to_front d k)) = distinct (map snd d)"
  proof (cases "map_of d k")
    case None
    then show ?thesis using assms by (simp add: od_move_to_front_def)
  next
    case (Some v)
    with assms obtain A B where "d = A @ (k, v) # B" "AList.delete k d = A @ B"
      by (rule od_split)
    then show ?thesis using Some assms by (auto simp: od_move_to_front_def)
  qed
  then show "set (od_move_to_front d k) = set d" "distinct (map fst (od_move_to_front d k))"
    "set (map snd (od_move_to_front d k)) = set (map snd d)"
    "distinct (map snd (od_move_to_front d k)) = distinct (map snd d)" by auto
qed

text \<open>Distinct values make the dictionary injective.\<close>

lemma distinct_snd_inj:
  assumes "distinct (map snd d)" "map_of d k = Some v" "map_of d k' = Some v"
  shows "k = k'"
  using assms by (metis distinct_map inj_onD map_of_SomeD prod.inject snd_conv)

lemma map_of_snd_in: "map_of d k = Some v \<Longrightarrow> v \<in> set (map snd d)"
  by (auto dest!: map_of_SomeD intro: rev_image_eqI)

lemma last_butlast_conv: "xs \<noteq> [] \<Longrightarrow> set xs = insert (last xs) (set (butlast xs))"
  by (cases xs rule: rev_cases) auto

end
