(* ===== verification/Residency.thy ===== *)
theory Residency
  imports Py_Prelude
begin

text \<open>
  The residency table of the Quest backend
  (\<^verbatim>\<open>vllm/v1/attention/backends/quest/cache/residency.py\<close>): one state per
  (layer, logical block), the five writes of \<open>BlockResidency\<close> with their guards, and the
  automaton they implement.
\<close>

datatype residency_state = ON_GPU | EVICTING | ON_CPU | LOADING

record residency =
  res_num_layers :: nat
  res_max_blocks :: nat
  res_states :: "residency_state list list"

definition res_init :: "nat \<Rightarrow> nat \<Rightarrow> residency" where
  "res_init num_layers max_blocks =
     \<lparr>res_num_layers = num_layers, res_max_blocks = max_blocks,
      res_states = replicate num_layers (replicate max_blocks ON_GPU)\<rparr>"

definition res_state :: "residency \<Rightarrow> nat \<Rightarrow> nat \<Rightarrow> residency_state result" where
  "res_state r l b = chain (py_nth (res_states r) l) (\<lambda>row. py_nth row b)"

text \<open>The array write \<open>_states[layer_idx, block_id] = s\<close>.\<close>

definition res_write :: "residency \<Rightarrow> nat \<Rightarrow> nat \<Rightarrow> residency_state \<Rightarrow> residency" where
  "res_write r l b s = r\<lparr>res_states := (res_states r)[l := (res_states r ! l)[b := s]]\<rparr>"

definition mark_on_gpu :: "residency \<Rightarrow> nat \<Rightarrow> nat \<Rightarrow> residency result" where
  "mark_on_gpu r l b = chain (res_state r l b) (\<lambda>_. Inr (res_write r l b ON_GPU))"

definition begin_evict :: "residency \<Rightarrow> nat \<Rightarrow> nat \<Rightarrow> residency result" where
  "begin_evict r l b = chain (res_state r l b) (\<lambda>cur.
     if cur = EVICTING then Inr r
     else if cur \<noteq> ON_GPU then Inl ValueError
     else Inr (res_write r l b EVICTING))"

definition complete_evict :: "residency \<Rightarrow> nat \<Rightarrow> nat \<Rightarrow> residency result" where
  "complete_evict r l b = chain (res_state r l b) (\<lambda>cur.
     if cur \<noteq> EVICTING then Inl ValueError
     else Inr (res_write r l b ON_CPU))"

definition begin_load :: "residency \<Rightarrow> nat \<Rightarrow> nat \<Rightarrow> residency result" where
  "begin_load r l b = chain (res_state r l b) (\<lambda>cur.
     if cur \<noteq> ON_CPU then Inl ValueError
     else Inr (res_write r l b LOADING))"

definition complete_load :: "residency \<Rightarrow> nat \<Rightarrow> nat \<Rightarrow> residency result" where
  "complete_load r l b = chain (res_state r l b) (\<lambda>cur.
     if cur \<noteq> LOADING then Inl ValueError
     else Inr (res_write r l b ON_GPU))"

definition is_on_gpu_mask :: "residency \<Rightarrow> nat \<Rightarrow> nat list \<Rightarrow> bool list result" where
  "is_on_gpu_mask r l ids = chain (py_nth (res_states r) l) (\<lambda>row.
     if (\<forall>b \<in> set ids. b < length row) then Inr (map (\<lambda>b. row ! b = ON_GPU) ids)
     else Inl IndexError)"

section \<open>The automaton\<close>

datatype res_op = MarkOnGpu | BeginEvict | CompleteEvict | BeginLoad | CompleteLoad

fun res_apply :: "res_op \<Rightarrow> residency \<Rightarrow> nat \<Rightarrow> nat \<Rightarrow> residency result" where
  "res_apply MarkOnGpu r l b = mark_on_gpu r l b"
| "res_apply BeginEvict r l b = begin_evict r l b"
| "res_apply CompleteEvict r l b = complete_evict r l b"
| "res_apply BeginLoad r l b = begin_load r l b"
| "res_apply CompleteLoad r l b = complete_load r l b"

text \<open>The abstract transitions of one cell.\<close>

inductive res_step :: "residency_state \<Rightarrow> res_op \<Rightarrow> residency_state \<Rightarrow> bool" where
  mark: "res_step s MarkOnGpu ON_GPU"
| evict_begin: "res_step ON_GPU BeginEvict EVICTING"
| evict_again: "res_step EVICTING BeginEvict EVICTING"
| evict_done: "res_step EVICTING CompleteEvict ON_CPU"
| load_begin: "res_step ON_CPU BeginLoad LOADING"
| load_done: "res_step LOADING CompleteLoad ON_GPU"

code_pred res_step .

inductive_simps res_step_simps [simp]:
  "res_step s MarkOnGpu s'" "res_step s BeginEvict s'" "res_step s CompleteEvict s'"
  "res_step s BeginLoad s'" "res_step s CompleteLoad s'"

text \<open>A run of the automaton: the states one cell goes through under a list of writes.\<close>

fun res_run :: "(res_op \<times> nat \<times> nat) list \<Rightarrow> residency \<Rightarrow> residency result" where
  "res_run [] r = Inr r"
| "res_run ((c, l, b) # ops) r = chain (res_apply c r l b) (res_run ops)"

section \<open>Lemmas\<close>

definition res_in_range :: "residency \<Rightarrow> nat \<Rightarrow> nat \<Rightarrow> bool" where
  "res_in_range r l b \<longleftrightarrow> l < length (res_states r) \<and> b < length (res_states r ! l)"

definition res_at :: "residency \<Rightarrow> nat \<Rightarrow> nat \<Rightarrow> residency_state" where
  "res_at r l b = res_states r ! l ! b"

lemma res_state_eq:
  "res_state r l b = (if res_in_range r l b then Inr (res_at r l b) else Inl IndexError)"
  by (auto simp: res_state_def res_in_range_def res_at_def py_nth_def)

lemma res_at_write [simp]:
  "res_in_range r l b \<Longrightarrow>
   res_at (res_write r l b s) l' b' = (if l' = l \<and> b' = b then s else res_at r l' b')"
  by (auto simp: res_in_range_def res_at_def res_write_def nth_list_update)

lemma res_in_range_write [simp]: "res_in_range (res_write r l b s) l' b' = res_in_range r l' b'"
  by (cases "l < length (res_states r)")
    (auto simp: res_in_range_def res_write_def nth_list_update list_update_beyond)

lemma res_write_idem [simp]:
  "res_write (res_write r l b s) l b s' = res_write r l b s'"
  by (cases "l < length (res_states r)") (auto simp: res_write_def list_update_beyond)

lemmas res_op_defs =
  mark_on_gpu_def begin_evict_def complete_evict_def begin_load_def complete_load_def

lemma mark_on_gpu_ok [simp]:
  "res_in_range r l b \<Longrightarrow> mark_on_gpu r l b = Inr (res_write r l b ON_GPU)"
  by (simp add: mark_on_gpu_def res_state_eq)

lemma begin_evict_ok [simp]:
  "res_in_range r l b \<Longrightarrow> res_at r l b = ON_GPU \<Longrightarrow>
   begin_evict r l b = Inr (res_write r l b EVICTING)"
  by (simp add: begin_evict_def res_state_eq)

lemma complete_evict_ok [simp]:
  "res_in_range r l b \<Longrightarrow> res_at r l b = EVICTING \<Longrightarrow>
   complete_evict r l b = Inr (res_write r l b ON_CPU)"
  by (simp add: complete_evict_def res_state_eq)

lemma begin_load_ok [simp]:
  "res_in_range r l b \<Longrightarrow> res_at r l b = ON_CPU \<Longrightarrow>
   begin_load r l b = Inr (res_write r l b LOADING)"
  by (simp add: begin_load_def res_state_eq)

lemma complete_load_ok [simp]:
  "res_in_range r l b \<Longrightarrow> res_at r l b = LOADING \<Longrightarrow>
   complete_load r l b = Inr (res_write r l b ON_GPU)"
  by (simp add: complete_load_def res_state_eq)

lemma res_init_range [simp]: "res_in_range (res_init nl mb) l b \<longleftrightarrow> l < nl \<and> b < mb"
  by (auto simp: res_in_range_def res_init_def)

lemma res_init_at [simp]: "l < nl \<Longrightarrow> b < mb \<Longrightarrow> res_at (res_init nl mb) l b = ON_GPU"
  by (simp add: res_at_def res_init_def)

lemma res_write_same: "res_in_range r l b \<Longrightarrow> res_at r l b = s \<Longrightarrow> res_write r l b s = r"
  by (auto simp: res_write_def res_at_def res_in_range_def)

lemma res_apply_success:
  assumes "res_apply c r l b = Inr r'"
  shows "res_in_range r l b" "r' = res_write r l b (res_at r' l b)"
    "res_step (res_at r l b) c (res_at r' l b)"
proof -
  have "res_in_range r l b \<and> r' = res_write r l b (res_at r' l b) \<and>
    res_step (res_at r l b) c (res_at r' l b)"
    using assms
    by (cases c) (auto simp: res_op_defs res_state_eq res_write_same split: if_splits)
  then show "res_in_range r l b" "r' = res_write r l b (res_at r' l b)"
    "res_step (res_at r l b) c (res_at r' l b)" by auto
qed

lemma res_apply_defined:
  assumes "res_in_range r l b" "res_step (res_at r l b) c s"
  shows "res_apply c r l b = Inr (res_write r l b s)"
  using assms by (cases c) (auto simp: res_op_defs res_state_eq res_write_same)

lemma res_apply_stuck:
  "res_in_range r l b \<Longrightarrow> (\<nexists>s. res_step (res_at r l b) c s) \<Longrightarrow> res_apply c r l b = Inl ValueError"
  by (cases c; cases "res_at r l b") (simp_all add: res_op_defs res_state_eq)

lemma res_apply_range:
  "\<not> res_in_range r l b \<Longrightarrow> res_apply c r l b = Inl IndexError"
  by (cases c) (simp_all add: res_op_defs res_state_eq)

section \<open>Runs\<close>

text \<open>The operations of a run on one cell, and the paths of the automaton.\<close>

definition cell_ops :: "nat \<Rightarrow> nat \<Rightarrow> (res_op \<times> nat \<times> nat) list \<Rightarrow> res_op list" where
  "cell_ops l b ops = map fst (filter (\<lambda>(c, cell). cell = (l, b)) ops)"

fun res_steps :: "residency_state \<Rightarrow> res_op list \<Rightarrow> residency_state \<Rightarrow> bool" where
  "res_steps s [] s' \<longleftrightarrow> s = s'"
| "res_steps s (c # cs) s' \<longleftrightarrow> (\<exists>u. res_step s c u \<and> res_steps u cs s')"

lemma cell_ops_Cons [simp]:
  "cell_ops l b ((c, cell) # ops) = (if cell = (l, b) then c # cell_ops l b ops else cell_ops l b ops)"
  "cell_ops l b [] = []"
  by (simp_all add: cell_ops_def)

lemma res_step_fun: "res_step s c u \<Longrightarrow> res_step s c u' \<Longrightarrow> u = u'"
  by (cases c) auto

text \<open>
  C14. A sequence of residency writes that succeeds moves every cell along a path of the
  automaton, by exactly the operations addressed to that cell.
\<close>

theorem res_run_follows_automaton:
  "res_run ops r = Inr r' \<Longrightarrow> res_steps (res_at r l b) (cell_ops l b ops) (res_at r' l b)"
proof (induction ops arbitrary: r)
  case (Cons x ops)
  obtain c l' b' where x: "x = (c, l', b')" by (cases x) auto
  with Cons.prems obtain u where u: "res_apply c r l' b' = Inr u" "res_run ops u = Inr r'" by auto
  note S = res_apply_success [OF u(1)] and IH = Cons.IH [OF u(2)]
  have "res_at u l b = res_at r l b" if "(l', b') \<noteq> (l, b)" using S(1,2) that by (metis Pair_inject res_at_write)
  then show ?case using S(3) IH x by (cases "(l', b') = (l, b)") auto
qed simp

theorem res_run_follows_automaton_witness:
  "res_steps ON_GPU [BeginEvict, CompleteEvict, BeginLoad] LOADING"
  using res_run_follows_automaton [of "[(BeginEvict, 0, 1), (BeginEvict, 0, 0), (CompleteEvict, 0, 1), (BeginLoad, 0, 1)]"
      "res_init 1 2" "\<lparr>res_num_layers = 1, res_max_blocks = 2, res_states = [[EVICTING, LOADING]]\<rparr>" 0 1]
  by (simp add: res_op_defs res_state_def res_write_def res_init_def res_at_def numeral_2_eq_2 py_nth_def)

text \<open>
  The writes fail only where the automaton has no transition: a sequence of writes to
  cells of the table goes through if and only if the operations on every cell are a path.
\<close>

theorem res_run_succeeds_iff:
  assumes "\<forall>(c, l, b) \<in> set ops. res_in_range r l b"
  shows "(\<exists>r'. res_run ops r = Inr r') \<longleftrightarrow> (\<forall>l b. \<exists>s. res_steps (res_at r l b) (cell_ops l b ops) s)"
  using assms
proof (induction ops arbitrary: r)
  case Nil
  have "res_steps (res_at r l b) (cell_ops l b []) (res_at r l b)" for l b by simp
  then show ?case by (metis res_run.simps(1))
next
  case (Cons x ops)
  obtain c l b where x: "x = (c, l, b)" by (cases x) auto
  have rg: "res_in_range r l b" using Cons.prems x by simp
  show ?case
  proof (cases "\<exists>s. res_step (res_at r l b) c s")
    case True
    then obtain s where s: "res_step (res_at r l b) c s" by blast
    let ?u = "res_write r l b s"
    have "\<forall>(c, l, b) \<in> set ops. res_in_range ?u l b" using Cons.prems by auto
    note IH = Cons.IH [OF this]
    have "(\<exists>s'. res_steps (res_at r l' b') (cell_ops l' b' (x # ops)) s') \<longleftrightarrow>
        (\<exists>s'. res_steps (res_at ?u l' b') (cell_ops l' b' ops) s')" for l' b'
      using rg s x by (auto dest: res_step_fun)
    then show ?thesis using IH res_apply_defined [OF rg s] x by simp
  next
    case False
    then have "res_apply c r l b = Inl ValueError" by (rule res_apply_stuck [OF rg])
    moreover have "\<not> (\<exists>s. res_steps (res_at r l b) (cell_ops l b (x # ops)) s)" using False x by auto
    ultimately show ?thesis using x by (metis chain_Inl old.sum.distinct(1) res_run.simps(2))
  qed
qed

theorem res_run_succeeds_iff_witness:
  "\<not> (\<exists>r'. res_run [(BeginEvict, 0, 1), (BeginLoad, 0, 1)] (res_init 1 2) = Inr r')"
proof -
  have "\<not> (\<exists>s. res_steps (res_at (res_init 1 2) 0 1) (cell_ops 0 1 [(BeginEvict, 0, 1), (BeginLoad, 0, 1)]) s)"
    by (auto simp: res_init_at)
  then show ?thesis
    using res_run_succeeds_iff [of "[(BeginEvict, 0, 1), (BeginLoad, 0, 1)]" "res_init 1 2"] by auto
qed

end
