(* ===== verification/Cpu_Store.thy ===== *)
theory Cpu_Store
  imports Py_Prelude
begin

text \<open>
  The pinned host pool of the Quest backend
  (\<^verbatim>\<open>quest/cache/cpu_backing_store.py\<close>): K and V blocks per (layer, slot), a LIFO
  free list per layer, and the block copies. A block is the list of its token rows; a row
  (one token's K or V for all heads) is an element of the type parameter. The storage that
  \<open>torch.empty\<close> leaves uninitialised is an argument of the constructor.
\<close>

section \<open>Tensors\<close>

text \<open>
  \<open>dst.copy_(src)\<close>: the new contents of \<open>dst\<close>. A source with the same number of rows
  overwrites it, a source of one row is broadcast, any other shape raises.
\<close>

definition copy_rows :: "'a list \<Rightarrow> 'a list \<Rightarrow> 'a list result" where
  "copy_rows dst src =
     (if length src = length dst then Inr src
      else if length src = 1 then Inr (replicate (length dst) (hd src))
      else Inl RuntimeError)"

section \<open>The store\<close>

record cpu_store_stats =
  alloc_count :: nat
  free_count :: nat
  store_calls :: nat
  load_calls :: nat

record 'a cpu_store =
  cs_k :: "'a list list list"
  cs_v :: "'a list list list"
  cs_num_layers :: nat
  cs_blocks_per_layer :: nat
  cs_free :: "nat list list"
  cs_stats :: cpu_store_stats

definition cs_init ::
  "nat \<Rightarrow> nat \<Rightarrow> 'a list list list \<Rightarrow> 'a list list list \<Rightarrow> 'a cpu_store result" where
  "cs_init num_layers blocks_per_layer k v =
     (if num_layers = 0 \<or> blocks_per_layer = 0 then Inl ValueError
      else Inr \<lparr>cs_k = k, cs_v = v, cs_num_layers = num_layers,
                cs_blocks_per_layer = blocks_per_layer,
                cs_free = replicate num_layers (rev [0..<blocks_per_layer]),
                cs_stats = \<lparr>alloc_count = 0, free_count = 0, store_calls = 0,
                             load_calls = 0\<rparr>\<rparr>)"

definition cs_alloc :: "'a cpu_store \<Rightarrow> nat \<Rightarrow> (nat \<times> 'a cpu_store) result" where
  "cs_alloc cs l = chain (py_nth (cs_free cs) l) (\<lambda>free.
     if free = [] then Inl RuntimeError
     else Inr (last free,
       cs\<lparr>cs_free := (cs_free cs)[l := butlast free],
          cs_stats := cs_stats cs\<lparr>alloc_count := Suc (alloc_count (cs_stats cs))\<rparr>\<rparr>))"

definition cs_release :: "'a cpu_store \<Rightarrow> nat \<Rightarrow> nat \<Rightarrow> 'a cpu_store result" where
  "cs_release cs l slot = chain (py_nth (cs_free cs) l) (\<lambda>free.
     Inr (cs\<lparr>cs_free := (cs_free cs)[l := free @ [slot]],
             cs_stats := cs_stats cs\<lparr>free_count := Suc (free_count (cs_stats cs))\<rparr>\<rparr>))"

definition count_store :: "'a cpu_store \<Rightarrow> 'a cpu_store" where
  "count_store cs =
     cs\<lparr>cs_stats := cs_stats cs\<lparr>store_calls := Suc (store_calls (cs_stats cs))\<rparr>\<rparr>"

definition count_load :: "'a cpu_store \<Rightarrow> 'a cpu_store" where
  "count_load cs =
     cs\<lparr>cs_stats := cs_stats cs\<lparr>load_calls := Suc (load_calls (cs_stats cs))\<rparr>\<rparr>"

text \<open>The data movement of \<open>store_block\<close> and \<open>load_block\<close>, apart from their counters.\<close>

definition cs_put ::
  "'a cpu_store \<Rightarrow> nat \<Rightarrow> nat \<Rightarrow> 'a list \<Rightarrow> 'a list \<Rightarrow> 'a cpu_store result" where
  "cs_put cs l slot k_block v_block =
     chain (py_nth (cs_k cs) l) (\<lambda>krow. chain (py_nth krow slot) (\<lambda>kd.
     chain (copy_rows kd k_block) (\<lambda>k'.
     chain (py_nth (cs_v cs) l) (\<lambda>vrow. chain (py_nth vrow slot) (\<lambda>vd.
     chain (copy_rows vd v_block) (\<lambda>v'.
     Inr (cs\<lparr>cs_k := (cs_k cs)[l := krow[slot := k']],
             cs_v := (cs_v cs)[l := vrow[slot := v']]\<rparr>)))))))"

definition cs_fetch ::
  "'a cpu_store \<Rightarrow> nat \<Rightarrow> nat \<Rightarrow> 'a list \<Rightarrow> 'a list \<Rightarrow> ('a list \<times> 'a list) result" where
  "cs_fetch cs l slot k_dst v_dst =
     chain (py_nth (cs_k cs) l) (\<lambda>krow. chain (py_nth krow slot) (\<lambda>ks.
     chain (copy_rows k_dst ks) (\<lambda>k'.
     chain (py_nth (cs_v cs) l) (\<lambda>vrow. chain (py_nth vrow slot) (\<lambda>vs.
     chain (copy_rows v_dst vs) (\<lambda>v'.
     Inr (k', v')))))))"

definition store_block ::
  "'a cpu_store \<Rightarrow> nat \<Rightarrow> nat \<Rightarrow> 'a list \<Rightarrow> 'a list \<Rightarrow> 'a cpu_store result" where
  "store_block cs l slot k_block v_block =
     chain (cs_put cs l slot k_block v_block) (\<lambda>cs'. Inr (count_store cs'))"

definition load_block ::
  "'a cpu_store \<Rightarrow> nat \<Rightarrow> nat \<Rightarrow> 'a list \<Rightarrow> 'a list \<Rightarrow>
   (('a list \<times> 'a list) \<times> 'a cpu_store) result" where
  "load_block cs l slot k_dst v_dst =
     chain (cs_fetch cs l slot k_dst v_dst) (\<lambda>kv. Inr (kv, count_load cs))"

section \<open>Lemmas\<close>

text \<open>
  A layer of the store is in shape when its row of slots exists and every block has
  \<open>bs\<close> token rows; \<open>cs_at\<close> reads a slot.
\<close>

definition cs_shape :: "nat \<Rightarrow> nat \<Rightarrow> 'a cpu_store \<Rightarrow> bool" where
  "cs_shape bs l cs \<longleftrightarrow>
     l < length (cs_free cs) \<and> l < length (cs_k cs) \<and> l < length (cs_v cs) \<and>
     length (cs_k cs ! l) = cs_blocks_per_layer cs \<and>
     length (cs_v cs ! l) = cs_blocks_per_layer cs \<and>
     (\<forall>s < cs_blocks_per_layer cs. length (cs_k cs ! l ! s) = bs \<and> length (cs_v cs ! l ! s) = bs)"

definition cs_at :: "'a cpu_store \<Rightarrow> nat \<Rightarrow> nat \<Rightarrow> 'a list \<times> 'a list" where
  "cs_at cs l s = (cs_k cs ! l ! s, cs_v cs ! l ! s)"

lemma copy_rows_same [simp]: "length src = length dst \<Longrightarrow> copy_rows dst src = Inr src"
  by (simp add: copy_rows_def)

lemma copy_rows_length: "copy_rows dst src = Inr r \<Longrightarrow> length r = length dst"
  by (auto simp: copy_rows_def split: if_splits)

lemma cs_alloc_ok:
  assumes "l < length (cs_free cs)" "cs_free cs ! l \<noteq> []"
  shows "cs_alloc cs l = Inr (last (cs_free cs ! l),
    cs\<lparr>cs_free := (cs_free cs)[l := butlast (cs_free cs ! l)],
       cs_stats := cs_stats cs\<lparr>alloc_count := Suc (alloc_count (cs_stats cs))\<rparr>\<rparr>)"
  using assms by (simp add: cs_alloc_def)

lemma cs_put_ok:
  assumes "cs_shape bs l cs" "s < cs_blocks_per_layer cs" "length kb = bs" "length vb = bs"
  shows "cs_put cs l s kb vb =
    Inr (cs\<lparr>cs_k := (cs_k cs)[l := (cs_k cs ! l)[s := kb]],
            cs_v := (cs_v cs)[l := (cs_v cs ! l)[s := vb]]\<rparr>)"
  using assms by (simp add: cs_put_def cs_shape_def)

lemma cs_fetch_ok:
  assumes "cs_shape bs l cs" "s < cs_blocks_per_layer cs" "length kd = bs" "length vd = bs"
  shows "cs_fetch cs l s kd vd = Inr (cs_at cs l s)"
  using assms by (simp add: cs_fetch_def cs_shape_def cs_at_def)

text \<open>
  What the tier manager sees of each operation: the free list of its layer, the blocks of
  its layer, and that the shape is kept.
\<close>

lemma cs_alloc_view:
  assumes "cs_shape bs l cs" "cs_free cs ! l \<noteq> []"
  obtains c cs' where "cs_alloc cs l = Inr (c, cs')" "cs_free cs ! l = cs_free cs' ! l @ [c]"
    "cs_shape bs l cs'" "cs_at cs' l = cs_at cs l"
    "cs_blocks_per_layer cs' = cs_blocks_per_layer cs"
proof -
  let ?cs' = "cs\<lparr>cs_free := (cs_free cs)[l := butlast (cs_free cs ! l)],
       cs_stats := cs_stats cs\<lparr>alloc_count := Suc (alloc_count (cs_stats cs))\<rparr>\<rparr>"
  show ?thesis
  proof (rule that [of "last (cs_free cs ! l)" ?cs'])
    show "cs_alloc cs l = Inr (last (cs_free cs ! l), ?cs')"
      using assms by (intro cs_alloc_ok) (auto simp: cs_shape_def)
    show "cs_free cs ! l = cs_free ?cs' ! l @ [last (cs_free cs ! l)]"
      using assms by (simp add: cs_shape_def)
    show "cs_shape bs l ?cs'" using assms by (simp add: cs_shape_def)
    show "cs_at ?cs' l = cs_at cs l" by (rule ext) (simp add: cs_at_def)
  qed simp
qed

lemma cs_release_view:
  assumes "cs_shape bs l cs"
  obtains cs' where "cs_release cs l c = Inr cs'" "cs_free cs' ! l = cs_free cs ! l @ [c]"
    "cs_shape bs l cs'" "cs_at cs' l = cs_at cs l"
    "cs_blocks_per_layer cs' = cs_blocks_per_layer cs"
proof -
  let ?cs' = "cs\<lparr>cs_free := (cs_free cs)[l := cs_free cs ! l @ [c]],
             cs_stats := cs_stats cs\<lparr>free_count := Suc (free_count (cs_stats cs))\<rparr>\<rparr>"
  show ?thesis
  proof (rule that [of ?cs'])
    show "cs_release cs l c = Inr ?cs'"
      using assms by (simp add: cs_release_def cs_shape_def)
    show "cs_free ?cs' ! l = cs_free cs ! l @ [c]" using assms by (simp add: cs_shape_def)
    show "cs_shape bs l ?cs'" using assms by (simp add: cs_shape_def)
    show "cs_at ?cs' l = cs_at cs l" by (rule ext) (simp add: cs_at_def)
  qed simp
qed

lemma store_block_view:
  assumes "cs_shape bs l cs" "c < cs_blocks_per_layer cs" "length kb = bs" "length vb = bs"
  obtains cs' where "store_block cs l c kb vb = Inr cs'" "cs_free cs' = cs_free cs"
    "cs_shape bs l cs'" "cs_at cs' l = (cs_at cs l)(c := (kb, vb))"
    "cs_blocks_per_layer cs' = cs_blocks_per_layer cs"
proof -
  let ?cs' = "count_store (cs\<lparr>cs_k := (cs_k cs)[l := (cs_k cs ! l)[c := kb]],
            cs_v := (cs_v cs)[l := (cs_v cs ! l)[c := vb]]\<rparr>)"
  have [simp]: "c < length (cs_k cs ! l)" "c < length (cs_v cs ! l)" "l < length (cs_k cs)"
    "l < length (cs_v cs)" using assms by (auto simp: cs_shape_def)
  show ?thesis
  proof (rule that [of ?cs'])
    show "store_block cs l c kb vb = Inr ?cs'"
      using cs_put_ok [OF assms] by (simp add: store_block_def)
    show "cs_shape bs l ?cs'"
      using assms by (auto simp: cs_shape_def count_store_def nth_list_update)
    show "cs_at ?cs' l = (cs_at cs l)(c := (kb, vb))"
      by (rule ext) (simp add: cs_at_def count_store_def nth_list_update)
  qed (simp_all add: count_store_def)
qed

lemma load_block_view:
  assumes "cs_shape bs l cs" "c < cs_blocks_per_layer cs" "length kd = bs" "length vd = bs"
  shows "load_block cs l c kd vd = Inr (cs_at cs l c, count_load cs)"
  using cs_fetch_ok [OF assms] by (simp add: load_block_def)

lemma count_load_sel [simp]:
  "cs_free (count_load cs) = cs_free cs" "cs_at (count_load cs) = cs_at cs"
  "cs_shape bs l (count_load cs) = cs_shape bs l cs"
  "cs_blocks_per_layer (count_load cs) = cs_blocks_per_layer cs"
  by (auto simp: count_load_def cs_shape_def cs_at_def fun_eq_iff)

lemma cs_at_length:
  "cs_shape bs l cs \<Longrightarrow> c < cs_blocks_per_layer cs \<Longrightarrow>
   length (fst (cs_at cs l c)) = bs \<and> length (snd (cs_at cs l c)) = bs"
  by (simp add: cs_shape_def cs_at_def)

end
