(* ===== verification/Block_Summary.thy ===== *)
theory Block_Summary
  imports Py_Prelude
begin

text \<open>
  The per-block key digests of the Quest backend (\<^verbatim>\<open>quest/cache/block_summary.py\<close>).
  The tensor reductions and the elementwise arithmetic are PyTorch's: they are the record
  \<open>torch_ops\<close>, an argument of every definition that uses them. A digest is the pair of
  endpoints in slots 0 and 1 of \<open>summary[layer, block]\<close>.
\<close>

record 'a torch_ops =
  t_amax :: "'a list \<Rightarrow> 'a"
  t_amin :: "'a list \<Rightarrow> 'a"
  t_mean :: "'a list \<Rightarrow> 'a"
  t_add :: "'a \<Rightarrow> 'a \<Rightarrow> 'a"
  t_sub :: "'a \<Rightarrow> 'a \<Rightarrow> 'a"
  t_half :: "'a \<Rightarrow> 'a"
  t_abs :: "'a \<Rightarrow> 'a"

record 'a summary_store =
  ss_num_layers :: nat
  ss_max_blocks :: nat
  ss_block_size :: nat
  ss_digest_mode :: string
  ss_summary :: "('a \<times> 'a) list list"

definition ss_init ::
  "nat \<Rightarrow> nat \<Rightarrow> nat \<Rightarrow> string \<Rightarrow> 'a \<Rightarrow> 'a summary_store result" where
  "ss_init num_layers max_blocks block_size digest_mode zero =
     (if num_layers = 0 then Inl ValueError
      else if max_blocks = 0 then Inl ValueError
      else if digest_mode \<noteq> ''quest_minmax'' \<and> digest_mode \<noteq> ''arkvale_cuboid_mean''
      then Inl ValueError
      else Inr \<lparr>ss_num_layers = num_layers, ss_max_blocks = max_blocks,
                ss_block_size = block_size, ss_digest_mode = digest_mode,
                ss_summary = replicate num_layers (replicate max_blocks (zero, zero))\<rparr>)"

definition block_digest :: "'a torch_ops \<Rightarrow> string \<Rightarrow> 'a list \<Rightarrow> 'a \<times> 'a" where
  "block_digest ops mode k_block =
     (if mode = ''arkvale_cuboid_mean'' then
        (let k_max = t_amax ops k_block; k_min = t_amin ops k_block;
             center = t_half ops (t_add ops k_max k_min);
             radius = t_mean ops (map (\<lambda>k. t_abs ops (t_sub ops k center)) k_block)
         in (t_add ops center radius, t_sub ops center radius))
      else (t_amax ops k_block, t_amin ops k_block))"

definition ss_on_block_filled ::
  "'a torch_ops \<Rightarrow> 'a summary_store \<Rightarrow> nat \<Rightarrow> nat \<Rightarrow> 'a list \<Rightarrow> 'a summary_store result" where
  "ss_on_block_filled ops ss l b k_block =
     (if length k_block \<noteq> ss_block_size ss then Inl ValueError
      else chain (py_nth (ss_summary ss) l) (\<lambda>row. chain (py_nth row b) (\<lambda>_.
        Inr (ss\<lparr>ss_summary := (ss_summary ss)
                  [l := row[b := block_digest ops (ss_digest_mode ss) k_block]]\<rparr>))))"

definition ss_gather :: "'a summary_store \<Rightarrow> nat \<Rightarrow> nat list \<Rightarrow> ('a \<times> 'a) list result" where
  "ss_gather ss l ids = chain (py_nth (ss_summary ss) l) (\<lambda>row.
     if (\<forall>b \<in> set ids. b < length row) then Inr (map (\<lambda>b. row ! b) ids) else Inl IndexError)"

section \<open>Lemmas\<close>

definition ss_in_range :: "'a summary_store \<Rightarrow> nat \<Rightarrow> nat \<Rightarrow> bool" where
  "ss_in_range ss l b \<longleftrightarrow> l < length (ss_summary ss) \<and> b < length (ss_summary ss ! l)"

definition ss_at :: "'a summary_store \<Rightarrow> nat \<Rightarrow> nat \<Rightarrow> 'a \<times> 'a" where
  "ss_at ss l b = ss_summary ss ! l ! b"

lemma ss_filled_ok:
  assumes "ss_in_range ss l b" "length kb = ss_block_size ss"
  obtains ss' where "ss_on_block_filled ops ss l b kb = Inr ss'"
    "ss_block_size ss' = ss_block_size ss" "ss_digest_mode ss' = ss_digest_mode ss"
    "\<And>l' b'. ss_in_range ss' l' b' = ss_in_range ss l' b'"
    "\<And>l' b'. ss_at ss' l' b' =
       (if l' = l \<and> b' = b then block_digest ops (ss_digest_mode ss) kb else ss_at ss l' b')"
proof -
  let ?ss = "ss\<lparr>ss_summary := (ss_summary ss)
    [l := (ss_summary ss ! l)[b := block_digest ops (ss_digest_mode ss) kb]]\<rparr>"
  show ?thesis
  proof (rule that [of ?ss])
    show "ss_on_block_filled ops ss l b kb = Inr ?ss"
      using assms by (simp add: ss_on_block_filled_def ss_in_range_def)
    show "\<And>l' b'. ss_in_range ?ss l' b' = ss_in_range ss l' b'"
      using assms(1) by (auto simp: ss_in_range_def nth_list_update)
    show "\<And>l' b'. ss_at ?ss l' b' =
       (if l' = l \<and> b' = b then block_digest ops (ss_digest_mode ss) kb else ss_at ss l' b')"
      using assms(1) by (auto simp: ss_in_range_def ss_at_def nth_list_update)
  qed simp_all
qed

end
