(* ===== verification/Slot_Map.thy ===== *)
theory Slot_Map
  imports Py_Prelude
begin

text \<open>
  The LRU map from keys to arena slots, \<open>_LRUSlotMap\<close> of
  \<^verbatim>\<open>quest/cache/tier_manager.py\<close>: an \<open>OrderedDict\<close> in access order and a stack of
  free slots. The keyword argument \<open>protected\<close> is a set; \<open>None\<close> and the empty set take
  the same branch of the code and are both \<open>{}\<close> here.
\<close>

record 'k slot_map =
  sm_capacity :: nat
  sm_key_to_slot :: "('k, nat) odict"
  sm_free_slots :: "nat list"

definition sm_init :: "nat \<Rightarrow> 'k slot_map" where
  "sm_init cap = \<lparr>sm_capacity = cap, sm_key_to_slot = [], sm_free_slots = rev [0..<cap]\<rparr>"

definition sm_contains :: "'k slot_map \<Rightarrow> 'k \<Rightarrow> bool" where
  "sm_contains m k = od_has (sm_key_to_slot m) k"

definition sm_get :: "'k slot_map \<Rightarrow> 'k \<Rightarrow> (nat \<times> 'k slot_map) result" where
  "sm_get m k =
     (case map_of (sm_key_to_slot m) k of
        None \<Rightarrow> Inl KeyError
      | Some slot \<Rightarrow> Inr (slot, m\<lparr>sm_key_to_slot := od_move_to_end (sm_key_to_slot m) k\<rparr>))"

text \<open>The victim under protection: the oldest unprotected key, else the oldest key.\<close>

definition sm_victim :: "('k, nat) odict \<Rightarrow> 'k set \<Rightarrow> 'k \<Rightarrow> 'k" where
  "sm_victim d prot k0 =
     (case find (\<lambda>k. k \<notin> prot) (od_keys d) of Some k \<Rightarrow> k | None \<Rightarrow> k0)"

definition sm_add ::
  "'k slot_map \<Rightarrow> 'k \<Rightarrow> 'k set \<Rightarrow> (nat \<times> 'k option \<times> 'k slot_map) result" where
  "sm_add m key prot =
     (if sm_contains m key then chain (sm_get m key) (\<lambda>(slot, m'). Inr (slot, None, m'))
      else if sm_free_slots m \<noteq> [] then
        (let slot = last (sm_free_slots m)
         in Inr (slot, None,
              m\<lparr>sm_free_slots := butlast (sm_free_slots m),
                sm_key_to_slot := AList.update key slot (sm_key_to_slot m)\<rparr>))
      else if prot = {} then
        (case sm_key_to_slot m of
           [] \<Rightarrow> Inl KeyError
         | (evicted_key, slot) # rest \<Rightarrow>
             Inr (slot, Some evicted_key, m\<lparr>sm_key_to_slot := AList.update key slot rest\<rparr>))
      else
        (case sm_key_to_slot m of
           [] \<Rightarrow> Inl StopIteration
         | (k0, _) # _ \<Rightarrow>
             (let victim = sm_victim (sm_key_to_slot m) prot k0
              in case map_of (sm_key_to_slot m) victim of
                   None \<Rightarrow> Inl KeyError
                 | Some slot \<Rightarrow>
                     Inr (slot, Some victim,
                       m\<lparr>sm_key_to_slot :=
                           AList.update key slot (AList.delete victim (sm_key_to_slot m))\<rparr>))))"

definition sm_free :: "'k slot_map \<Rightarrow> 'k \<Rightarrow> (nat \<times> 'k slot_map) result" where
  "sm_free m k =
     (case map_of (sm_key_to_slot m) k of
        None \<Rightarrow> Inl KeyError
      | Some slot \<Rightarrow>
          Inr (slot, m\<lparr>sm_key_to_slot := AList.delete k (sm_key_to_slot m),
                       sm_free_slots := sm_free_slots m @ [slot]\<rparr>))"

text \<open>The direct \<open>move_to_end(key, last=False)\<close> of \<open>prefetch_top_ids\<close>.\<close>

definition sm_demote :: "'k slot_map \<Rightarrow> 'k \<Rightarrow> 'k slot_map" where
  "sm_demote m k = m\<lparr>sm_key_to_slot := od_move_to_front (sm_key_to_slot m) k\<rparr>"

section \<open>Invariant and lemmas\<close>

text \<open>Keys are distinct, and used and free slots together are the slots of the arena, once each.\<close>

definition sm_inv :: "'k slot_map \<Rightarrow> bool" where
  "sm_inv m \<longleftrightarrow>
     distinct (map fst (sm_key_to_slot m)) \<and>
     distinct (map snd (sm_key_to_slot m) @ sm_free_slots m) \<and>
     set (map snd (sm_key_to_slot m) @ sm_free_slots m) = {0..<sm_capacity m}"

abbreviation sm_slot :: "'k slot_map \<Rightarrow> 'k \<rightharpoonup> nat" where
  "sm_slot m \<equiv> map_of (sm_key_to_slot m)"

lemma sm_contains_iff: "sm_contains m k \<longleftrightarrow> k \<in> dom (sm_slot m)"
  by (simp add: sm_contains_def od_has_dom)

lemma sm_inv_init: "sm_inv (sm_init cap)"
  by (simp add: sm_inv_def sm_init_def)

lemma sm_inv_length:
  assumes "sm_inv m"
  shows "length (sm_key_to_slot m) + length (sm_free_slots m) = sm_capacity m"
proof -
  have "card (set (map snd (sm_key_to_slot m) @ sm_free_slots m)) =
      length (map snd (sm_key_to_slot m) @ sm_free_slots m)"
    using assms unfolding sm_inv_def by (intro distinct_card) simp
  then show ?thesis using assms by (simp add: sm_inv_def)
qed

lemma sm_inv_slot_less: "sm_inv m \<Longrightarrow> sm_slot m k = Some s \<Longrightarrow> s < sm_capacity m"
  using map_of_snd_in [of "sm_key_to_slot m" k s] unfolding sm_inv_def
  by (metis UnCI atLeastLessThan_iff set_append)

lemma sm_inv_inj: "sm_inv m \<Longrightarrow> sm_slot m k = Some s \<Longrightarrow> sm_slot m k' = Some s \<Longrightarrow> k = k'"
  by (rule distinct_snd_inj [of "sm_key_to_slot m" k s k']) (auto simp: sm_inv_def)

lemma sm_inv_card_dom: "sm_inv m \<Longrightarrow> card (dom (sm_slot m)) = length (sm_key_to_slot m)"
  unfolding sm_inv_def dom_map_of_conv_image_fst
  by (metis distinct_card length_map list.set_map)

lemma sm_get_ok:
  assumes "sm_inv m" "sm_slot m k = Some s"
  obtains m' where "sm_get m k = Inr (s, m')" "sm_inv m'" "sm_slot m' = sm_slot m"
    "sm_free_slots m' = sm_free_slots m" "sm_capacity m' = sm_capacity m"
    "sm_key_to_slot m' = AList.delete k (sm_key_to_slot m) @ [(k, s)]"
proof -
  let ?m' = "m\<lparr>sm_key_to_slot := od_move_to_end (sm_key_to_slot m) k\<rparr>"
  have d: "distinct (map fst (sm_key_to_slot m))" using assms(1) by (simp add: sm_inv_def)
  show ?thesis
  proof (rule that [of ?m'])
    show "sm_get m k = Inr (s, ?m')" using assms(2) by (simp add: sm_get_def)
    show "sm_inv ?m'" using assms(1) set_move_to_end [OF d, of k] by (simp add: sm_inv_def)
    show "sm_slot ?m' = sm_slot m" by (simp add: od_simps)
    show "sm_key_to_slot ?m' = AList.delete k (sm_key_to_slot m) @ [(k, s)]"
      using assms(2) by (simp add: od_move_to_end_def)
  qed simp_all
qed

lemma sm_victim_split:
  assumes "d \<noteq> []" and "distinct (map fst d)"
  obtains A s B where "d = A @ (sm_victim d prot (fst (hd d)), s) # B"
    "sm_victim d prot (fst (hd d)) \<notin> prot \<Longrightarrow> fst ` set A \<subseteq> prot"
    "sm_victim d prot (fst (hd d)) \<in> prot \<Longrightarrow> A = [] \<and> fst ` set d \<subseteq> prot"
proof (cases "find (\<lambda>k. k \<notin> prot) (od_keys d)")
  case None
  then have "fst ` set d \<subseteq> prot" by (auto simp: find_None_iff od_keys_def)
  moreover have "sm_victim d prot (fst (hd d)) = fst (hd d)" using None by (simp add: sm_victim_def)
  moreover have "d = [] @ (fst (hd d), snd (hd d)) # tl d" using assms(1) by simp
  ultimately show ?thesis using assms(1) by (intro that [of "[]" "snd (hd d)" "tl d"]) auto
next
  case (Some k)
  then obtain i where i: "i < length d" "k = fst (d ! i)" "k \<notin> prot"
    "\<And>j. j < i \<Longrightarrow> fst (d ! j) \<in> prot"
    by (auto simp: find_Some_iff od_keys_def)
  have v: "sm_victim d prot (fst (hd d)) = k" using Some by (simp add: sm_victim_def)
  have "d = take i d @ d ! i # drop (Suc i) d" using i(1) by (rule id_take_nth_drop)
  then have "d = take i d @ (k, snd (d ! i)) # drop (Suc i) d" using i(2) by (metis prod.collapse)
  moreover have "fst ` set (take i d) \<subseteq> prot" using i(1,4) by (auto simp: in_set_conv_nth) (metis fst_conv)
  ultimately show ?thesis using v i(3) by (intro that [of "take i d" "snd (d ! i)" "drop (Suc i) d"]) simp_all
qed

text \<open>
  What \<open>add\<close> of a new key does: take a free slot, or replace one resident key. The keys
  before the victim are all protected, and the victim is protected only if every key is.
\<close>

inductive sm_added ::
  "'k slot_map \<Rightarrow> 'k \<Rightarrow> 'k set \<Rightarrow> nat \<Rightarrow> 'k option \<Rightarrow> 'k slot_map \<Rightarrow> bool"
  for m :: "'k slot_map" and k :: 'k and prot :: "'k set" where
  take_free: "sm_free_slots m = F @ [slot] \<Longrightarrow>
     sm_added m k prot slot None
       (m\<lparr>sm_free_slots := F, sm_key_to_slot := sm_key_to_slot m @ [(k, slot)]\<rparr>)"
| replace: "sm_free_slots m = [] \<Longrightarrow> sm_key_to_slot m = A @ (v, slot) # B \<Longrightarrow>
     fst ` set A \<subseteq> prot \<Longrightarrow> (v \<in> prot \<Longrightarrow> A = [] \<and> fst ` set (sm_key_to_slot m) \<subseteq> prot) \<Longrightarrow>
     sm_added m k prot slot (Some v) (m\<lparr>sm_key_to_slot := A @ B @ [(k, slot)]\<rparr>)"

lemma sm_add_new:
  assumes inv: "sm_inv m" and cap: "0 < sm_capacity m" and new: "sm_slot m k = None"
  shows "\<exists>slot ev m'. sm_add m k prot = Inr (slot, ev, m') \<and> sm_added m k prot slot ev m'"
proof -
  have nc: "\<not> sm_contains m k" using new by (simp add: sm_contains_def not_od_has_iff)
  show ?thesis
  proof (cases "sm_free_slots m = []")
    case False
    then have "sm_free_slots m = butlast (sm_free_slots m) @ [last (sm_free_slots m)]" by simp
    from sm_added.take_free [OF this, of k prot] show ?thesis
      using nc False new by (simp add: sm_add_def Let_def update_new)
  next
    case full: True
    have ne: "sm_key_to_slot m \<noteq> []" using sm_inv_length [OF inv] cap full by auto
    then obtain k0 s0 rest where kts: "sm_key_to_slot m = (k0, s0) # rest"
      by (metis list.exhaust surj_pair)
    have dist: "distinct (map fst (sm_key_to_slot m))" using inv by (simp add: sm_inv_def)
    show ?thesis
    proof (cases "prot = {}")
      case True
      have "map_of rest k = None" using new kts by (auto split: if_splits)
      then have eq: "sm_add m k prot = Inr (s0, Some k0, m\<lparr>sm_key_to_slot := rest @ [(k, s0)]\<rparr>)"
        using nc full True kts by (simp add: sm_add_def update_new)
      have "sm_added m k prot s0 (Some k0) (m\<lparr>sm_key_to_slot := [] @ rest @ [(k, s0)]\<rparr>)"
        using full kts True by (intro sm_added.replace) auto
      with eq show ?thesis by auto
    next
      case False
      define v where "v = sm_victim (sm_key_to_slot m) prot k0"
      from sm_victim_split [OF ne dist, of prot] obtain A s B where
        split: "sm_key_to_slot m = A @ (v, s) # B" and
        np: "v \<notin> prot \<Longrightarrow> fst ` set A \<subseteq> prot" and
        p: "v \<in> prot \<Longrightarrow> A = [] \<and> fst ` set (sm_key_to_slot m) \<subseteq> prot"
        by (auto simp: kts v_def)
      have vs: "map_of (sm_key_to_slot m) v = Some s"
        using dist by (rule map_of_is_SomeI) (simp add: split)
      have del: "AList.delete v (sm_key_to_slot m) = A @ B"
        using dist unfolding split by (intro delete_mid) auto
      have "map_of (A @ B) k = None" using new by (simp add: split map_add_None split: if_splits)
      then have "AList.update k s (A @ B) = A @ B @ [(k, s)]" by (simp add: update_new)
      then have eq: "sm_add m k prot =
          Inr (s, Some v, m\<lparr>sm_key_to_slot := A @ B @ [(k, s)]\<rparr>)"
        using nc full False vs del by (simp add: sm_add_def kts [symmetric] v_def)
           (simp add: kts v_def [unfolded kts])
      have "sm_added m k prot s (Some v) (m\<lparr>sm_key_to_slot := A @ B @ [(k, s)]\<rparr>)"
        using full split np p by (intro sm_added.replace) auto
      with eq show ?thesis by blast
    qed
  qed
qed

lemma sm_added_None:
  assumes "sm_inv m" "sm_slot m k = None" "sm_added m k prot slot None m'"
  shows "sm_slot m' = (sm_slot m)(k \<mapsto> slot)" "slot \<notin> ran (sm_slot m)"
    "sm_free_slots m = sm_free_slots m' @ [slot]"
    "sm_key_to_slot m' = sm_key_to_slot m @ [(k, slot)]"
proof -
  from assms(3) obtain F where F: "sm_free_slots m = F @ [slot]"
    "m' = m\<lparr>sm_free_slots := F, sm_key_to_slot := sm_key_to_slot m @ [(k, slot)]\<rparr>"
    by (cases rule: sm_added.cases) auto
  then show "sm_free_slots m = sm_free_slots m' @ [slot]"
    "sm_key_to_slot m' = sm_key_to_slot m @ [(k, slot)]" by simp_all
  show "sm_slot m' = (sm_slot m)(k \<mapsto> slot)"
    using F(2) assms(2) by (auto simp: map_add_def fun_eq_iff split: option.splits)
  show "slot \<notin> ran (sm_slot m)"
    using assms(1) F(1) by (force simp: sm_inv_def ran_def dest: map_of_snd_in)
qed

lemma sm_added_Some:
  assumes "sm_inv m" "sm_slot m k = None" "sm_added m k prot slot (Some v) m'"
  shows "sm_slot m' = (sm_slot m)(v := None, k \<mapsto> slot)" "sm_slot m v = Some slot" "v \<noteq> k"
    "sm_free_slots m = []" "sm_free_slots m' = []"
proof -
  from assms(3) obtain A B where AB: "sm_key_to_slot m = A @ (v, slot) # B"
    "m' = m\<lparr>sm_key_to_slot := A @ B @ [(k, slot)]\<rparr>" "sm_free_slots m = []"
    by (cases rule: sm_added.cases) auto
  have d: "distinct (map fst (sm_key_to_slot m))" using assms(1) by (simp add: sm_inv_def)
  then have v: "v \<notin> fst ` set A" "v \<notin> fst ` set B" by (auto simp: AB(1))
  show sv: "sm_slot m v = Some slot" using d by (rule map_of_is_SomeI) (simp add: AB(1))
  then show "v \<noteq> k" using assms(2) by auto
  have del: "AList.delete v (sm_key_to_slot m) = A @ B" unfolding AB(1) using v by (rule delete_mid)
  have "sm_slot m' = (map_of (A @ B))(k \<mapsto> slot)"
    using assms(2) AB \<open>v \<noteq> k\<close>
    by (auto simp: map_add_def fun_eq_iff map_add_None split: option.splits if_splits)
  also have "map_of (A @ B) = (sm_slot m)(v := None)"
    unfolding del [symmetric] by (rule map_of_delete)
  finally show "sm_slot m' = (sm_slot m)(v := None, k \<mapsto> slot)" .
  show "sm_free_slots m = []" "sm_free_slots m' = []" using AB by simp_all
qed

lemma sm_added_slot:
  assumes "sm_inv m" "sm_slot m k = None" "sm_added m k prot slot ev m'"
  shows "sm_slot m' j = (if j = k then Some slot else if ev = Some j then None else sm_slot m j)"
  using sm_added_None [OF assms(1,2)] sm_added_Some [OF assms(1,2)] assms(3) by (cases ev) auto

lemma sm_added_inv:
  assumes "sm_inv m" "sm_slot m k = None" "sm_added m k prot slot ev m'"
  shows "sm_inv m'" "sm_capacity m' = sm_capacity m" "slot < sm_capacity m"
    "sm_slot m' k = Some slot"
proof -
  have k: "k \<notin> fst ` set (sm_key_to_slot m)" using assms(2) by (simp add: map_of_eq_None_iff)
  show inv: "sm_inv m'"
    using assms(3,1) k by (cases rule: sm_added.cases) (auto simp: sm_inv_def)
  show cap: "sm_capacity m' = sm_capacity m" using assms(3) by (cases rule: sm_added.cases) auto
  show k': "sm_slot m' k = Some slot"
    using sm_added_None [OF assms(1,2)] sm_added_Some [OF assms(1,2)] assms(3) by (cases ev) auto
  from sm_inv_slot_less [OF inv k'] show "slot < sm_capacity m" by (simp add: cap)
qed

lemma sm_free_ok:
  assumes "sm_inv m" "sm_slot m k = Some s"
  obtains m' where "sm_free m k = Inr (s, m')" "sm_inv m'" "sm_slot m' = (sm_slot m)(k := None)"
    "sm_free_slots m' = sm_free_slots m @ [s]" "sm_capacity m' = sm_capacity m"
    "sm_key_to_slot m' = AList.delete k (sm_key_to_slot m)"
proof -
  let ?m' = "m\<lparr>sm_key_to_slot := AList.delete k (sm_key_to_slot m),
                       sm_free_slots := sm_free_slots m @ [s]\<rparr>"
  have d: "distinct (map fst (sm_key_to_slot m))" using assms(1) by (simp add: sm_inv_def)
  from od_split [OF d assms(2)] obtain A B where AB: "sm_key_to_slot m = A @ (k, s) # B"
    "AList.delete k (sm_key_to_slot m) = A @ B" by blast
  show ?thesis
  proof (rule that [of ?m'])
    show "sm_free m k = Inr (s, ?m')" using assms(2) by (simp add: sm_free_def)
    show "sm_inv ?m'" using assms(1) AB by (auto simp: sm_inv_def)
    show "sm_slot ?m' = (sm_slot m)(k := None)" by (simp add: od_simps)
  qed simp_all
qed

lemma sm_demote_inv [simp]: "sm_inv m \<Longrightarrow> sm_inv (sm_demote m k)"
  using set_move_to_front [of "sm_key_to_slot m" k] by (simp add: sm_inv_def sm_demote_def)

lemma sm_demote_slot [simp]: "sm_slot (sm_demote m k) = sm_slot m"
  by (simp add: sm_demote_def od_simps)

section \<open>Recency: the keys a step needs\<close>

text \<open>
  \<open>sm_recent N m\<close>: in access order, every resident key outside \<open>N\<close> comes before every
  resident key of \<open>N\<close>. Touching the needed keys establishes it, and it makes the LRU
  victim a key that is not needed for as long as \<open>N\<close> fits into the arena.
\<close>

definition sm_recent :: "'k set \<Rightarrow> 'k slot_map \<Rightarrow> bool" where
  "sm_recent N m \<longleftrightarrow>
     (\<exists>X Y. od_keys (sm_key_to_slot m) = X @ Y \<and> set X \<inter> N = {} \<and> set Y \<subseteq> N)"

text \<open>Weaker, during the touching pass: needed keys not yet touched may still be in front.\<close>

definition sm_recent_but :: "'k set \<Rightarrow> 'k set \<Rightarrow> 'k slot_map \<Rightarrow> bool" where
  "sm_recent_but N todo m \<longleftrightarrow>
     (\<exists>X Y. od_keys (sm_key_to_slot m) = X @ Y \<and> set X \<inter> N \<subseteq> todo \<and> set Y \<subseteq> N)"

lemma od_keys_delete: "od_keys (AList.delete k d) = filter (\<lambda>x. x \<noteq> k) (od_keys d)"
  by (induction d) (auto simp: od_keys_def AList.delete_eq)

lemma sm_recent_but_start: "sm_recent_but N N m"
  unfolding sm_recent_but_def by (rule exI [of _ "od_keys (sm_key_to_slot m)"]) auto

lemma sm_recent_but_done: "sm_recent_but N {} m \<Longrightarrow> sm_recent N m"
  by (simp add: sm_recent_but_def sm_recent_def)

lemma sm_recent_but_get:
  assumes "sm_recent_but N todo m" "k \<in> N"
    and "sm_key_to_slot m' = AList.delete k (sm_key_to_slot m) @ [(k, s)]"
  shows "sm_recent_but N (todo - {k}) m'"
proof -
  from assms(1) obtain X Y where XY: "od_keys (sm_key_to_slot m) = X @ Y" "set X \<inter> N \<subseteq> todo"
    "set Y \<subseteq> N" by (auto simp: sm_recent_but_def)
  have "od_keys (sm_key_to_slot m') =
      filter (\<lambda>x. x \<noteq> k) X @ (filter (\<lambda>x. x \<noteq> k) Y @ [k])"
    using od_keys_delete [of k "sm_key_to_slot m"] XY(1) assms(3) by (simp add: od_keys_def)
  moreover have "set (filter (\<lambda>x. x \<noteq> k) X) \<inter> N \<subseteq> todo - {k}"
    "set (filter (\<lambda>x. x \<noteq> k) Y @ [k]) \<subseteq> N"
    using XY assms(2) by auto
  ultimately show ?thesis unfolding sm_recent_but_def by blast
qed

lemma sm_recent_but_skip:
  assumes "sm_recent_but N todo m" "sm_slot m k = None"
  shows "sm_recent_but N (todo - {k}) m"
proof -
  from assms(1) obtain X Y where XY: "od_keys (sm_key_to_slot m) = X @ Y" "set X \<inter> N \<subseteq> todo"
    "set Y \<subseteq> N" by (auto simp: sm_recent_but_def)
  have "k \<notin> set X"
    using assms(2) XY(1) set_od_keys [of "sm_key_to_slot m"] by (auto simp: domIff)
  with XY have "set X \<inter> N \<subseteq> todo - {k}" by auto
  with XY show ?thesis unfolding sm_recent_but_def by blast
qed

lemma sm_recent_get:
  assumes "sm_recent N m" "k \<in> N"
    and "sm_key_to_slot m' = AList.delete k (sm_key_to_slot m) @ [(k, s)]"
  shows "sm_recent N m'"
  using sm_recent_but_get [of N "{}" m k m' s] assms
  by (simp add: sm_recent_but_def sm_recent_def)

lemma sm_recent_add:
  assumes inv: "sm_inv m" and new: "sm_slot m k = None" and rec: "sm_recent N m"
    and N: "finite N" "card N \<le> sm_capacity m" "k \<in> N"
    and add: "sm_added m k {} slot ev m'"
  shows "sm_recent N m'" "\<And>v. ev = Some v \<Longrightarrow> v \<notin> N"
proof -
  from rec obtain X Y where XY: "od_keys (sm_key_to_slot m) = X @ Y" "set X \<inter> N = {}"
    "set Y \<subseteq> N" by (auto simp: sm_recent_def)
  have "sm_recent N m' \<and> (\<forall>v. ev = Some v \<longrightarrow> v \<notin> N)"
    using add
  proof (cases rule: sm_added.cases)
    case (take_free F)
    then have "od_keys (sm_key_to_slot m') = X @ (Y @ [k])" using XY(1) by (simp add: od_keys_def)
    moreover have "set (Y @ [k]) \<subseteq> N" using XY(3) N(3) by auto
    ultimately have "sm_recent N m'" unfolding sm_recent_def using XY(2) by blast
    then show ?thesis using take_free by simp
  next
    case (replace A v B)
    have "A = []" using replace(5) by auto
    have "k \<notin> set Y"
      using new XY(1) set_od_keys [of "sm_key_to_slot m"] by (auto simp: domIff)
    have dY: "distinct Y" using inv XY(1) by (simp add: sm_inv_def od_keys_def)
    have "length Y < card N"
      using \<open>k \<notin> set Y\<close> N(1,3) XY(3) dY
      by (metis distinct_card psubset_card_mono psubsetI)
    moreover have "length (X @ Y) = sm_capacity m"
      using sm_inv_length [OF inv] replace(3) XY(1) by (metis add_0_right length_map list.size(3) od_keys_def)
    ultimately have "X \<noteq> []" using N(2) by auto
    then obtain X' where X: "X = v # X'"
      using XY(1) replace(4) \<open>A = []\<close> by (cases X) (auto simp: od_keys_def)
    then have "od_keys (sm_key_to_slot m') = X' @ (Y @ [k])"
      using XY(1) replace \<open>A = []\<close> by (simp add: od_keys_def)
    moreover have "set (Y @ [k]) \<subseteq> N" "set X' \<inter> N = {}" "v \<notin> N" using XY N(3) X by auto
    ultimately have "sm_recent N m'" unfolding sm_recent_def by blast
    then show ?thesis using replace \<open>v \<notin> N\<close> by simp
  qed
  then show "sm_recent N m'" "\<And>v. ev = Some v \<Longrightarrow> v \<notin> N" by auto
qed

section \<open>Properties\<close>

text \<open>
  C12. \<open>add\<close> of a new key to a full map evicts the least recently used key that is not
  protected (the least recently used one when all are), hands its slot to the new key, puts
  the new key at the recent end and leaves every other key where it is.
\<close>

theorem sm_add_evicts_lru_unprotected:
  assumes "sm_inv m" "0 < sm_capacity m" "\<not> sm_contains m k" "sm_free_slots m = []"
  shows "\<exists>slot v m' A B. sm_add m k prot = Inr (slot, Some v, m') \<and> sm_inv m' \<and>
    od_keys (sm_key_to_slot m) = A @ v # B \<and> od_keys (sm_key_to_slot m') = A @ B @ [k] \<and>
    sm_slot m v = Some slot \<and> sm_slot m' = (sm_slot m)(v := None, k \<mapsto> slot) \<and>
    set A \<subseteq> prot \<and> (v \<in> prot \<longrightarrow> A = [] \<and> set (od_keys (sm_key_to_slot m)) \<subseteq> prot)"
proof -
  have new: "sm_slot m k = None" using assms(3) by (simp add: sm_contains_iff domIff)
  from sm_add_new [OF assms(1,2) new, of prot] obtain slot ev m' where
    a: "sm_add m k prot = Inr (slot, ev, m')" "sm_added m k prot slot ev m'" by blast
  from a(2) show ?thesis
  proof (cases rule: sm_added.cases)
    case (take_free F)
    then show ?thesis using assms(4) by simp
  next
    case (replace A v B)
    note S = sm_added_Some [OF assms(1) new a(2) [unfolded replace(1)]] and I = sm_added_inv [OF assms(1) new a(2)]
    have "od_keys (sm_key_to_slot m) = map fst A @ v # map fst B"
      "od_keys (sm_key_to_slot m') = map fst A @ map fst B @ [k]" using replace(2,4) by (simp_all add: od_keys_def)
    with a(1) replace S(1,2) I(1) show ?thesis
      by (intro exI [of _ slot] exI [of _ v] exI [of _ m'] exI [of _ "map fst A"] exI [of _ "map fst B"])
        (auto simp: od_keys_def)
  qed
qed

theorem sm_add_evicts_lru_unprotected_witness:
  "\<exists>slot v m'. sm_add \<lparr>sm_capacity = 2, sm_key_to_slot = [(5 :: nat, 1), (6, 0)], sm_free_slots = []\<rparr> 7 {5} =
     Inr (slot, Some v, m') \<and> sm_inv m'"
proof -
  have "sm_inv \<lparr>sm_capacity = 2, sm_key_to_slot = [(5 :: nat, 1), (6, 0)], sm_free_slots = []\<rparr>"
    by (auto simp: sm_inv_def)
  from sm_add_evicts_lru_unprotected [OF this, of 7 "{5}"] show ?thesis
    by (auto simp: sm_contains_def od_has_def od_keys_def)
qed

text \<open>Sequences of calls on a map; a result is dropped, an error ends the run.\<close>

datatype 'k sm_op = Sm_Get 'k | Sm_Add 'k "'k set" | Sm_Free 'k | Sm_Demote 'k

fun sm_apply :: "'k sm_op \<Rightarrow> 'k slot_map \<Rightarrow> 'k slot_map result" where
  "sm_apply (Sm_Get k) m = chain (sm_get m k) (\<lambda>(_, m'). Inr m')"
| "sm_apply (Sm_Add k prot) m = chain (sm_add m k prot) (\<lambda>(_, _, m'). Inr m')"
| "sm_apply (Sm_Free k) m = chain (sm_free m k) (\<lambda>(_, m'). Inr m')"
| "sm_apply (Sm_Demote k) m = Inr (sm_demote m k)"

lemma sm_apply_inv:
  assumes "sm_apply c m = Inr m'" "sm_inv m" "0 < sm_capacity m"
  shows "sm_inv m' \<and> sm_capacity m' = sm_capacity m"
proof (cases c)
  case (Sm_Get k)
  then obtain s where "sm_slot m k = Some s" using assms(1) by (auto simp: sm_get_def split: option.splits)
  from sm_get_ok [OF assms(2) this] obtain u where "sm_get m k = Inr (s, u)" "sm_inv u"
    "sm_capacity u = sm_capacity m" by blast
  then show ?thesis using assms(1) Sm_Get by auto
next
  case (Sm_Add k prot)
  show ?thesis
  proof (cases "sm_slot m k")
    case None
    from sm_add_new [OF assms(2,3) None, of prot] show ?thesis
      using assms(1) Sm_Add sm_added_inv [OF assms(2) None] by auto
  next
    case (Some s)
    from sm_get_ok [OF assms(2) this] obtain u where "sm_get m k = Inr (s, u)" "sm_inv u"
      "sm_capacity u = sm_capacity m" by blast
    then show ?thesis using assms(1) Sm_Add Some by (auto simp: sm_add_def sm_contains_iff domIff)
  qed
next
  case (Sm_Free k)
  then obtain s where "sm_slot m k = Some s" using assms(1) by (auto simp: sm_free_def split: option.splits)
  from sm_free_ok [OF assms(2) this] obtain u where "sm_free m k = Inr (s, u)" "sm_inv u"
    "sm_capacity u = sm_capacity m" by blast
  then show ?thesis using assms(1) Sm_Free by auto
next
  case (Sm_Demote k)
  then have "m' = sm_demote m k" using assms(1) by simp
  moreover have "sm_capacity (sm_demote m k) = sm_capacity m" by (simp add: sm_demote_def)
  ultimately show ?thesis using assms(2) by simp
qed

text \<open>
  C13. Every sequence of calls on a new map of positive capacity that returns leaves the used
  and the free slots a partition of \<open>0 ..< capacity\<close>, no slot used twice.
\<close>

theorem sm_calls_keep_inv:
  assumes "for_each calls sm_apply (sm_init cap) = Inr m" "0 < cap"
  shows "sm_inv m \<and> sm_capacity m = cap \<and> length (sm_key_to_slot m) + length (sm_free_slots m) = cap"
proof -
  have "sm_inv m \<and> sm_capacity m = cap"
    by (rule for_each_inv [OF assms(1)]) (use sm_inv_init sm_apply_inv assms(2) in \<open>auto simp: sm_init_def\<close>)
  then show ?thesis using sm_inv_length by blast
qed

theorem sm_calls_keep_inv_witness:
  "\<exists>m. for_each [Sm_Add 3 {}, Sm_Add 4 {}, Sm_Add 5 {4}] sm_apply (sm_init 2) = Inr m \<and>
     sm_key_to_slot m = [(4 :: nat, 1), (5, 0)] \<and> sm_inv m \<and> length (sm_key_to_slot m) + length (sm_free_slots m) = 2"
proof -
  let ?m = "\<lparr>sm_capacity = 2, sm_key_to_slot = [(4 :: nat, 1), (5, 0)], sm_free_slots = []\<rparr>"
  have run: "for_each [Sm_Add 3 {}, Sm_Add 4 {}, Sm_Add 5 {4}] sm_apply (sm_init 2) = Inr ?m"
    by (simp add: sm_init_def sm_add_def sm_contains_def sm_victim_def od_has_def od_keys_def upt_rec del: chain_eq_Inr)
  from sm_calls_keep_inv [OF run] run show ?thesis by (intro exI [of _ ?m]) simp
qed

end
