(* ===== verification/Stream_Pool.thy ===== *)
theory Stream_Pool
  imports Cpu_Store
begin

text \<open>
  The transfer streams of the Quest backend (\<^verbatim>\<open>quest/async_transfer.py\<close>). A CUDA
  stream is the queue of the copies issued on it, in issue order; a copy names its source
  and target by reference, because it reads memory when it runs and not when it is issued.
  An event recorded on the h2d stream is the number of copies issued there before it.
\<close>

text \<open>
  The source of a host store: an arena slot of a layer, or tensors the tier manager does
  not own (a block of the engine cache, a slice of the forward pass's key and value).
\<close>

datatype 'a block_src = Arena nat nat | Ext "'a list" "'a list"

datatype 'a copy_op =
    StoreOp nat nat "'a block_src"  \<comment> \<open>layer, host slot, source: D2H\<close>
  | LoadOp nat nat nat              \<comment> \<open>layer, host slot, arena slot: H2D\<close>

record ('q, 'a) stream_pool =
  h2d_stream :: "'a copy_op list"
  d2h_stream :: "'a copy_op list"
  pending :: "'q \<times> nat \<rightharpoonup> nat"

definition sp_init :: "('q, 'a) stream_pool" where
  "sp_init = \<lparr>h2d_stream = [], d2h_stream = [], pending = Map.empty\<rparr>"

definition record_h2d_done :: "('q, 'a) stream_pool \<Rightarrow> nat" where
  "record_h2d_done p = length (h2d_stream p)"

definition record_d2h_done :: "('q, 'a) stream_pool \<Rightarrow> nat" where
  "record_d2h_done p = length (d2h_stream p)"

definition register_prefetch_event ::
  "('q, 'a) stream_pool \<Rightarrow> 'q \<Rightarrow> nat \<Rightarrow> nat \<Rightarrow> ('q, 'a) stream_pool" where
  "register_prefetch_event p seq_id target_layer_idx event =
     p\<lparr>pending := (pending p)((seq_id, target_layer_idx) \<mapsto> event)\<rparr>"

definition pop_prefetch_event ::
  "('q, 'a) stream_pool \<Rightarrow> 'q \<Rightarrow> nat \<Rightarrow> nat option \<times> ('q, 'a) stream_pool" where
  "pop_prefetch_event p seq_id target_layer_idx =
     (pending p (seq_id, target_layer_idx),
      p\<lparr>pending := (pending p)((seq_id, target_layer_idx) := None)\<rparr>)"

definition issue_h2d :: "('q, 'a) stream_pool \<Rightarrow> 'a copy_op \<Rightarrow> ('q, 'a) stream_pool" where
  "issue_h2d p c = p\<lparr>h2d_stream := h2d_stream p @ [c]\<rparr>"

definition issue_d2h :: "('q, 'a) stream_pool \<Rightarrow> 'a copy_op \<Rightarrow> ('q, 'a) stream_pool" where
  "issue_d2h p c = p\<lparr>d2h_stream := d2h_stream p @ [c]\<rparr>"

text \<open>A registered prefetch event is taken exactly once.\<close>

lemma pop_after_register:
  "pop_prefetch_event (register_prefetch_event p q l e) q l =
     (Some e, p\<lparr>pending := (pending p)((q, l) := None)\<rparr>)"
  by (simp add: pop_prefetch_event_def register_prefetch_event_def)

end
