(* ===== verification/Tier_Manager.thy ===== *)
theory Tier_Manager
  imports Residency Cpu_Store Block_Summary Slot_Map Stream_Pool
begin

text \<open>
  The per-layer GPU/CPU coordinator of the Quest backend, \<open>TierManager\<close> of
  \<^verbatim>\<open>quest/cache/tier_manager.py\<close>: its state as a record and one definition per method.
  The stores that all layers share (summary, residency, host pool, streams) are fields, as
  they are attributes of the Python object; a client with several layers hands them on.
  Sequence ids are opaque, a key is a pair of sequence id and logical block id.

  Copies run at once when \<open>stream_pool\<close> is \<open>None\<close>, as in the code's synchronous mode, and
  are issued on a stream otherwise. Wall-clock accumulators (\<open>h2d_wait_ms\<close>,
  \<open>evict_stall_ms\<close>) are left out, the event counters next to them are kept.
\<close>

record quest_stats =
  block_filled :: nat
  evict_d2h :: nat
  evict_drop :: nat
  load_h2d :: nat
  select_calls :: nat
  selected_total :: nat
  selected_on_gpu :: nat
  h2d_wait_events :: nat
  evict_stall_events :: nat

definition quest_stats_init :: quest_stats where
  "quest_stats_init =
     \<lparr>block_filled = 0, evict_d2h = 0, evict_drop = 0, load_h2d = 0, select_calls = 0,
      selected_total = 0, selected_on_gpu = 0, h2d_wait_events = 0, evict_stall_events = 0\<rparr>"

datatype block_ordering = Lru | Prefetch | Mixture

type_synonym 'q key = "'q \<times> nat"

record ('q, 'a) tier =
  layer_idx :: nat
  gpu_budget :: nat
  gpu_k :: "'a list list"
  gpu_v :: "'a list list"
  summary_store :: "'a summary_store"
  residency :: residency
  cpu_store :: "'a cpu_store"
  stream_pool :: "('q, 'a) stream_pool option"
  enable_event_timing :: bool
  enable_overlap_capture :: bool
  enable_write_through :: bool
  block_ordering :: block_ordering
  prefetch_touch :: bool
  active_seqs :: "'q set option"
  slot_map :: "'q key slot_map"
  cpu_slots :: "('q key, nat) odict"
  host_slots :: "('q key, nat) odict"
  prev_selected :: "'q \<rightharpoonup> nat set"
  stats :: quest_stats
  selected_log :: "(nat \<times> 'q \<times> nat list) list"
  trimmed :: "'q set"

definition tm_init ::
  "nat \<Rightarrow> nat \<Rightarrow> 'a list list \<Rightarrow> 'a list list \<Rightarrow> 'a summary_store \<Rightarrow> residency \<Rightarrow>
   'a cpu_store \<Rightarrow> ('q, 'a) stream_pool option \<Rightarrow> bool \<Rightarrow> bool \<Rightarrow> bool \<Rightarrow> bool \<Rightarrow>
   block_ordering \<Rightarrow> bool \<Rightarrow> ('q, 'a) tier result" where
  "tm_init layer budget k v ss res cs pool timing capture aliases write_through bord touch =
     chain (guard (\<not> aliases) AssertionError) (\<lambda>_.
     Inr \<lparr>layer_idx = layer, gpu_budget = budget, gpu_k = k, gpu_v = v, summary_store = ss,
          residency = res, cpu_store = cs, stream_pool = pool, enable_event_timing = timing,
          enable_overlap_capture = capture, enable_write_through = write_through,
          block_ordering = bord, prefetch_touch = touch, active_seqs = None,
          slot_map = sm_init budget, cpu_slots = [], host_slots = [],
          prev_selected = Map.empty, stats = quest_stats_init, selected_log = [],
          trimmed = {}\<rparr>)"

section \<open>Bookkeeping and queries\<close>

definition record_selected ::
  "('q, 'a) tier \<Rightarrow> nat \<Rightarrow> 'q \<Rightarrow> nat list \<Rightarrow> ('q, 'a) tier" where
  "record_selected t step seq_id block_ids =
     (if \<not> enable_overlap_capture t then t
      else t\<lparr>selected_log := selected_log t @ [(step, seq_id, block_ids)]\<rparr>)"

definition drain_selected ::
  "('q, 'a) tier \<Rightarrow> (nat \<times> 'q \<times> nat list) list \<times> ('q, 'a) tier" where
  "drain_selected t = (selected_log t, t\<lparr>selected_log := []\<rparr>)"

definition logical_to_slot :: "('q, 'a) tier \<Rightarrow> 'q \<Rightarrow> nat \<Rightarrow> (nat \<times> ('q, 'a) tier) result" where
  "logical_to_slot t seq_id b =
     chain (sm_get (slot_map t) (seq_id, b)) (\<lambda>(slot, m). Inr (slot, t\<lparr>slot_map := m\<rparr>))"

definition is_resident :: "('q, 'a) tier \<Rightarrow> 'q \<Rightarrow> nat \<Rightarrow> bool" where
  "is_resident t seq_id b = sm_contains (slot_map t) (seq_id, b)"

definition count_resident :: "('q, 'a) tier \<Rightarrow> 'q \<Rightarrow> nat list \<Rightarrow> nat" where
  "count_resident t seq_id ids = length (filter (\<lambda>b. sm_contains (slot_map t) (seq_id, b)) ids)"

definition set_prev_selected :: "('q, 'a) tier \<Rightarrow> 'q \<Rightarrow> nat list \<Rightarrow> ('q, 'a) tier" where
  "set_prev_selected t seq_id block_ids =
     (if block_ordering t \<noteq> Mixture then t
      else t\<lparr>prev_selected := (prev_selected t)(seq_id \<mapsto> set block_ids)\<rparr>)"

definition protected_keys :: "('q, 'a) tier \<Rightarrow> 'q \<Rightarrow> 'q key set" where
  "protected_keys t seq_id =
     (if block_ordering t \<noteq> Mixture then {}
      else (case prev_selected t seq_id of None \<Rightarrow> {} | Some bs \<Rightarrow> (\<lambda>b. (seq_id, b)) ` bs))"

definition register_prefill_summary ::
  "'a torch_ops \<Rightarrow> ('q, 'a) tier \<Rightarrow> 'q \<Rightarrow> nat \<Rightarrow> 'a list \<Rightarrow> ('q, 'a) tier result" where
  "register_prefill_summary ops t seq_id b k_block =
     chain (ss_on_block_filled ops (summary_store t) (layer_idx t) b k_block) (\<lambda>ss.
     Inr (t\<lparr>summary_store := ss\<rparr>))"

section \<open>Data movement\<close>

text \<open>The residency writes of this layer.\<close>

definition tm_residency ::
  "(residency \<Rightarrow> nat \<Rightarrow> nat \<Rightarrow> residency result) \<Rightarrow> ('q, 'a) tier \<Rightarrow> nat \<Rightarrow> ('q, 'a) tier result"
where
  "tm_residency f t b = chain (f (residency t) (layer_idx t) b) (\<lambda>r. Inr (t\<lparr>residency := r\<rparr>))"

text \<open>\<open>gpu_k[slot].copy_(k_block)\<close> and \<open>gpu_v[slot].copy_(v_block)\<close>.\<close>

definition write_arena ::
  "('q, 'a) tier \<Rightarrow> nat \<Rightarrow> 'a list \<Rightarrow> 'a list \<Rightarrow> ('q, 'a) tier result" where
  "write_arena t slot k_block v_block =
     chain (py_nth (gpu_k t) slot) (\<lambda>kd. chain (copy_rows kd k_block) (\<lambda>k'.
     chain (py_nth (gpu_v t) slot) (\<lambda>vd. chain (copy_rows vd v_block) (\<lambda>v'.
     Inr (t\<lparr>gpu_k := (gpu_k t)[slot := k'], gpu_v := (gpu_v t)[slot := v']\<rparr>)))))"

definition src_block :: "('q, 'a) tier \<Rightarrow> 'a block_src \<Rightarrow> ('a list \<times> 'a list) result" where
  "src_block t src =
     (case src of
        Ext k v \<Rightarrow> Inr (k, v)
      | Arena _ slot \<Rightarrow>
          chain (py_nth (gpu_k t) slot) (\<lambda>k. chain (py_nth (gpu_v t) slot) (\<lambda>v. Inr (k, v))))"

text \<open>
  A host store, at once or issued on the d2h stream. The counter \<open>store_calls\<close> counts
  both.
\<close>

definition store_from :: "('q, 'a) tier \<Rightarrow> nat \<Rightarrow> 'a block_src \<Rightarrow> ('q, 'a) tier result" where
  "store_from t cpu_slot src =
     (case stream_pool t of
        None \<Rightarrow> chain (src_block t src) (\<lambda>(k, v).
          chain (store_block (cpu_store t) (layer_idx t) cpu_slot k v) (\<lambda>cs.
          Inr (t\<lparr>cpu_store := cs\<rparr>)))
      | Some p \<Rightarrow>
          Inr (t\<lparr>cpu_store := count_store (cpu_store t),
                 stream_pool := Some (issue_d2h p (StoreOp (layer_idx t) cpu_slot src))\<rparr>))"

definition mirror_to_host ::
  "('q, 'a) tier \<Rightarrow> 'q \<Rightarrow> nat \<Rightarrow> 'a block_src \<Rightarrow> ('q, 'a) tier result" where
  "mirror_to_host t seq_id b src =
     (if od_has (host_slots t) (seq_id, b) then Inr t
      else chain (cs_alloc (cpu_store t) (layer_idx t)) (\<lambda>(cpu_slot, cs).
        store_from
          (t\<lparr>cpu_store := cs,
             host_slots := AList.update (seq_id, b) cpu_slot (host_slots t)\<rparr>)
          cpu_slot src))"

definition drop_gpu_slot :: "('q, 'a) tier \<Rightarrow> 'q \<Rightarrow> nat \<Rightarrow> nat \<Rightarrow> ('q, 'a) tier result" where
  "drop_gpu_slot t seq_id b slot =
     chain (guard (od_has (host_slots t) (seq_id, b)) AssertionError) (\<lambda>_.
     chain (tm_residency begin_evict t b) (\<lambda>t.
     chain (tm_residency complete_evict t b) (\<lambda>t.
     Inr (t\<lparr>stats := stats t\<lparr>evict_drop := Suc (evict_drop (stats t))\<rparr>\<rparr>))))"

definition spill_to_cpu :: "('q, 'a) tier \<Rightarrow> 'q \<Rightarrow> nat \<Rightarrow> nat \<Rightarrow> ('q, 'a) tier result" where
  "spill_to_cpu t seq_id b slot =
     chain (cs_alloc (cpu_store t) (layer_idx t)) (\<lambda>(cpu_slot, cs).
     chain (tm_residency begin_evict (t\<lparr>cpu_store := cs\<rparr>) b) (\<lambda>t.
     chain (store_from t cpu_slot (Arena (layer_idx t) slot)) (\<lambda>t.
     let t = (if stream_pool t = None \<and> enable_event_timing t
              then t\<lparr>stats := stats t\<lparr>evict_stall_events := Suc (evict_stall_events (stats t))\<rparr>\<rparr>
              else t)
     in chain (tm_residency complete_evict t b) (\<lambda>t.
     Inr (t\<lparr>cpu_slots := AList.update (seq_id, b) cpu_slot (cpu_slots t),
            stats := stats t\<lparr>evict_d2h := Suc (evict_d2h (stats t))\<rparr>\<rparr>)))))"

definition spill_hook :: "('q, 'a) tier \<Rightarrow> 'q key \<Rightarrow> nat \<Rightarrow> ('q, 'a) tier result" where
  "spill_hook t key slot =
     (if enable_write_through t then drop_gpu_slot t (fst key) (snd key) slot
      else spill_to_cpu t (fst key) (snd key) slot)"

text \<open>
  The pattern of every arena insertion: \<open>slot, evicted = self._slot_map.add(key, ...)\<close>
  followed by the spill of the evicted block, before the slot is overwritten.
\<close>

definition claim_slot ::
  "('q, 'a) tier \<Rightarrow> 'q key \<Rightarrow> 'q key set \<Rightarrow> (nat \<times> ('q, 'a) tier) result" where
  "claim_slot t key prot =
     chain (sm_add (slot_map t) key prot) (\<lambda>(slot, evicted, m).
     let t = t\<lparr>slot_map := m\<rparr>
     in case evicted of
          None \<Rightarrow> Inr (slot, t)
        | Some ev \<Rightarrow> chain (spill_hook t ev slot) (\<lambda>t. Inr (slot, t)))"

text \<open>An arena insertion that must not evict (the two \<open>assert evicted is None\<close>).\<close>

definition claim_free_slot ::
  "('q, 'a) tier \<Rightarrow> 'q key \<Rightarrow> (nat \<times> ('q, 'a) tier) result" where
  "claim_free_slot t key =
     chain (sm_add (slot_map t) key {}) (\<lambda>(slot, evicted, m).
     chain (guard (evicted = None) AssertionError) (\<lambda>_. Inr (slot, t\<lparr>slot_map := m\<rparr>)))"

section \<open>Filling blocks\<close>

definition tm_on_block_filled ::
  "'a torch_ops \<Rightarrow> ('q, 'a) tier \<Rightarrow> 'q \<Rightarrow> nat \<Rightarrow> 'a list \<Rightarrow> 'a list \<Rightarrow>
   (nat \<times> ('q, 'a) tier) result" where
  "tm_on_block_filled ops t seq_id b k_block v_block =
     chain (register_prefill_summary ops t seq_id b k_block) (\<lambda>t.
     chain (claim_slot t (seq_id, b) {}) (\<lambda>(slot, t).
     chain (write_arena t slot k_block v_block) (\<lambda>t.
     chain (tm_residency mark_on_gpu t b) (\<lambda>t.
     let t = t\<lparr>stats := stats t\<lparr>block_filled := Suc (block_filled (stats t))\<rparr>\<rparr>
     in if enable_write_through t
        then chain (mirror_to_host t seq_id b (Ext k_block v_block)) (\<lambda>t. Inr (slot, t))
        else Inr (slot, t)))))"

definition write_live_block ::
  "('q, 'a) tier \<Rightarrow> 'q \<Rightarrow> nat \<Rightarrow> 'a list \<Rightarrow> 'a list \<Rightarrow> (nat \<times> ('q, 'a) tier) result" where
  "write_live_block t seq_id live_block_id k_block v_block =
     chain (claim_slot t (seq_id, live_block_id) {}) (\<lambda>(slot, t).
     chain (write_arena t slot k_block v_block) (\<lambda>t.
     chain (tm_residency mark_on_gpu t live_block_id) (\<lambda>t. Inr (slot, t))))"

text \<open>
  The branch of a block that does not fit: to a durable host slot under write-through, to a
  transient one otherwise. It is shared by the two prefill paths; \<open>alloc\<close>'s
  \<open>RuntimeError\<close> is re-raised as a \<open>RuntimeError\<close> with another message.
\<close>

definition offload_block ::
  "('q, 'a) tier \<Rightarrow> 'q \<Rightarrow> nat \<Rightarrow> 'a list \<Rightarrow> 'a list \<Rightarrow> ('q, 'a) tier result" where
  "offload_block t seq_id b k_block v_block =
     (if enable_write_through t then
        chain (mirror_to_host t seq_id b (Ext k_block v_block)) (\<lambda>t.
        chain (tm_residency begin_evict t b) (\<lambda>t. tm_residency complete_evict t b))
      else
        chain (cs_alloc (cpu_store t) (layer_idx t)) (\<lambda>(cpu_slot, cs).
        chain (store_block cs (layer_idx t) cpu_slot k_block v_block) (\<lambda>cs.
        let t = t\<lparr>cpu_store := cs,
                  cpu_slots := AList.update (seq_id, b) cpu_slot (cpu_slots t)\<rparr>
        in chain (tm_residency begin_evict t b) (\<lambda>t.
           chain (tm_residency complete_evict t b) (\<lambda>t.
           Inr (t\<lparr>stats := stats t\<lparr>evict_d2h := Suc (evict_d2h (stats t))\<rparr>\<rparr>))))))"

definition keep_n :: "('q, 'a) tier \<Rightarrow> nat \<Rightarrow> nat" where
  "keep_n t num_full_blocks = min num_full_blocks (sm_capacity (slot_map t) - 1)"

definition trim_block ::
  "'q \<Rightarrow> nat \<Rightarrow> ('a list \<times> 'a list) list \<Rightarrow> int list \<Rightarrow> nat \<Rightarrow> ('q, 'a) tier \<Rightarrow>
   ('q, 'a) tier result" where
  "trim_block seq_id keep_lo kv_cache block_table_row b t =
     chain (py_nth block_table_row b) (\<lambda>phys.
     if keep_lo \<le> b then
       chain (claim_free_slot t (seq_id, b)) (\<lambda>(slot, t).
       chain (py_index kv_cache phys) (\<lambda>(k, v).
       chain (write_arena t slot k v) (\<lambda>t.
       chain (tm_residency mark_on_gpu t b) (\<lambda>t.
       if enable_write_through t then mirror_to_host t seq_id b (Ext k v) else Inr t))))
     else
       chain (py_index kv_cache phys) (\<lambda>(k, v). offload_block t seq_id b k v))"

definition trim_to_working_set ::
  "('q, 'a) tier \<Rightarrow> 'q \<Rightarrow> nat \<Rightarrow> ('a list \<times> 'a list) list \<Rightarrow> int list \<Rightarrow>
   ('q, 'a) tier result" where
  "trim_to_working_set t seq_id num_full_blocks kv_cache block_table_row =
     (if seq_id \<in> trimmed t then Inr t
      else
        (let t = t\<lparr>trimmed := insert seq_id (trimmed t)\<rparr>;
             keep_lo = num_full_blocks - keep_n t num_full_blocks
         in for_each [0..<num_full_blocks]
              (trim_block seq_id keep_lo kv_cache block_table_row) t))"

definition py_slice :: "'a list \<Rightarrow> nat \<Rightarrow> nat \<Rightarrow> 'a list" where
  "py_slice xs lo hi = take (hi - lo) (drop lo xs)"

definition ingest_block ::
  "'a torch_ops \<Rightarrow> 'q \<Rightarrow> nat \<Rightarrow> 'a list \<Rightarrow> 'a list \<Rightarrow> nat \<Rightarrow> nat \<Rightarrow> ('q, 'a) tier \<Rightarrow>
   ('q, 'a) tier result" where
  "ingest_block ops seq_id keep_lo key val block_size b t =
     (let lo = b * block_size; hi = lo + block_size;
          k_block = py_slice key lo hi; v_block = py_slice val lo hi
      in chain (register_prefill_summary ops t seq_id b k_block) (\<lambda>t.
         if keep_lo \<le> b then
           chain (claim_free_slot t (seq_id, b)) (\<lambda>(slot, t).
           chain (write_arena t slot k_block v_block) (\<lambda>t.
           chain (tm_residency mark_on_gpu t b) (\<lambda>t.
           let t = t\<lparr>stats := stats t\<lparr>block_filled := Suc (block_filled (stats t))\<rparr>\<rparr>
           in if enable_write_through t
              then mirror_to_host t seq_id b (Ext k_block v_block) else Inr t)))
         else offload_block t seq_id b k_block v_block))"

text \<open>\<open>gpu_k[slot][:n].copy_(rows)\<close> on both arenas.\<close>

definition write_arena_prefix ::
  "('q, 'a) tier \<Rightarrow> nat \<Rightarrow> nat \<Rightarrow> 'a list \<Rightarrow> 'a list \<Rightarrow> ('q, 'a) tier result" where
  "write_arena_prefix t slot n k_rows v_rows =
     chain (py_nth (gpu_k t) slot) (\<lambda>kd. chain (copy_rows (take n kd) k_rows) (\<lambda>k'.
     chain (py_nth (gpu_v t) slot) (\<lambda>vd. chain (copy_rows (take n vd) v_rows) (\<lambda>v'.
     Inr (t\<lparr>gpu_k := (gpu_k t)[slot := k' @ drop n kd],
            gpu_v := (gpu_v t)[slot := v' @ drop n vd]\<rparr>)))))"

definition prefill_ingest_kvshare ::
  "'a torch_ops \<Rightarrow> ('q, 'a) tier \<Rightarrow> 'q \<Rightarrow> nat \<Rightarrow> 'a list \<Rightarrow> 'a list \<Rightarrow> nat \<Rightarrow> nat option \<Rightarrow>
   ('q, 'a) tier result" where
  "prefill_ingest_kvshare ops t seq_id num_full_blocks key val block_size prompt_len =
     (if seq_id \<in> trimmed t then Inr t
      else
        (let t = t\<lparr>trimmed := insert seq_id (trimmed t)\<rparr>;
             keep_lo = num_full_blocks - keep_n t num_full_blocks
         in chain (for_each [0..<num_full_blocks]
                    (ingest_block ops seq_id keep_lo key val block_size) t) (\<lambda>t.
            case prompt_len of
              None \<Rightarrow> Inr t
            | Some n \<Rightarrow>
                (let partial = n - num_full_blocks * block_size
                 in if 0 < partial then
                      (let live_id = num_full_blocks; lo = num_full_blocks * block_size
                       in chain (claim_slot t (seq_id, live_id) {}) (\<lambda>(slot, t).
                          chain (write_arena_prefix t slot partial
                                   (py_slice key lo (lo + partial))
                                   (py_slice val lo (lo + partial))) (\<lambda>t.
                          tm_residency mark_on_gpu t live_id)))
                    else Inr t))))"

text \<open>\<open>gpu_k[slot][offset].copy_(k_tok)\<close> on both arenas.\<close>

definition write_arena_row ::
  "('q, 'a) tier \<Rightarrow> nat \<Rightarrow> nat \<Rightarrow> 'a \<Rightarrow> 'a \<Rightarrow> ('q, 'a) tier result" where
  "write_arena_row t slot offset k_tok v_tok =
     chain (py_nth (gpu_k t) slot) (\<lambda>kd. chain (py_nth kd offset) (\<lambda>_.
     chain (py_nth (gpu_v t) slot) (\<lambda>vd. chain (py_nth vd offset) (\<lambda>_.
     Inr (t\<lparr>gpu_k := (gpu_k t)[slot := kd[offset := k_tok]],
            gpu_v := (gpu_v t)[slot := vd[offset := v_tok]]\<rparr>)))))"

definition append_decode_token_kvshare ::
  "'a torch_ops \<Rightarrow> ('q, 'a) tier \<Rightarrow> 'q \<Rightarrow> nat \<Rightarrow> 'a \<Rightarrow> 'a \<Rightarrow> nat \<Rightarrow> ('q, 'a) tier result" where
  "append_decode_token_kvshare ops t seq_id seq_len_before k_tok v_tok block_size =
     chain (guard (block_size \<noteq> 0) ZeroDivisionError) (\<lambda>_.
     let live_block_id = seq_len_before div block_size;
         offset = seq_len_before mod block_size
     in chain (claim_slot t (seq_id, live_block_id) {}) (\<lambda>(slot, t).
        chain (write_arena_row t slot offset k_tok v_tok) (\<lambda>t.
        chain (tm_residency mark_on_gpu t live_block_id) (\<lambda>t.
        if offset = block_size - 1 then
          chain (src_block t (Arena (layer_idx t) slot)) (\<lambda>(k, v).
          chain (register_prefill_summary ops t seq_id live_block_id k) (\<lambda>t.
          let t = t\<lparr>stats := stats t\<lparr>block_filled := Suc (block_filled (stats t))\<rparr>\<rparr>
          in if enable_write_through t
             then mirror_to_host t seq_id live_block_id (Arena (layer_idx t) slot)
             else Inr t))
        else Inr t))))"

section \<open>Releasing a request\<close>

definition keys_of :: "('q key, nat) odict \<Rightarrow> 'q \<Rightarrow> 'q key list" where
  "keys_of d seq_id = filter (\<lambda>k. fst k = seq_id) (od_keys d)"

definition free_arena_key :: "'q key \<Rightarrow> ('q, 'a) tier \<Rightarrow> ('q, 'a) tier result" where
  "free_arena_key k t =
     chain (sm_free (slot_map t) k) (\<lambda>(_, m). Inr (t\<lparr>slot_map := m\<rparr>))"

definition free_cpu_key :: "'q key \<Rightarrow> ('q, 'a) tier \<Rightarrow> ('q, 'a) tier result" where
  "free_cpu_key k t =
     (case map_of (cpu_slots t) k of
        None \<Rightarrow> Inl KeyError
      | Some c \<Rightarrow>
          chain (cs_release (cpu_store t) (layer_idx t) c) (\<lambda>cs.
          Inr (t\<lparr>cpu_slots := AList.delete k (cpu_slots t), cpu_store := cs\<rparr>)))"

definition free_host_key :: "'q key \<Rightarrow> ('q, 'a) tier \<Rightarrow> ('q, 'a) tier result" where
  "free_host_key k t =
     (case map_of (host_slots t) k of
        None \<Rightarrow> Inl KeyError
      | Some c \<Rightarrow>
          chain (cs_release (cpu_store t) (layer_idx t) c) (\<lambda>cs.
          Inr (t\<lparr>host_slots := AList.delete k (host_slots t), cpu_store := cs\<rparr>)))"

definition free_request :: "('q, 'a) tier \<Rightarrow> 'q \<Rightarrow> ('q, 'a) tier result" where
  "free_request t seq_id =
     (let keys = keys_of (sm_key_to_slot (slot_map t)) seq_id;
          cpu_keys = keys_of (cpu_slots t) seq_id;
          host_keys = keys_of (host_slots t) seq_id;
          evicted_blocks = map snd (keys @ cpu_keys @ host_keys)
      in chain (for_each keys free_arena_key t) (\<lambda>t.
         chain (for_each cpu_keys free_cpu_key t) (\<lambda>t.
         chain (for_each host_keys free_host_key t) (\<lambda>t.
         for_each evicted_blocks (\<lambda>b t. tm_residency mark_on_gpu t b)
           (t\<lparr>trimmed := trimmed t - {seq_id},
              prev_selected := (prev_selected t)(seq_id := None)\<rparr>)))))"

section \<open>Making a selection resident\<close>

definition touch_one :: "'q \<Rightarrow> nat \<Rightarrow> ('q, 'a) tier \<Rightarrow> ('q, 'a) tier result" where
  "touch_one seq_id b t =
     (if sm_contains (slot_map t) (seq_id, b)
      then chain (sm_get (slot_map t) (seq_id, b)) (\<lambda>(_, m). Inr (t\<lparr>slot_map := m\<rparr>))
      else Inr t)"

definition touch_resident ::
  "('q, 'a) tier \<Rightarrow> 'q \<Rightarrow> nat list \<Rightarrow> nat list \<Rightarrow> ('q, 'a) tier result" where
  "touch_resident t seq_id ids keep_ids =
     chain (for_each keep_ids (touch_one seq_id) t) (\<lambda>t. for_each ids (touch_one seq_id) t)"

text \<open>
  The host slot of a miss: peeked under write-through, popped from \<open>_cpu_slots\<close> otherwise.
\<close>

definition take_backup :: "('q, 'a) tier \<Rightarrow> 'q key \<Rightarrow> (nat \<times> ('q, 'a) tier) result" where
  "take_backup t key =
     (if enable_write_through t then
        (case map_of (host_slots t) key of
           None \<Rightarrow> Inl RuntimeError | Some c \<Rightarrow> Inr (c, t))
      else
        (case map_of (cpu_slots t) key of
           None \<Rightarrow> Inl RuntimeError
         | Some c \<Rightarrow> Inr (c, t\<lparr>cpu_slots := AList.delete key (cpu_slots t)\<rparr>)))"

text \<open>The H2D copy of the host slot into the arena slot.\<close>

definition load_into :: "('q, 'a) tier \<Rightarrow> nat \<Rightarrow> nat \<Rightarrow> ('q, 'a) tier result" where
  "load_into t cpu_slot slot =
     chain (py_nth (gpu_k t) slot) (\<lambda>kd. chain (py_nth (gpu_v t) slot) (\<lambda>vd.
     chain (load_block (cpu_store t) (layer_idx t) cpu_slot kd vd) (\<lambda>((k, v), cs).
     Inr (t\<lparr>gpu_k := (gpu_k t)[slot := k], gpu_v := (gpu_v t)[slot := v], cpu_store := cs\<rparr>))))"

definition issue_load :: "('q, 'a) tier \<Rightarrow> nat \<Rightarrow> nat \<Rightarrow> ('q, 'a) tier result" where
  "issue_load t cpu_slot slot =
     Inr (t\<lparr>cpu_store := count_load (cpu_store t),
            stream_pool := map_option (\<lambda>p. issue_h2d p (LoadOp (layer_idx t) cpu_slot slot))
                             (stream_pool t)\<rparr>)"

text \<open>\<open>_ensure_one_sync\<close> and \<open>_ensure_one_async\<close> differ in the copy only.\<close>

definition ensure_one ::
  "(('q, 'a) tier \<Rightarrow> nat \<Rightarrow> nat \<Rightarrow> ('q, 'a) tier result) \<Rightarrow> 'q \<Rightarrow> nat \<Rightarrow> ('q, 'a) tier \<Rightarrow>
   ('q, 'a) tier result" where
  "ensure_one copy seq_id b t =
     (let key = (seq_id, b)
      in if sm_contains (slot_map t) key
         then chain (sm_get (slot_map t) key) (\<lambda>(_, m). Inr (t\<lparr>slot_map := m\<rparr>))
         else
           chain (take_backup t key) (\<lambda>(cpu_slot, t).
           chain (claim_slot t key (protected_keys t seq_id)) (\<lambda>(slot, t).
           chain (tm_residency begin_load t b) (\<lambda>t.
           chain (copy t cpu_slot slot) (\<lambda>t.
           chain (if enable_write_through t then Inr t
                  else chain (cs_release (cpu_store t) (layer_idx t) cpu_slot) (\<lambda>cs.
                         Inr (t\<lparr>cpu_store := cs\<rparr>))) (\<lambda>t.
           chain (tm_residency complete_load t b) (\<lambda>t.
           Inr (t\<lparr>stats := stats t\<lparr>load_h2d := Suc (load_h2d (stats t))\<rparr>\<rparr>))))))))"

definition ensure_one_sync :: "'q \<Rightarrow> nat \<Rightarrow> ('q, 'a) tier \<Rightarrow> ('q, 'a) tier result" where
  "ensure_one_sync seq_id b t = ensure_one load_into seq_id b t"

definition ensure_one_async :: "'q \<Rightarrow> nat \<Rightarrow> ('q, 'a) tier \<Rightarrow> ('q, 'a) tier result" where
  "ensure_one_async seq_id b t = ensure_one issue_load seq_id b t"

definition timed_ensure_sync ::
  "('q, 'a) tier \<Rightarrow> 'q \<Rightarrow> nat list \<Rightarrow> ('q, 'a) tier result" where
  "timed_ensure_sync t seq_id ids =
     chain (for_each ids (ensure_one_sync seq_id) t) (\<lambda>t'.
     if load_h2d (stats t) < load_h2d (stats t')
     then Inr (t'\<lparr>stats := stats t'\<lparr>h2d_wait_events := Suc (h2d_wait_events (stats t'))\<rparr>\<rparr>)
     else Inr t')"

definition ensure_resident ::
  "('q, 'a) tier \<Rightarrow> 'q \<Rightarrow> nat list \<Rightarrow> nat list \<Rightarrow> (nat option \<times> ('q, 'a) tier) result" where
  "ensure_resident t seq_id ids keep =
     chain (touch_resident t seq_id ids keep) (\<lambda>t.
     case stream_pool t of
       None \<Rightarrow>
         chain (if enable_event_timing t then timed_ensure_sync t seq_id ids
                else for_each ids (ensure_one_sync seq_id) t) (\<lambda>t. Inr (None, t))
     | Some _ \<Rightarrow>
         chain (for_each ids (ensure_one_async seq_id) t) (\<lambda>t.
         Inr (map_option record_h2d_done (stream_pool t), t)))"

definition prefetch_top_ids ::
  "('q, 'a) tier \<Rightarrow> 'q \<Rightarrow> nat list \<Rightarrow> ('q, 'a) tier result" where
  "prefetch_top_ids t seq_id ids =
     (case stream_pool t of
        None \<Rightarrow> Inr t
      | Some _ \<Rightarrow>
          chain (for_each ids (\<lambda>b t.
             chain (ensure_one_async seq_id b t) (\<lambda>t.
             if \<not> prefetch_touch t \<and> sm_contains (slot_map t) (seq_id, b)
             then Inr (t\<lparr>slot_map := sm_demote (slot_map t) (seq_id, b)\<rparr>)
             else Inr t)) t) (\<lambda>t.
          Inr (t\<lparr>stream_pool := map_option (\<lambda>p.
                    register_prefetch_event p seq_id (layer_idx t) (record_h2d_done p))
                  (stream_pool t)\<rparr>)))"

end
