(* ===== verification/Tier_Invariant.thy ===== *)
theory Tier_Invariant
  imports Tier_Manager
begin

text \<open>
  The invariant of a tier manager and its abstraction. \<open>content t\<close> is what the component
  promises to its client: the K and V data of every logical block it holds, wherever the
  data lives. Every lemma of this theory states what one step of the code does to the
  invariant and to the content; the properties of the methods compose them.

  The residency table has no sequence index, so the invariant is about a tier manager that
  serves one sequence at a time, which is the scope the code documents for it.
\<close>

abbreviation bsz :: "('q, 'a) tier \<Rightarrow> nat" where
  "bsz t \<equiv> ss_block_size (summary_store t)"

abbreviation slot_of :: "('q, 'a) tier \<Rightarrow> 'q key \<rightharpoonup> nat" where
  "slot_of t \<equiv> sm_slot (slot_map t)"

abbreviation cpu_free :: "('q, 'a) tier \<Rightarrow> nat list" where
  "cpu_free t \<equiv> cs_free (cpu_store t) ! layer_idx t"

abbreviation host_at :: "('q, 'a) tier \<Rightarrow> nat \<Rightarrow> 'a list \<times> 'a list" where
  "host_at t \<equiv> cs_at (cpu_store t) (layer_idx t)"

abbreviation res_of :: "('q, 'a) tier \<Rightarrow> nat \<Rightarrow> residency_state" where
  "res_of t \<equiv> res_at (residency t) (layer_idx t)"

definition arena_at :: "('q, 'a) tier \<Rightarrow> nat \<Rightarrow> 'a list \<times> 'a list" where
  "arena_at t s = (gpu_k t ! s, gpu_v t ! s)"

text \<open>The dictionary of host slots in use: durable under write-through, transient otherwise.\<close>

definition backup :: "('q, 'a) tier \<Rightarrow> ('q key, nat) odict" where
  "backup t = (if enable_write_through t then host_slots t else cpu_slots t)"

definition content :: "('q, 'a) tier \<Rightarrow> 'q key \<rightharpoonup> 'a list \<times> 'a list" where
  "content t k =
     (case slot_of t k of
        Some s \<Rightarrow> Some (arena_at t s)
      | None \<Rightarrow> map_option (host_at t) (map_of (backup t) k))"

definition arena_ok :: "('q, 'a) tier \<Rightarrow> bool" where
  "arena_ok t \<longleftrightarrow>
     sm_inv (slot_map t) \<and> 0 < sm_capacity (slot_map t) \<and>
     length (gpu_k t) = sm_capacity (slot_map t) \<and>
     length (gpu_v t) = sm_capacity (slot_map t) \<and>
     (\<forall>s < sm_capacity (slot_map t). length (gpu_k t ! s) = bsz t \<and> length (gpu_v t ! s) = bsz t)"

text \<open>
  The host slots of the layer are partitioned into those the dictionary uses, the free
  list, and the slots \<open>H\<close> a step has taken out and not yet given back.
\<close>

definition host_ok :: "nat list \<Rightarrow> ('q, 'a) tier \<Rightarrow> bool" where
  "host_ok H t \<longleftrightarrow>
     cs_shape (bsz t) (layer_idx t) (cpu_store t) \<and>
     (enable_write_through t \<longrightarrow> cpu_slots t = []) \<and>
     (\<not> enable_write_through t \<longrightarrow> host_slots t = []) \<and>
     distinct (map fst (backup t)) \<and>
     distinct (map snd (backup t) @ cpu_free t @ H) \<and>
     set (map snd (backup t) @ cpu_free t @ H) = {0..<cs_blocks_per_layer (cpu_store t)}"

text \<open>
  Residency and data agree with the dictionaries, for every key outside \<open>E\<close> (the key a
  step is working on).
\<close>

definition agree :: "'q \<Rightarrow> 'q key set \<Rightarrow> ('q, 'a) tier \<Rightarrow> bool" where
  "agree q E t \<longleftrightarrow>
     (\<forall>k \<in> dom (slot_of t) \<union> dom (map_of (backup t)).
        fst k = q \<and> res_in_range (residency t) (layer_idx t) (snd k)) \<and>
     (\<forall>k \<in> dom (slot_of t) - E. res_of t (snd k) = ON_GPU) \<and>
     (\<forall>k \<in> dom (map_of (backup t)) - dom (slot_of t) - E. res_of t (snd k) = ON_CPU) \<and>
     (\<not> enable_write_through t \<longrightarrow> dom (slot_of t) \<inter> dom (map_of (backup t)) = {}) \<and>
     (enable_write_through t \<longrightarrow>
        (\<forall>k s c. k \<notin> E \<longrightarrow> slot_of t k = Some s \<longrightarrow> map_of (host_slots t) k = Some c \<longrightarrow>
           host_at t c = arena_at t s))"

definition tier_step_inv :: "'q \<Rightarrow> 'q key set \<Rightarrow> nat list \<Rightarrow> ('q, 'a) tier \<Rightarrow> bool" where
  "tier_step_inv q E H t \<longleftrightarrow> arena_ok t \<and> host_ok H t \<and> agree q E t"

definition tier_inv :: "'q \<Rightarrow> ('q, 'a) tier \<Rightarrow> bool" where
  "tier_inv q t \<longleftrightarrow> tier_step_inv q {} [] t"

lemmas tier_inv_defs =
  tier_inv_def tier_step_inv_def arena_ok_def host_ok_def agree_def

lemma content_Some: "slot_of t k = Some s \<Longrightarrow> content t k = Some (arena_at t s)"
  and content_None: "slot_of t k = None \<Longrightarrow> content t k = map_option (host_at t) (map_of (backup t) k)"
  by (simp_all add: content_def)

lemma agreeI:
  assumes "\<And>k. k \<in> dom (slot_of t) \<union> dom (map_of (backup t)) \<Longrightarrow>
      fst k = q \<and> res_in_range (residency t) (layer_idx t) (snd k)"
    and "\<And>k s. slot_of t k = Some s \<Longrightarrow> k \<notin> E \<Longrightarrow> res_of t (snd k) = ON_GPU"
    and "\<And>k c. map_of (backup t) k = Some c \<Longrightarrow> slot_of t k = None \<Longrightarrow> k \<notin> E \<Longrightarrow>
      res_of t (snd k) = ON_CPU"
    and "\<And>k s. \<not> enable_write_through t \<Longrightarrow> slot_of t k = Some s \<Longrightarrow> map_of (backup t) k = None"
    and "\<And>k s c. enable_write_through t \<Longrightarrow> k \<notin> E \<Longrightarrow> slot_of t k = Some s \<Longrightarrow>
      map_of (backup t) k = Some c \<Longrightarrow> host_at t c = arena_at t s"
  shows "agree q E t"
  unfolding agree_def
proof (intro conjI ballI impI allI)
  show "dom (slot_of t) \<inter> dom (map_of (backup t)) = {}" if "\<not> enable_write_through t"
    using assms(4) [OF that] by (auto simp: dom_def)
  show "host_at t c = arena_at t s" if "enable_write_through t" "k \<notin> E" "slot_of t k = Some s"
    "map_of (host_slots t) k = Some c" for k s c
    using assms(5) [OF that(1-3)] that(1,4) by (simp add: backup_def)
  show "res_of t (snd k) = ON_GPU" if "k \<in> dom (slot_of t) - E" for k
    using assms(2) that by blast
  show "res_of t (snd k) = ON_CPU" if "k \<in> dom (map_of (backup t)) - dom (slot_of t) - E" for k
    using assms(3) [of k] that by auto
qed (use assms(1) in blast)+

lemma agreeD:
  assumes "agree q E t"
  shows "k \<in> dom (slot_of t) \<union> dom (map_of (backup t)) \<Longrightarrow>
      fst k = q \<and> res_in_range (residency t) (layer_idx t) (snd k)"
    and "slot_of t k = Some s \<Longrightarrow> k \<notin> E \<Longrightarrow> res_of t (snd k) = ON_GPU"
    and "map_of (backup t) k = Some c \<Longrightarrow> slot_of t k = None \<Longrightarrow> k \<notin> E \<Longrightarrow>
      res_of t (snd k) = ON_CPU"
    and "\<not> enable_write_through t \<Longrightarrow> slot_of t k = Some s \<Longrightarrow> map_of (backup t) k = None"
    and "enable_write_through t \<Longrightarrow> k \<notin> E \<Longrightarrow> slot_of t k = Some s \<Longrightarrow>
      map_of (backup t) k = Some c \<Longrightarrow> host_at t c = arena_at t s"
proof -
  note ag = assms [unfolded agree_def]
  show "k \<in> dom (slot_of t) \<union> dom (map_of (backup t)) \<Longrightarrow>
      fst k = q \<and> res_in_range (residency t) (layer_idx t) (snd k)" using ag by blast
  show "slot_of t k = Some s \<Longrightarrow> k \<notin> E \<Longrightarrow> res_of t (snd k) = ON_GPU" using ag by blast
  show "map_of (backup t) k = Some c \<Longrightarrow> slot_of t k = None \<Longrightarrow> k \<notin> E \<Longrightarrow>
      res_of t (snd k) = ON_CPU" using ag by (metis DiffI domI domIff)
  show "\<not> enable_write_through t \<Longrightarrow> slot_of t k = Some s \<Longrightarrow> map_of (backup t) k = None"
    using ag by (meson disjoint_iff domI domIff)
  show "enable_write_through t \<Longrightarrow> k \<notin> E \<Longrightarrow> slot_of t k = Some s \<Longrightarrow>
      map_of (backup t) k = Some c \<Longrightarrow> host_at t c = arena_at t s"
    using ag by (metis backup_def)
qed

lemma tier_step_invD:
  assumes "tier_step_inv q E H t"
  shows "arena_ok t" "host_ok H t" "agree q E t" "sm_inv (slot_map t)" "0 < sm_capacity (slot_map t)"
    "cs_shape (bsz t) (layer_idx t) (cpu_store t)"
  using assms by (simp_all add: tier_step_inv_def arena_ok_def host_ok_def)

section \<open>Elementary steps\<close>

lemma backup_upd [simp]:
  "backup (t\<lparr>residency := r\<rparr>) = backup t" "backup (t\<lparr>cpu_store := cs\<rparr>) = backup t"
  "backup (t\<lparr>slot_map := m\<rparr>) = backup t" "backup (t\<lparr>stats := st\<rparr>) = backup t"
  "backup (t\<lparr>gpu_k := gk\<rparr>) = backup t" "backup (t\<lparr>gpu_v := gv\<rparr>) = backup t"
  "backup (t\<lparr>summary_store := ss\<rparr>) = backup t" "backup (t\<lparr>trimmed := tr\<rparr>) = backup t"
  "backup (t\<lparr>prev_selected := ps\<rparr>) = backup t" "backup (t\<lparr>active_seqs := act\<rparr>) = backup t"
  by (simp_all add: backup_def)

lemma arena_at_upd [simp]:
  "arena_at (t\<lparr>residency := r\<rparr>) = arena_at t" "arena_at (t\<lparr>cpu_store := cs\<rparr>) = arena_at t"
  "arena_at (t\<lparr>slot_map := m\<rparr>) = arena_at t" "arena_at (t\<lparr>stats := st\<rparr>) = arena_at t"
  "arena_at (t\<lparr>cpu_slots := c\<rparr>) = arena_at t" "arena_at (t\<lparr>host_slots := h\<rparr>) = arena_at t"
  "arena_at (t\<lparr>summary_store := ss\<rparr>) = arena_at t" "arena_at (t\<lparr>trimmed := tr\<rparr>) = arena_at t"
  "arena_at (t\<lparr>prev_selected := ps\<rparr>) = arena_at t" "arena_at (t\<lparr>active_seqs := act\<rparr>) = arena_at t"
  by (simp_all add: arena_at_def fun_eq_iff)

lemma arena_slot_less:
  "arena_ok t \<Longrightarrow> slot_of t k = Some s \<Longrightarrow> s < length (gpu_k t) \<and> s < length (gpu_v t)"
  using sm_inv_slot_less [of "slot_map t" k s] by (simp add: arena_ok_def)

lemma host_slot_less:
  "host_ok H t \<Longrightarrow> map_of (backup t) k = Some c \<Longrightarrow> c < cs_blocks_per_layer (cpu_store t)"
  using map_of_snd_in [of "backup t" k c] unfolding host_ok_def
  by (metis UnCI atLeastLessThan_iff set_append)

lemma host_inj:
  "host_ok H t \<Longrightarrow> map_of (backup t) k = Some c \<Longrightarrow> map_of (backup t) k' = Some c \<Longrightarrow> k = k'"
  by (rule distinct_snd_inj [of "backup t" k c k']) (auto simp: host_ok_def)

text \<open>A residency write for the key in hand.\<close>

lemma residency_write_step:
  assumes "tier_step_inv q E H t" "(q, b) \<in> E"
    and "res_in_range (residency t) (layer_idx t) b"
  shows "tier_step_inv q E H (t\<lparr>residency := res_write (residency t) (layer_idx t) b s\<rparr>)"
    "content (t\<lparr>residency := res_write (residency t) (layer_idx t) b s\<rparr>) = content t"
proof -
  let ?t = "t\<lparr>residency := res_write (residency t) (layer_idx t) b s\<rparr>"
  show "content ?t = content t" by (rule ext) (simp add: content_def split: option.split)
  have "arena_ok ?t" "host_ok H ?t"
    using assms(1) by (simp_all add: tier_step_inv_def arena_ok_def host_ok_def)
  moreover have "agree q E ?t"
  proof -
    have ag: "agree q E t" using assms(1) by (simp add: tier_step_inv_def)
    have ne: "snd k \<noteq> b" if "k \<in> dom (slot_of t) \<union> dom (map_of (backup t))" "k \<notin> E" for k
      using that ag assms(2) unfolding agree_def by (metis prod.collapse)
    show ?thesis
      using ag assms(3) ne unfolding agree_def by (simp add: Ball_def)
  qed
  ultimately show "tier_step_inv q E H ?t" by (simp add: tier_step_inv_def)
qed

text \<open>Writing the arena slot of the key in hand.\<close>

lemma arena_write_step:
  assumes "tier_step_inv q E H t" "k \<in> E" "slot_of t k = Some s"
    and "length kb = bsz t" "length vb = bsz t"
  defines "t' \<equiv> t\<lparr>gpu_k := (gpu_k t)[s := kb], gpu_v := (gpu_v t)[s := vb]\<rparr>"
  shows "tier_step_inv q E H t'" "content t' = (content t)(k \<mapsto> (kb, vb))"
    "arena_at t' s = (kb, vb)"
proof -
  have ar: "arena_ok t" and ag: "agree q E t" and ho: "host_ok H t"
    using assms(1) by (simp_all add: tier_step_inv_def)
  have s: "s < length (gpu_k t)" "s < length (gpu_v t)" using arena_slot_less [OF ar assms(3)] by auto
  have [simp]: "backup t' = backup t" "slot_map t' = slot_map t"
    "host_at t' = host_at t" by (simp_all add: backup_def t'_def)
  have at: "arena_at t' s' = (if s' = s then (kb, vb) else arena_at t s')" for s'
    using s by (simp add: arena_at_def t'_def nth_list_update)
  then show "arena_at t' s = (kb, vb)" by simp
  have inj: "k' = k" if "slot_of t k' = Some s" for k'
    using ar that assms(3) unfolding arena_ok_def by (metis sm_inv_inj)
  show "content t' = (content t)(k \<mapsto> (kb, vb))"
  proof (rule ext)
    fix k'
    have "slot_of t k' \<noteq> Some s" if "k' \<noteq> k" using that inj by blast
    then show "content t' k' = ((content t)(k \<mapsto> (kb, vb))) k'"
      using assms(3) by (auto simp: content_def at split: option.split)
  qed
  have "arena_ok t'"
    using ar assms(4,5) s by (simp add: arena_ok_def t'_def nth_list_update)
  moreover have "host_ok H t'" using ho by (simp add: host_ok_def t'_def)
  moreover have "agree q E t'"
  proof (rule agreeI)
    fix k' s' c
    assume a: "enable_write_through t'" "k' \<notin> E" "slot_of t' k' = Some s'" "map_of (backup t') k' = Some c"
    then have "slot_of t k' = Some s'" by simp
    then have "s' \<noteq> s" using a(2) inj assms(2) by blast
    then show "host_at t' c = arena_at t' s'"
      using a agreeD(5) [OF ag, of k' s' c] by (simp add: at) (simp add: t'_def)
  qed (use agreeD [OF ag] in \<open>simp_all add: t'_def\<close>)
  ultimately show "tier_step_inv q E H t'" by (simp add: tier_step_inv_def)
qed

text \<open>Closing a step: the key in hand is resident and its residency says so.\<close>

lemma close_step:
  assumes "tier_step_inv q {k} H t" "slot_of t k = Some s" "res_of t (snd k) = ON_GPU"
    and "\<And>c. enable_write_through t \<Longrightarrow> map_of (host_slots t) k = Some c \<Longrightarrow>
           host_at t c = arena_at t s"
  shows "tier_step_inv q {} H t"
proof -
  have ag: "agree q {k} t" using assms(1) by (simp add: tier_step_inv_def)
  have "agree q {} t"
  proof (rule agreeI)
    fix k' s' c
    assume a: "enable_write_through t" "slot_of t k' = Some s'" "map_of (backup t) k' = Some c"
    show "host_at t c = arena_at t s'"
      using a agreeD(5) [OF ag, of k' s' c] assms(2,4) by (cases "k' = k") (auto simp: backup_def)
  next
    fix k' s' assume "slot_of t k' = Some s'"
    then show "res_of t (snd k') = ON_GPU" using agreeD(2) [OF ag, of k' s'] assms(3) by (cases "k' = k") auto
  next
    fix k' c assume "map_of (backup t) k' = Some c" "slot_of t k' = None"
    then show "res_of t (snd k') = ON_CPU" using agreeD(3) [OF ag, of k' c] assms(2) by (cases "k' = k") auto
  qed (use agreeD(1,4) [OF ag] in simp_all)
  then show ?thesis using assms(1) by (simp add: tier_step_inv_def)
qed

text \<open>Opening a step only weakens what is asked.\<close>

lemma open_step: "tier_step_inv q {} H t \<Longrightarrow> tier_step_inv q E H t"
  unfolding tier_step_inv_def agree_def by blast

text \<open>Touching a resident key.\<close>

lemma touch_step:
  assumes "tier_step_inv q E H t" "slot_of t k = Some s"
  obtains m where "sm_get (slot_map t) k = Inr (s, m)"
    "tier_step_inv q E H (t\<lparr>slot_map := m\<rparr>)" "content (t\<lparr>slot_map := m\<rparr>) = content t"
    "sm_slot m = slot_of t" "sm_capacity m = sm_capacity (slot_map t)"
    "sm_free_slots m = sm_free_slots (slot_map t)"
    "sm_key_to_slot m = AList.delete k (sm_key_to_slot (slot_map t)) @ [(k, s)]"
proof -
  have "sm_inv (slot_map t)" using assms(1) by (simp add: tier_step_inv_def arena_ok_def)
  from sm_get_ok [OF this assms(2)] obtain m where m: "sm_get (slot_map t) k = Inr (s, m)"
    "sm_inv m" "sm_slot m = slot_of t" "sm_capacity m = sm_capacity (slot_map t)"
    "sm_free_slots m = sm_free_slots (slot_map t)"
    "sm_key_to_slot m = AList.delete k (sm_key_to_slot (slot_map t)) @ [(k, s)]" by metis
  let ?t = "t\<lparr>slot_map := m\<rparr>"
  have "content ?t = content t" by (rule ext) (simp add: content_def m(3) split: option.split)
  moreover have "tier_step_inv q E H ?t"
    using assms(1) m(2-4) by (simp add: tier_step_inv_def arena_ok_def host_ok_def agree_def)
  ultimately show ?thesis using m by (intro that [of m]) simp_all
qed

section \<open>Host slots\<close>

lemma alloc_step:
  assumes "tier_step_inv q E H t" "cpu_free t \<noteq> []"
  obtains c cs where "cs_alloc (cpu_store t) (layer_idx t) = Inr (c, cs)"
    "tier_step_inv q E (c # H) (t\<lparr>cpu_store := cs\<rparr>)" "content (t\<lparr>cpu_store := cs\<rparr>) = content t"
    "cpu_free t = cs_free cs ! layer_idx t @ [c]" "cs_at cs (layer_idx t) = host_at t" "c \<notin> set H"
proof -
  have ho: "host_ok H t" using assms(1) by (simp add: tier_step_inv_def)
  then have "cs_shape (bsz t) (layer_idx t) (cpu_store t)" by (simp add: host_ok_def)
  from cs_alloc_view [OF this assms(2)] obtain c cs where
    c: "cs_alloc (cpu_store t) (layer_idx t) = Inr (c, cs)"
      "cpu_free t = cs_free cs ! layer_idx t @ [c]" "cs_shape (bsz t) (layer_idx t) cs"
      "cs_at cs (layer_idx t) = host_at t"
      "cs_blocks_per_layer cs = cs_blocks_per_layer (cpu_store t)" by metis
  let ?t = "t\<lparr>cpu_store := cs\<rparr>"
  have "content ?t = content t" by (rule ext) (simp add: content_def c(4) split: option.split)
  moreover have "host_ok (c # H) ?t"
    using ho c by (auto simp: host_ok_def)
  then have "tier_step_inv q E (c # H) ?t"
    using assms(1) by (simp add: tier_step_inv_def arena_ok_def agree_def c(4))
  moreover have "c \<notin> set H" using ho c(2) by (auto simp: host_ok_def)
  ultimately show ?thesis using c(1,2,4) by (intro that [of c cs]) simp_all
qed

lemma release_step:
  assumes "tier_step_inv q E (c # H) t"
  obtains cs where "cs_release (cpu_store t) (layer_idx t) c = Inr cs"
    "tier_step_inv q E H (t\<lparr>cpu_store := cs\<rparr>)" "content (t\<lparr>cpu_store := cs\<rparr>) = content t"
    "cs_free cs ! layer_idx t = cpu_free t @ [c]" "cs_at cs (layer_idx t) = host_at t"
proof -
  have ho: "host_ok (c # H) t" using assms(1) by (simp add: tier_step_inv_def)
  then have "cs_shape (bsz t) (layer_idx t) (cpu_store t)" by (simp add: host_ok_def)
  from cs_release_view [OF this, of c] obtain cs where
    c: "cs_release (cpu_store t) (layer_idx t) c = Inr cs"
      "cs_free cs ! layer_idx t = cpu_free t @ [c]" "cs_shape (bsz t) (layer_idx t) cs"
      "cs_at cs (layer_idx t) = host_at t"
      "cs_blocks_per_layer cs = cs_blocks_per_layer (cpu_store t)" by metis
  let ?t = "t\<lparr>cpu_store := cs\<rparr>"
  have "content ?t = content t" by (rule ext) (simp add: content_def c(4) split: option.split)
  moreover have "host_ok H ?t" using ho c by (auto simp: host_ok_def)
  then have "tier_step_inv q E H ?t"
    using assms(1) by (simp add: tier_step_inv_def arena_ok_def agree_def c(4))
  ultimately show ?thesis using c by (intro that [of cs]) simp_all
qed

text \<open>Storing into a host slot in hand changes no content.\<close>

lemma store_step:
  assumes "tier_step_inv q E (c # H) t" "length kb = bsz t" "length vb = bsz t"
  obtains cs where "store_block (cpu_store t) (layer_idx t) c kb vb = Inr cs"
    "tier_step_inv q E (c # H) (t\<lparr>cpu_store := cs\<rparr>)" "content (t\<lparr>cpu_store := cs\<rparr>) = content t"
    "cs_free cs = cs_free (cpu_store t)" "cs_at cs (layer_idx t) = (host_at t)(c := (kb, vb))"
proof -
  have ho: "host_ok (c # H) t" using assms(1) by (simp add: tier_step_inv_def)
  have shape: "cs_shape (bsz t) (layer_idx t) (cpu_store t)" using ho by (simp add: host_ok_def)
  have "c \<in> set (map snd (backup t) @ cpu_free t @ c # H)" by simp
  then have cl: "c < cs_blocks_per_layer (cpu_store t)" using ho unfolding host_ok_def by (metis atLeastLessThan_iff)
  from store_block_view [OF shape cl assms(2,3)] obtain cs where
    c: "store_block (cpu_store t) (layer_idx t) c kb vb = Inr cs"
      "cs_free cs = cs_free (cpu_store t)" "cs_shape (bsz t) (layer_idx t) cs"
      "cs_at cs (layer_idx t) = (host_at t)(c := (kb, vb))"
      "cs_blocks_per_layer cs = cs_blocks_per_layer (cpu_store t)" by metis
  let ?t = "t\<lparr>cpu_store := cs\<rparr>"
  have nc: "map_of (backup t) k \<noteq> Some c" for k
    using ho map_of_snd_in [of "backup t" k c] by (auto simp: host_ok_def)
  then have nh: "enable_write_through t \<Longrightarrow> map_of (host_slots t) k \<noteq> Some c" for k
    by (metis backup_def)
  have "content ?t = content t"
    using nc by (intro ext) (auto simp: content_def c(4) split: option.split intro!: option.map_cong0)
  moreover have "host_ok (c # H) ?t" using ho c by (auto simp: host_ok_def)
  moreover have "agree q E ?t"
    using assms(1) nh unfolding tier_step_inv_def agree_def by (auto simp: c(4))
  ultimately show ?thesis
    using c assms(1) by (intro that [of cs]) (simp_all add: tier_step_inv_def arena_ok_def)
qed

text \<open>The spill of an evicted key is complete: it is backed up and its residency says so.\<close>

lemma close_host_step:
  assumes "tier_step_inv q (insert v E) H t" "v \<in> dom (map_of (backup t))" "slot_of t v = None"
    and "res_of t (snd v) = ON_CPU"
  shows "tier_step_inv q E H t"
proof -
  have ag: "agree q (insert v E) t" using assms(1) by (simp add: tier_step_inv_def)
  have "agree q E t"
  proof (rule agreeI)
    fix k' s' c
    assume a: "enable_write_through t" "k' \<notin> E" "slot_of t k' = Some s'" "map_of (backup t) k' = Some c"
    show "host_at t c = arena_at t s'"
      using a agreeD(5) [OF ag, of k' s' c] assms(3) by (cases "k' = v") auto
  next
    fix k' s' assume "slot_of t k' = Some s'" "k' \<notin> E"
    then show "res_of t (snd k') = ON_GPU" using agreeD(2) [OF ag, of k' s'] assms(3) by (cases "k' = v") auto
  next
    fix k' c assume "map_of (backup t) k' = Some c" "slot_of t k' = None" "k' \<notin> E"
    then show "res_of t (snd k') = ON_CPU" using agreeD(3) [OF ag, of k' c] assms(4) by (cases "k' = v") auto
  qed (use agreeD(1,4) [OF ag] in simp_all)
  then show ?thesis using assms(1) by (simp add: tier_step_inv_def)
qed

text \<open>Recording a host slot in hand for a key that is neither resident nor backed up.\<close>

lemma record_cpu_step:
  assumes "tier_step_inv q E (c # H) t" "\<not> enable_write_through t" "k \<in> E"
    and "slot_of t k = None" "map_of (cpu_slots t) k = None"
    and "fst k = q" "res_in_range (residency t) (layer_idx t) (snd k)"
  defines "t' \<equiv> t\<lparr>cpu_slots := AList.update k c (cpu_slots t)\<rparr>"
  shows "tier_step_inv q E H t'" "content t' = (content t)(k \<mapsto> host_at t c)"
    "map_of (backup t') = (map_of (backup t))(k \<mapsto> c)"
proof -
  have b: "backup t = cpu_slots t" "backup t' = cpu_slots t @ [(k, c)]"
    using assms(2,5) by (simp_all add: backup_def t'_def update_new)
  have wt: "enable_write_through t' = enable_write_through t" by (simp add: t'_def)
  show m: "map_of (backup t') = (map_of (backup t))(k \<mapsto> c)"
    using assms(5) by (auto simp: b map_add_def fun_eq_iff split: option.splits)
  show "content t' = (content t)(k \<mapsto> host_at t c)"
  proof (rule ext)
    fix j
    have "slot_of t' j = slot_of t j" "host_at t' = host_at t" "arena_at t' = arena_at t"
      by (simp_all add: t'_def)
    then show "content t' j = ((content t)(k \<mapsto> host_at t c)) j"
      using assms(4) m by (cases "slot_of t j") (auto simp: content_Some content_None)
  qed
  have "host_ok (c # H) t" using assms(1) by (simp add: tier_step_inv_def)
  moreover have "k \<notin> fst ` set (cpu_slots t)" using assms(5) by (simp add: map_of_eq_None_iff)
  ultimately have "host_ok H t'"
    unfolding host_ok_def wt b using assms(2) by (auto simp: t'_def)
  moreover have "agree q E t'"
    using assms(1,2,3,4,6,7) unfolding tier_step_inv_def agree_def wt m by (auto simp: t'_def)
  moreover have "arena_ok t'"
    using assms(1) by (simp add: tier_step_inv_def arena_ok_def t'_def)
  ultimately show "tier_step_inv q E H t'" by (simp add: tier_step_inv_def)
qed

end
