(* ===== verification/Tier_Steps.thy ===== *)
theory Tier_Steps
  imports Tier_Invariant
begin

text \<open>
  What each internal routine of the tier manager does in the synchronous mode, on every
  state of the invariant: it returns, keeps the invariant, and changes the content of at
  most the key it works on.
\<close>

definition tier_frame :: "('q, 'a) tier \<Rightarrow> ('q, 'a) tier \<Rightarrow> bool" where
  "tier_frame t t' \<longleftrightarrow>
     layer_idx t' = layer_idx t \<and> stream_pool t' = stream_pool t \<and>
     enable_write_through t' = enable_write_through t \<and>
     enable_event_timing t' = enable_event_timing t \<and>
     block_ordering t' = block_ordering t \<and> prev_selected t' = prev_selected t \<and>
     bsz t' = bsz t \<and> sm_capacity (slot_map t') = sm_capacity (slot_map t) \<and>
     trimmed t' = trimmed t \<and>
     res_in_range (residency t') (layer_idx t) = res_in_range (residency t) (layer_idx t)"

lemma tier_frame_refl [simp]: "tier_frame t t"
  by (simp add: tier_frame_def)

lemma tier_frame_trans [trans]: "tier_frame t u \<Longrightarrow> tier_frame u w \<Longrightarrow> tier_frame t w"
  by (simp add: tier_frame_def)

lemma tier_frame_eqs:
  assumes "tier_frame t t'"
  shows "layer_idx t' = layer_idx t" "stream_pool t' = stream_pool t"
    "enable_write_through t' = enable_write_through t"
    "enable_event_timing t' = enable_event_timing t"
    "block_ordering t' = block_ordering t" "prev_selected t' = prev_selected t" "bsz t' = bsz t"
    "sm_capacity (slot_map t') = sm_capacity (slot_map t)" "trimmed t' = trimmed t"
    "res_in_range (residency t') (layer_idx t) = res_in_range (residency t) (layer_idx t)"
  using assms by (auto simp: tier_frame_def)

lemma tier_frame_upd [simp]:
  "tier_frame t (t\<lparr>cpu_store := cs\<rparr>)" "tier_frame t (t\<lparr>cpu_slots := d\<rparr>)"
  "tier_frame t (t\<lparr>host_slots := d\<rparr>)"
  "tier_frame t (t\<lparr>gpu_k := gk, gpu_v := gv\<rparr>)"
  "tier_frame t (t\<lparr>residency := res_write (residency t) (layer_idx t) b s\<rparr>)"
  "sm_capacity m = sm_capacity (slot_map t) \<Longrightarrow> tier_frame t (t\<lparr>slot_map := m\<rparr>)"
  by (simp_all add: tier_frame_def fun_eq_iff)

text \<open>The counters are no part of the invariant.\<close>

lemma stats_step [simp]:
  "tier_frame t (t'\<lparr>stats := st\<rparr>) = tier_frame t t'"
  "tier_step_inv q E H (t\<lparr>stats := st\<rparr>) = tier_step_inv q E H t"
  "content (t\<lparr>stats := st\<rparr>) = content t"
  by (auto simp: tier_frame_def tier_step_inv_def arena_ok_def host_ok_def agree_def content_def
      fun_eq_iff split: option.split)

section \<open>Claiming an arena slot\<close>

lemma slot_map_step:
  assumes inv: "tier_step_inv q {} H t" and new: "slot_of t k = None"
    and nb: "\<not> enable_write_through t \<Longrightarrow> map_of (backup t) k = None"
    and k: "fst k = q" "res_in_range (residency t) (layer_idx t) (snd k)"
    and add: "sm_added (slot_map t) k prot slot ev m"
  defines "t' \<equiv> t\<lparr>slot_map := m\<rparr>"
  shows "tier_step_inv q (insert k (set_option ev)) H t'"
    "\<And>j. j \<noteq> k \<Longrightarrow> ev \<noteq> Some j \<Longrightarrow> content t' j = content t j"
proof -
  note D = tier_step_invD [OF inv] and ag = agreeD [OF tier_step_invD(3) [OF inv]]
  note sl = sm_added_slot [OF D(4) new add] and im = sm_added_inv [OF D(4) new add]
  have v: "slot_of t j = Some slot" if "ev = Some j" for j
    using sm_added_Some(2) [OF D(4) new] add that by blast
  have t': "slot_of t' = sm_slot m" "arena_at t' = arena_at t" "cpu_store t' = cpu_store t"
    "backup t' = backup t" "residency t' = residency t" "layer_idx t' = layer_idx t"
    "enable_write_through t' = enable_write_through t" by (simp_all add: t'_def)
  show "content t' j = content t j" if "j \<noteq> k" "ev \<noteq> Some j" for j
    using that sl [of j] by (cases "slot_of t j") (simp_all add: content_Some content_None t')
  have "arena_ok t'" using D(1) im by (simp add: arena_ok_def t'_def)
  moreover have "host_ok H t'" using D(2) by (simp add: host_ok_def t'_def)
  moreover have "agree q (insert k (set_option ev)) t'"
  proof (rule agreeI)
    fix j assume "j \<in> dom (slot_of t') \<union> dom (map_of (backup t'))"
    then have "j = k \<or> j \<in> dom (slot_of t) \<union> dom (map_of (backup t))"
      using sl [of j] by (auto simp: t' split: if_splits)
    then show "fst j = q \<and> res_in_range (residency t') (layer_idx t') (snd j)"
      using ag(1) [of j] k by (auto simp: t')
  next
    fix j s assume "slot_of t' j = Some s" "j \<notin> insert k (set_option ev)"
    then show "res_of t' (snd j) = ON_GPU" using sl [of j] ag(2) [of j s] by (simp add: t')
  next
    fix j c assume a: "map_of (backup t') j = Some c" "slot_of t' j = None"
      "j \<notin> insert k (set_option ev)"
    then have "slot_of t j = None" using sl [of j] by (simp add: t' split: if_splits)
    then show "res_of t' (snd j) = ON_CPU" using a ag(3) [of j c] by (simp add: t')
  next
    fix j s assume "\<not> enable_write_through t'" "slot_of t' j = Some s"
    then show "map_of (backup t') j = None"
      using sl [of j] nb ag(4) [of j s] by (auto simp: t' split: if_splits)
  next
    fix j s c assume "enable_write_through t'" "j \<notin> insert k (set_option ev)"
      "slot_of t' j = Some s" "map_of (backup t') j = Some c"
    then show "host_at t' c = arena_at t' s" using sl [of j] ag(5) [of j s c] by (simp add: t')
  qed
  ultimately show "tier_step_inv q (insert k (set_option ev)) H t'" by (simp add: tier_step_inv_def)
qed

text \<open>An eviction under write-through: the durable copy is what the key has from now on.\<close>

lemma drop_gpu_slot_ok:
  assumes inv: "tier_step_inv q (insert v E) H t" and wt: "enable_write_through t"
    and v: "slot_of t v = None" "map_of (host_slots t) v = Some c"
    and r: "res_of t (snd v) = ON_GPU"
  shows "\<exists>t'. drop_gpu_slot t (fst v) (snd v) slot = Inr t' \<and> tier_step_inv q E H t' \<and>
    content t' = content t \<and> tier_frame t t' \<and> slot_map t' = slot_map t \<and>
    host_slots t' = host_slots t \<and> cpu_slots t' = cpu_slots t \<and> cpu_store t' = cpu_store t \<and>
    (\<forall>b. b \<noteq> snd v \<longrightarrow> res_of t' b = res_of t b)"
proof -
  have vb: "map_of (backup t) v = Some c" using wt v(2) by (simp add: backup_def)
  have vq: "fst v = q" "res_in_range (residency t) (layer_idx t) (snd v)"
    using agreeD(1) [OF tier_step_invD(3) [OF inv], of v] vb by auto
  let ?r = "res_write (residency t) (layer_idx t) (snd v) ON_CPU"
  have "(q, snd v) \<in> insert v E" using vq(1) by (metis insertI1 prod.collapse)
  note W = residency_write_step [OF inv this vq(2), of ON_CPU]
  have "tier_step_inv q E H (t\<lparr>residency := ?r\<rparr>)"
    using W(1) by (rule close_host_step) (use v vb vq in auto)
  moreover have "drop_gpu_slot t (fst v) (snd v) slot =
      Inr (t\<lparr>residency := ?r, stats := stats t\<lparr>evict_drop := Suc (evict_drop (stats t))\<rparr>\<rparr>)"
    using v(2) vq(2) r by (simp add: drop_gpu_slot_def tm_residency_def od_has_iff)
  ultimately show ?thesis using W(2) vq(2) by simp
qed

text \<open>An eviction under write-back: the arena slot is copied to a fresh host slot.\<close>

lemma store_from_sync:
  "stream_pool t = None \<Longrightarrow> slot < length (gpu_k t) \<Longrightarrow> slot < length (gpu_v t) \<Longrightarrow>
   store_from t c (Arena l slot) =
     chain (store_block (cpu_store t) (layer_idx t) c (fst (arena_at t slot)) (snd (arena_at t slot)))
       (\<lambda>cs. Inr (t\<lparr>cpu_store := cs\<rparr>))"
  by (simp add: store_from_def src_block_def arena_at_def)

lemma spill_to_cpu_ok:
  assumes inv: "tier_step_inv q (insert v E) H t" and wb: "\<not> enable_write_through t"
    and sync: "stream_pool t = None" and v: "slot_of t v = None" "map_of (cpu_slots t) v = None"
    and vq: "fst v = q" "res_in_range (residency t) (layer_idx t) (snd v)"
    and r: "res_of t (snd v) = ON_GPU" and free: "cpu_free t \<noteq> []"
    and slot: "slot < sm_capacity (slot_map t)"
  shows "\<exists>t'. spill_to_cpu t (fst v) (snd v) slot = Inr t' \<and> tier_step_inv q E H t' \<and>
    content t' = (content t)(v \<mapsto> arena_at t slot) \<and> tier_frame t t' \<and> slot_map t' = slot_map t \<and>
    (\<forall>j. j \<noteq> v \<longrightarrow> map_of (backup t') j = map_of (backup t) j) \<and>
    (\<exists>c. cpu_free t = cpu_free t' @ [c]) \<and> (\<forall>c \<in> set H. host_at t' c = host_at t c) \<and>
    (\<forall>b. b \<noteq> snd v \<longrightarrow> res_of t' b = res_of t b)"
proof -
  let ?l = "layer_idx t"
  have gl: "slot < length (gpu_k t)" "slot < length (gpu_v t)"
    and bl: "length (fst (arena_at t slot)) = bsz t" "length (snd (arena_at t slot)) = bsz t"
    using tier_step_invD(1) [OF inv] slot by (simp_all add: arena_ok_def arena_at_def)
  from alloc_step [OF inv free] obtain c cs where c: "cs_alloc (cpu_store t) ?l = Inr (c, cs)"
    "tier_step_inv q (insert v E) (c # H) (t\<lparr>cpu_store := cs\<rparr>)"
    "content (t\<lparr>cpu_store := cs\<rparr>) = content t" "cpu_free t = cs_free cs ! ?l @ [c]"
    "cs_at cs ?l = host_at t" "c \<notin> set H" by blast
  define t1 where "t1 = t\<lparr>cpu_store := cs, residency := res_write (residency t) ?l (snd v) ON_CPU\<rparr>"
  have t1_sel [simp]: "cpu_store t1 = cs" "layer_idx t1 = ?l" "bsz t1 = bsz t"
    "slot_map t1 = slot_map t" "enable_write_through t1 = enable_write_through t"
    "cpu_slots t1 = cpu_slots t" "backup t1 = backup t"
    "residency t1 = res_write (residency t) ?l (snd v) ON_CPU" by (simp_all add: t1_def)
  have "(q, snd v) \<in> insert v E" using vq(1) by (metis insertI1 prod.collapse)
  from residency_write_step [OF c(2) this, of ON_CPU] vq(2) c(3)
  have t1: "tier_step_inv q (insert v E) (c # H) t1" "content t1 = content t" by (simp_all add: t1_def)
  from store_step [OF t1(1), unfolded t1_sel, OF bl] obtain cs' where
    s: "store_block cs ?l c (fst (arena_at t slot)) (snd (arena_at t slot)) = Inr cs'"
      "tier_step_inv q (insert v E) (c # H) (t1\<lparr>cpu_store := cs'\<rparr>)"
      "content (t1\<lparr>cpu_store := cs'\<rparr>) = content t1" "cs_free cs' = cs_free cs"
      "cs_at cs' ?l = (cs_at cs ?l)(c := (fst (arena_at t slot), snd (arena_at t slot)))" by blast
  define t2 where "t2 = t1\<lparr>cpu_store := cs'\<rparr>"
  define t3 where "t3 = t2\<lparr>cpu_slots := AList.update v c (cpu_slots t2)\<rparr>"
  have pre: "\<not> enable_write_through t2" "v \<in> insert v E" "slot_of t2 v = None"
    "map_of (cpu_slots t2) v = None" "fst v = q" "res_in_range (residency t2) (layer_idx t2) (snd v)"
    using wb v vq by (simp_all add: t2_def)
  note R = record_cpu_step [OF s(2) [folded t2_def] pre, folded t3_def]
  have "tier_step_inv q E H t3"
    by (rule close_host_step [OF R(1)]) (use R(3) v vq in \<open>simp_all add: t3_def t2_def\<close>)
  moreover have "content t3 = (content t)(v \<mapsto> arena_at t slot)"
    using R(2) s(3,5) t1(2) by (simp add: t2_def)
  moreover have "tier_frame t t3" by (simp add: tier_frame_def t3_def t2_def t1_def fun_eq_iff)
  moreover have "map_of (backup t3) j = map_of (backup t) j" if "j \<noteq> v" for j
    using R(3) that by (simp add: t2_def)
  moreover have "host_at t3 d = host_at t d" if "d \<in> set H" for d
    using that s(5) c(5,6) by (auto simp: t3_def t2_def)
  moreover obtain st where "spill_to_cpu t (fst v) (snd v) slot = Inr (t3\<lparr>stats := st\<rparr>)"
  proof (rule exE)
    have "t2 = t\<lparr>cpu_store := cs', residency := res_write (residency t) ?l (snd v) ON_CPU\<rparr>"
      by (rule tier.equality) (simp_all add: t2_def t1_def)
    then show "\<exists>st. spill_to_cpu t (fst v) (snd v) slot = Inr (t3\<lparr>stats := st\<rparr>)"
      using c(1) s(1) sync r vq(2) gl unfolding spill_to_cpu_def
      by (auto simp: tm_residency_def store_from_sync Let_def t3_def)
  qed
  moreover have "slot_map t3 = slot_map t" "cpu_free t = cpu_free t3 @ [c]"
    "\<forall>b. b \<noteq> snd v \<longrightarrow> res_of t3 b = res_of t b"
    using c(4) s(4) vq by (simp_all add: t3_def t2_def)
  ultimately show ?thesis by (intro exI [of _ "t3\<lparr>stats := st\<rparr>"] conjI exI [of _ c]) simp_all
qed

text \<open>
  Claiming an arena slot for a new key. What an eviction needs: a free host slot under
  write-back, a durable copy of the victim under write-through.
\<close>

definition may_evict :: "('q, 'a) tier \<Rightarrow> 'q key \<Rightarrow> bool" where
  "may_evict t v \<longleftrightarrow>
     (if enable_write_through t then v \<in> dom (map_of (host_slots t)) else cpu_free t \<noteq> [])"

definition claimed ::
  "'q \<Rightarrow> nat list \<Rightarrow> 'q key \<Rightarrow> 'q key set \<Rightarrow> ('q, 'a) tier \<Rightarrow> nat \<Rightarrow> 'q key option \<Rightarrow> ('q, 'a) tier \<Rightarrow> bool"
where
  "claimed q H k prot t slot ev t' \<longleftrightarrow>
    sm_added (slot_map t) k prot slot ev (slot_map t') \<and>
    tier_step_inv q {k} H t' \<and> (\<forall>j. j \<noteq> k \<longrightarrow> content t' j = content t j) \<and> tier_frame t t' \<and>
    map_of (backup t') k = map_of (backup t) k \<and> res_of t' (snd k) = res_of t (snd k) \<and>
    (\<forall>c \<in> set H. host_at t' c = host_at t c) \<and>
    (if enable_write_through t then host_slots t' = host_slots t \<and> cpu_store t' = cpu_store t
     else \<exists>X. cpu_free t = cpu_free t' @ X \<and> length X = (if ev = None then 0 else 1))"

lemma claim_slot_new:
  assumes inv: "tier_step_inv q {} H t" and sync: "stream_pool t = None"
    and new: "slot_of t k = None"
    and nb: "\<not> enable_write_through t \<Longrightarrow> map_of (backup t) k = None"
    and k: "fst k = q" "res_in_range (residency t) (layer_idx t) (snd k)"
    and room: "\<And>slot v m. sm_added (slot_map t) k prot slot (Some v) m \<Longrightarrow> may_evict t v"
  shows "\<exists>slot ev t'. claim_slot t k prot = Inr (slot, t') \<and> claimed q H k prot t slot ev t'"
proof -
  note D = tier_step_invD [OF inv]
  from sm_add_new [OF D(4,5) new] obtain slot ev m where
    m: "sm_add (slot_map t) k prot = Inr (slot, ev, m)" "sm_added (slot_map t) k prot slot ev m"
    by blast
  note im = sm_added_inv [OF D(4) new m(2)] and sl = sm_added_slot [OF D(4) new m(2)]
  define t1 where "t1 = t\<lparr>slot_map := m\<rparr>"
  have t1_sel [simp]: "slot_map t1 = m" "backup t1 = backup t" "residency t1 = residency t"
    "layer_idx t1 = layer_idx t" "cpu_store t1 = cpu_store t" "host_slots t1 = host_slots t"
    "cpu_slots t1 = cpu_slots t" "enable_write_through t1 = enable_write_through t"
    "stream_pool t1 = stream_pool t" "arena_at t1 = arena_at t"
    by (simp_all add: t1_def)
  note S = slot_map_step [OF inv new nb k m(2), folded t1_def]
  have fr: "tier_frame t t1" using im(2) by (simp add: t1_def)
  show ?thesis
  proof (cases ev)
    case None
    then have "claim_slot t k prot = Inr (slot, t1)" using m(1) by (simp add: claim_slot_def t1_def)
    then show ?thesis
      using None S m(2) fr by (auto simp: claimed_def)
  next
    case (Some v)
    have v: "slot_of t v = Some slot" "v \<noteq> k"
      using sm_added_Some(2,3) [OF D(4) new] m(2) Some by blast+
    have vq: "fst v = q" "res_in_range (residency t) (layer_idx t) (snd v)" "res_of t (snd v) = ON_GPU"
      using agreeD(1,2) [OF D(3), of v] v(1) by auto
    have me: "may_evict t v" using room m(2) Some by blast
    have v1: "slot_of t1 v = None" using sl [of v] v(2) Some by simp
    have sk: "snd k \<noteq> snd v" using v(2) vq(1) k(1) by (metis prod_eqI)
    have cl: "claim_slot t k prot = chain (spill_hook t1 v slot) (\<lambda>t. Inr (slot, t))"
      using m(1) Some by (simp add: claim_slot_def t1_def)
    have S1: "tier_step_inv q (insert v {k}) H t1" using S(1) Some by (simp add: insert_commute)
    have cv: "content t v = Some (arena_at t slot)" using v(1) by (rule content_Some)
    show ?thesis
    proof (cases "enable_write_through t")
      case wt: True
      then obtain c where c: "map_of (host_slots t) v = Some c" using me by (auto simp: may_evict_def)
      have "content t1 v = content t v"
        using c cv v1 wt v(1) agreeD(5) [OF D(3) wt, of v slot c] by (simp add: content_None backup_def)
      then have "\<forall>j. j \<noteq> k \<longrightarrow> content t1 j = content t j" using S(2) Some by (metis option.inject)
      moreover from wt v1 c vq(3) drop_gpu_slot_ok [OF S1, of c slot] obtain t2 where
        t2: "spill_hook t1 v slot = Inr t2" "tier_step_inv q {k} H t2" "content t2 = content t1"
          "tier_frame t1 t2" "slot_map t2 = m" "host_slots t2 = host_slots t"
          "cpu_store t2 = cpu_store t" "\<forall>b. b \<noteq> snd v \<longrightarrow> res_of t2 b = res_of t1 b"
        by (auto simp: spill_hook_def)
      moreover have "backup t2 = backup t" "layer_idx t2 = layer_idx t"
        using wt t2(6) tier_frame_eqs(1,3) [OF t2(4)] by (simp_all add: backup_def)
      moreover have "tier_frame t t2" using fr t2(4) by (rule tier_frame_trans)
      ultimately show ?thesis
        using m(2) Some sk wt cl unfolding claimed_def by (metis chain_Inr t1_sel(3,4))
    next
      case wb: False
      have "map_of (cpu_slots t1) v = None" "cpu_free t1 \<noteq> []" "slot < sm_capacity (slot_map t1)"
        using wb me v(1) agreeD(4) [OF D(3) wb v(1)] im by (simp_all add: may_evict_def backup_def)
      with wb v1 vq sync spill_to_cpu_ok [OF S1, of slot] obtain t2 where
        t2: "spill_hook t1 v slot = Inr t2" "tier_step_inv q {k} H t2"
          "content t2 = (content t1)(v \<mapsto> arena_at t slot)" "tier_frame t1 t2" "slot_map t2 = m"
          "\<forall>j. j \<noteq> v \<longrightarrow> map_of (backup t2) j = map_of (backup t) j"
          "\<exists>c. cpu_free t = cpu_free t2 @ [c]" "\<forall>c \<in> set H. host_at t2 c = host_at t c"
          "\<forall>b. b \<noteq> snd v \<longrightarrow> res_of t2 b = res_of t1 b"
        by (auto simp: spill_hook_def)
      have "\<forall>j. j \<noteq> k \<longrightarrow> content t2 j = content t j"
        using S(2) Some cv t2(3) by (metis fun_upd_apply option.inject)
      moreover have "tier_frame t t2" using fr t2(4) by (rule tier_frame_trans)
      moreover have "layer_idx t2 = layer_idx t" using tier_frame_eqs(1) [OF t2(4)] by simp
      moreover have "map_of (backup t2) k = map_of (backup t) k" using t2(6) v(2) by metis
      moreover obtain c where "cpu_free t = cpu_free t2 @ [c]" using t2(7) by blast
      ultimately have "claimed q H k prot t slot ev t2"
        using t2(2,5,8,9) m(2) Some sk wb unfolding claimed_def by auto
      with cl t2(1) show ?thesis by auto
    qed
  qed
qed

text \<open>Claiming a slot for a resident key touches it.\<close>

lemma claim_slot_old:
  assumes inv: "tier_step_inv q E H t" and old: "slot_of t k = Some s"
  obtains m where "claim_slot t k prot = Inr (s, t\<lparr>slot_map := m\<rparr>)"
    "tier_step_inv q E H (t\<lparr>slot_map := m\<rparr>)" "content (t\<lparr>slot_map := m\<rparr>) = content t"
    "sm_slot m = slot_of t" "sm_capacity m = sm_capacity (slot_map t)"
    "sm_free_slots m = sm_free_slots (slot_map t)"
    "sm_key_to_slot m = AList.delete k (sm_key_to_slot (slot_map t)) @ [(k, s)]"
proof -
  from touch_step [OF inv old] obtain m where m: "sm_get (slot_map t) k = Inr (s, m)"
    "tier_step_inv q E H (t\<lparr>slot_map := m\<rparr>)" "content (t\<lparr>slot_map := m\<rparr>) = content t"
    "sm_slot m = slot_of t" "sm_capacity m = sm_capacity (slot_map t)"
    "sm_free_slots m = sm_free_slots (slot_map t)"
    "sm_key_to_slot m = AList.delete k (sm_key_to_slot (slot_map t)) @ [(k, s)]" by blast
  have "claim_slot t k prot = Inr (s, t\<lparr>slot_map := m\<rparr>)"
    using m(1) old by (auto simp: claim_slot_def sm_add_def sm_contains_iff)
  from this m(2-) show ?thesis by (rule that)
qed

section \<open>Loading a block back\<close>

text \<open>Taking the host slot of a missing block out of the dictionary (write-back).\<close>

lemma take_backup_step:
  assumes inv: "tier_step_inv q E [] t" and wb: "\<not> enable_write_through t"
    and new: "slot_of t k = None" and c: "map_of (backup t) k = Some c"
  defines "t' \<equiv> t\<lparr>cpu_slots := AList.delete k (cpu_slots t)\<rparr>"
  shows "take_backup t k = Inr (c, t')" "tier_step_inv q E [c] t'" "content t' = (content t)(k := None)"
    "map_of (backup t') = (map_of (backup t))(k := None)"
proof -
  note D = tier_step_invD [OF inv]
  have b: "backup t = cpu_slots t" "backup t' = AList.delete k (cpu_slots t)"
    using wb by (simp_all add: backup_def t'_def)
  show "take_backup t k = Inr (c, t')" using wb c by (simp add: take_backup_def b t'_def)
  show m: "map_of (backup t') = (map_of (backup t))(k := None)" by (simp add: b od_simps)
  have t': "slot_of t' = slot_of t" "arena_at t' = arena_at t" "cpu_store t' = cpu_store t"
    "layer_idx t' = layer_idx t" "residency t' = residency t" "gpu_k t' = gpu_k t"
    "gpu_v t' = gpu_v t" "slot_map t' = slot_map t" "summary_store t' = summary_store t"
    "enable_write_through t' = enable_write_through t" "host_slots t' = host_slots t"
    by (simp_all add: t'_def)
  show "content t' = (content t)(k := None)"
  proof (rule ext)
    fix j show "content t' j = ((content t)(k := None)) j"
      using new m t'(1-4) by (cases "slot_of t j") (auto simp: content_Some content_None)
  qed
  have d: "distinct (map fst (cpu_slots t))" using D(2) by (simp add: host_ok_def b)
  from od_split [OF d] c obtain A B where AB: "cpu_slots t = A @ (k, c) # B"
    "AList.delete k (cpu_slots t) = A @ B" by (metis b(1))
  have "backup t = A @ (k, c) # B" "backup t' = A @ B" by (simp_all add: b AB(2)) (simp add: AB(1))
  moreover have "enable_write_through t' \<longrightarrow> cpu_slots t' = []" using wb by (simp add: t')
  ultimately have "host_ok [c] t'" using D(2) wb by (auto simp: host_ok_def t')
  moreover have "agree q E t'"
    by (rule agreeI) (use agreeD [OF D(3)] m in \<open>auto simp: t' split: if_splits\<close>)
  moreover have "arena_ok t'" using D(1) by (simp add: arena_ok_def t')
  ultimately show "tier_step_inv q E [c] t'" by (simp add: tier_step_inv_def)
qed

text \<open>The copy of a host slot into the arena slot of the key in hand.\<close>

lemma load_into_step:
  assumes inv: "tier_step_inv q E H t" and k: "k \<in> E" "slot_of t k = Some s"
    and c: "c < cs_blocks_per_layer (cpu_store t)"
  shows "\<exists>t'. load_into t c s = Inr t' \<and> tier_step_inv q E H t' \<and>
    content t' = (content t)(k \<mapsto> host_at t c) \<and> arena_at t' s = host_at t c \<and>
    tier_frame t t' \<and> slot_map t' = slot_map t \<and> backup t' = backup t \<and> residency t' = residency t \<and>
    host_slots t' = host_slots t \<and> cpu_slots t' = cpu_slots t \<and>
    host_at t' = host_at t \<and> cpu_free t' = cpu_free t"
proof -
  note D = tier_step_invD [OF inv]
  obtain kb vb where kv: "host_at t c = (kb, vb)" by force
  have l: "length kb = bsz t" "length vb = bsz t" using cs_at_length [OF D(6) c] kv by auto
  have s: "s < length (gpu_k t)" "s < length (gpu_v t)" using arena_slot_less [OF D(1) k(2)] by auto
  then have sl: "length (gpu_k t ! s) = bsz t" "length (gpu_v t ! s) = bsz t"
    using D(1) by (simp_all add: arena_ok_def)
  define u where "u = t\<lparr>gpu_k := (gpu_k t)[s := kb], gpu_v := (gpu_v t)[s := vb]\<rparr>"
  note W = arena_write_step [OF inv k l, folded u_def]
  define t' where "t' = u\<lparr>cpu_store := count_load (cpu_store t)\<rparr>"
  have t': "slot_map t' = slot_map u" "backup t' = backup u" "arena_at t' = arena_at u"
    "residency t' = residency u" "layer_idx t' = layer_idx u"
    "cs_at (cpu_store t') = cs_at (cpu_store u)"
    by (simp_all add: t'_def u_def)
  have "load_into t c s = Inr t'"
    using load_block_view [OF D(6) c sl] s kv by (simp add: load_into_def t'_def u_def)
  moreover have "content t' = content u" by (rule ext) (simp add: content_def t' split: option.split)
  moreover have "tier_step_inv q E H t'"
    using W(1) by (simp add: tier_step_inv_def arena_ok_def host_ok_def agree_def t'_def u_def)
  moreover have "tier_frame t t'" by (simp add: tier_frame_def t'_def u_def)
  ultimately show ?thesis
    using W(2,3) kv by (intro exI [of _ t'] conjI) (simp_all add: t'_def u_def)
qed

end
