(* ===== verification/Tier_Example.thy ===== *)
theory Tier_Example
  imports Tier_Invariant
begin

text \<open>
  Concrete tier managers for the witnesses: one layer, blocks of one token, an arena of two
  slots, a host pool of three, and the sequence 7. \<open>ex_new\<close> is what the constructors
  return, \<open>ex_tier\<close> what \<open>trim_to_working_set\<close> makes of it for a prompt of three blocks.
\<close>

definition ex_new :: "block_ordering \<Rightarrow> bool \<Rightarrow> (nat, int) tier" where
  "ex_new bord write_through =
     \<lparr>layer_idx = 0, gpu_budget = 2, gpu_k = [[0], [0]], gpu_v = [[0], [0]],
      summary_store = \<lparr>ss_num_layers = 1, ss_max_blocks = 4, ss_block_size = 1,
        ss_digest_mode = ''quest_minmax'', ss_summary = [[(0, 0), (0, 0), (0, 0), (0, 0)]]\<rparr>,
      residency = res_init 1 4,
      cpu_store = \<lparr>cs_k = [[[0], [0], [0]]], cs_v = [[[0], [0], [0]]], cs_num_layers = 1,
        cs_blocks_per_layer = 3, cs_free = [[2, 1, 0]],
        cs_stats = \<lparr>alloc_count = 0, free_count = 0, store_calls = 0, load_calls = 0\<rparr>\<rparr>,
      stream_pool = None, enable_event_timing = False, enable_overlap_capture = False,
      enable_write_through = write_through, block_ordering = bord, prefetch_touch = False,
      active_seqs = None, slot_map = sm_init 2, cpu_slots = [], host_slots = [],
      prev_selected = Map.empty, stats = quest_stats_init, selected_log = [], trimmed = {}\<rparr>"

definition ex_kv :: "(int list \<times> int list) list" where
  "ex_kv = [([10], [11]), ([20], [21]), ([30], [31])]"

definition ex_tier :: "block_ordering \<Rightarrow> (nat, int) tier" where
  "ex_tier bord = (ex_new bord False)
     \<lparr>gpu_k := [[30], [0]], gpu_v := [[31], [0]],
      residency := \<lparr>res_num_layers = 1, res_max_blocks = 4,
        res_states = [[ON_CPU, ON_CPU, ON_GPU, ON_GPU]]\<rparr>,
      cpu_store := \<lparr>cs_k = [[[10], [20], [0]]], cs_v = [[[11], [21], [0]]], cs_num_layers = 1,
        cs_blocks_per_layer = 3, cs_free = [[2]],
        cs_stats = \<lparr>alloc_count = 2, free_count = 0, store_calls = 2, load_calls = 0\<rparr>\<rparr>,
      slot_map := \<lparr>sm_capacity = 2, sm_key_to_slot = [((7, 2), 0)], sm_free_slots = [1]\<rparr>,
      cpu_slots := [((7, 0), 0), ((7, 1), 1)],
      stats := quest_stats_init\<lparr>evict_d2h := 2\<rparr>, trimmed := {7}\<rparr>"

lemma ex_new_built:
  "chain (ss_init 1 4 1 ''quest_minmax'' 0) (\<lambda>ss.
   chain (cs_init 1 3 [[[0], [0], [0]]] [[[0], [0], [0]]]) (\<lambda>cs.
   tm_init 0 2 [[0], [0]] [[0], [0]] ss (res_init 1 4) cs None False False False wt bord False)) =
   Inr (ex_new bord wt)"
  by (simp add: ss_init_def cs_init_def tm_init_def ex_new_def upt_conv_Cons numeral_eq_Suc)

text \<open>The definitions that an evaluation of the tier manager unfolds.\<close>

lemmas store_eval = cs_alloc_def cs_release_def store_block_def cs_put_def load_block_def cs_fetch_def
  count_store_def count_load_def copy_rows_def

lemmas slot_map_eval = sm_init_def sm_contains_def od_has_def od_keys_def sm_get_def sm_add_def
  sm_victim_def sm_free_def od_move_to_end_def

lemmas residency_eval = tm_residency_def res_init_def res_state_def res_write_def mark_on_gpu_def
  begin_evict_def complete_evict_def begin_load_def complete_load_def

lemmas tier_eval = claim_slot_def claim_free_slot_def write_arena_def src_block_def store_from_def
  mirror_to_host_def drop_gpu_slot_def spill_to_cpu_def spill_hook_def offload_block_def
  protected_keys_def take_backup_def load_into_def ensure_one_def ensure_one_sync_def
  touch_one_def touch_resident_def ensure_resident_def

lemmas py_eval = py_nth_def py_index_def guard_def Let_def upt_conv_Cons numeral_eq_Suc

lemmas evaluate = store_eval slot_map_eval residency_eval tier_eval py_eval

lemma ex_trimmed:
  "trim_to_working_set (ex_new bord False) 7 3 ex_kv [0, 1, 2] = Inr (ex_tier bord)"
  by (simp add: trim_to_working_set_def trim_block_def keep_n_def ex_new_def ex_tier_def ex_kv_def
      quest_stats_init_def evaluate)

lemmas ex_simps =
  tier_inv_def tier_step_inv_def arena_ok_def host_ok_def agree_def backup_def arena_at_def
  sm_inv_def cs_shape_def cs_at_def res_at_def res_in_range_def

lemma ex_tier_inv: "tier_inv 7 (ex_tier bord)"
  by (auto simp: ex_simps ex_tier_def ex_new_def less_Suc_eq numeral_eq_Suc nth_Cons' atLeast0_lessThan_Suc)

lemma ex_new_inv: "tier_inv q (ex_new bord wt)"
  by (auto simp: ex_simps ex_new_def sm_init_def res_init_def less_Suc_eq numeral_eq_Suc nth_Cons'
      atLeast0_lessThan_Suc)

end
