(* ===== verification/Tier_Fill.thy ===== *)
theory Tier_Fill
  imports Tier_Steps Tier_Example
begin

text \<open>
  Writing blocks into the tier: filled blocks, the live block, the two prefill paths and the
  single-token append, in the synchronous mode. Each is an update of the content at one key.
\<close>

section \<open>Arena writes\<close>

lemma write_arena_ok:
  assumes "arena_ok t" "slot_of t k = Some s" "length kb = bsz t" "length vb = bsz t"
  shows "write_arena t s kb vb = Inr (t\<lparr>gpu_k := (gpu_k t)[s := kb], gpu_v := (gpu_v t)[s := vb]\<rparr>)"
  using arena_slot_less [OF assms(1,2)] assms by (simp add: write_arena_def arena_ok_def)

text \<open>Writing the claimed slot and marking the block resident closes the step.\<close>

lemma write_mark_step:
  assumes inv: "tier_step_inv q {(q, b)} H t" and k: "slot_of t (q, b) = Some s"
    and nb: "map_of (backup t) (q, b) = None" and l: "length kb = bsz t" "length vb = bsz t"
  defines "u \<equiv> t\<lparr>gpu_k := (gpu_k t)[s := kb], gpu_v := (gpu_v t)[s := vb]\<rparr>"
  shows "\<exists>t'. tm_residency mark_on_gpu u b = Inr t' \<and> tier_step_inv q {} H t' \<and>
    content t' = (content t)((q, b) \<mapsto> (kb, vb)) \<and> tier_frame t t' \<and> slot_map t' = slot_map t \<and>
    backup t' = backup t \<and> host_slots t' = host_slots t \<and> cpu_store t' = cpu_store t \<and>
    summary_store t' = summary_store t \<and> arena_at t' s = (kb, vb) \<and> stats t' = stats t \<and>
    (\<forall>j. j \<noteq> b \<longrightarrow> res_of t' j = res_of t j)"
proof -
  note W = arena_write_step [OF inv insertI1 k l, folded u_def]
  have u: "layer_idx u = layer_idx t" "residency u = residency t" "slot_map u = slot_map t"
    "backup u = backup t" "host_slots u = host_slots t" "cpu_store u = cpu_store t"
    "summary_store u = summary_store t" "stats u = stats t"
    "enable_write_through u = enable_write_through t" by (simp_all add: u_def backup_def)
  have rg: "res_in_range (residency u) (layer_idx u) b"
    using agreeD(1) [OF tier_step_invD(3) [OF inv], of "(q, b)"] k u by auto
  let ?t = "u\<lparr>residency := res_write (residency u) (layer_idx u) b ON_GPU\<rparr>"
  note R = residency_write_step [OF W(1) insertI1 rg, of ON_GPU]
  have "tier_step_inv q {} H ?t"
    using R(1) by (rule close_step) (use k nb rg u in \<open>simp_all add: backup_def\<close>)
  moreover have "tier_frame t ?t" by (simp add: tier_frame_def u_def fun_eq_iff)
  moreover have "\<forall>j. j \<noteq> b \<longrightarrow> res_of ?t j = res_of t j" using rg u by simp
  ultimately show ?thesis
    using R(2) W(2,3) rg u by (intro exI [of _ ?t]) (simp add: tm_residency_def)
qed

text \<open>
  The claim of a slot, resident or new, for a key without a backup: the common prefix of
  \<open>on_block_filled\<close>, \<open>write_live_block\<close> and \<open>append_decode_token_kvshare\<close>.
\<close>

lemma claim_slot_any:
  assumes inv: "tier_inv q t" and sync: "stream_pool t = None"
    and nb: "map_of (backup t) (q, b) = None"
    and rg: "res_in_range (residency t) (layer_idx t) b"
    and room: "\<forall>slot v m. slot_of t (q, b) = None \<longrightarrow>
      sm_added (slot_map t) (q, b) {} slot (Some v) m \<longrightarrow> may_evict t v"
  shows "\<exists>slot t'. claim_slot t (q, b) {} = Inr (slot, t') \<and> tier_step_inv q {(q, b)} [] t' \<and>
    (\<forall>j. j \<noteq> (q, b) \<longrightarrow> content t' j = content t j) \<and> tier_frame t t' \<and>
    slot_of t' (q, b) = Some slot \<and> map_of (backup t') (q, b) = None \<and>
    (slot_of t (q, b) \<noteq> None \<longrightarrow> content t' = content t) \<and>
    (enable_write_through t \<longrightarrow> host_slots t' = host_slots t \<and> cpu_store t' = cpu_store t)"
proof (cases "slot_of t (q, b)")
  case (Some s)
  from claim_slot_old [OF inv [unfolded tier_inv_def] Some, of "{}"] obtain m where
    m: "claim_slot t (q, b) {} = Inr (s, t\<lparr>slot_map := m\<rparr>)" "tier_step_inv q {} [] (t\<lparr>slot_map := m\<rparr>)"
      "content (t\<lparr>slot_map := m\<rparr>) = content t" "sm_slot m = slot_of t"
      "sm_capacity m = sm_capacity (slot_map t)" by blast
  then show ?thesis using Some nb open_step [OF m(2)] by simp
next
  case None
  have "\<exists>slot ev t'. claim_slot t (q, b) {} = Inr (slot, t') \<and> claimed q [] (q, b) {} t slot ev t'"
    using inv [unfolded tier_inv_def] sync None rg room nb by (intro claim_slot_new) auto
  then obtain slot ev t' where c: "claim_slot t (q, b) {} = Inr (slot, t')" "claimed q [] (q, b) {} t slot ev t'"
    by blast
  then have "sm_added (slot_map t) (q, b) {} slot ev (slot_map t')" by (simp add: claimed_def)
  from sm_added_inv(4) [OF tier_step_invD(4) [OF inv [unfolded tier_inv_def]] None this] c show ?thesis using None nb by (simp add: claimed_def)
qed

section \<open>Host copies of new blocks\<close>

text \<open>Recording a host slot in hand as the durable copy of a key.\<close>

lemma record_host_step:
  assumes inv: "tier_step_inv q E (c # H) t" and wt: "enable_write_through t"
    and nb: "map_of (host_slots t) k = None"
    and k: "fst k = q" "res_in_range (residency t) (layer_idx t) (snd k)"
    and E: "slot_of t k = None \<Longrightarrow> k \<in> E" "\<And>s. slot_of t k = Some s \<Longrightarrow> host_at t c = arena_at t s"
  defines "t' \<equiv> t\<lparr>host_slots := AList.update k c (host_slots t)\<rparr>"
  shows "tier_step_inv q E H t'"
    "content t' = (if slot_of t k = None then (content t)(k \<mapsto> host_at t c) else content t)"
    "map_of (backup t') = (map_of (backup t))(k \<mapsto> c)"
proof -
  note D = tier_step_invD [OF inv] and ag = agreeD [OF tier_step_invD(3) [OF inv]]
  have b: "backup t = host_slots t" "backup t' = host_slots t @ [(k, c)]"
    using wt nb by (simp_all add: backup_def t'_def update_new)
  have t': "slot_of t' = slot_of t" "arena_at t' = arena_at t" "cpu_store t' = cpu_store t"
    "layer_idx t' = layer_idx t" "residency t' = residency t" "cpu_slots t' = cpu_slots t"
    "enable_write_through t' = enable_write_through t" "summary_store t' = summary_store t"
    by (simp_all add: t'_def)
  show m: "map_of (backup t') = (map_of (backup t))(k \<mapsto> c)"
    using nb by (auto simp: b map_add_def fun_eq_iff split: option.splits)
  show "content t' = (if slot_of t k = None then (content t)(k \<mapsto> host_at t c) else content t)"
  proof (rule ext)
    fix j show "content t' j = (if slot_of t k = None then (content t)(k \<mapsto> host_at t c) else content t) j"
      using m t'(1-4) by (cases "slot_of t j") (auto simp: content_Some content_None)
  qed
  have "k \<notin> fst ` set (host_slots t)" using nb by (simp add: map_of_eq_None_iff)
  then have "host_ok H t'" using D(2) wt unfolding host_ok_def b t' by auto
  moreover have "arena_ok t'" using D(1) by (simp add: arena_ok_def t'_def)
  moreover have "agree q E t'"
  proof (rule agreeI)
    fix j s d assume "enable_write_through t'" "j \<notin> E" "slot_of t' j = Some s" "map_of (backup t') j = Some d"
    then show "host_at t' d = arena_at t' s"
      using E(2) [of s] ag(5) [OF wt, of j s d] m by (cases "j = k") (simp_all add: t')
  next
    fix j assume "j \<in> dom (slot_of t') \<union> dom (map_of (backup t'))"
    then show "fst j = q \<and> res_in_range (residency t') (layer_idx t') (snd j)"
      using ag(1) [of j] k m by (cases "j = k") (auto simp: t')
  next
    fix j s assume "slot_of t' j = Some s" "j \<notin> E"
    then show "res_of t' (snd j) = ON_GPU" using ag(2) [of j s] by (simp add: t')
  next
    fix j d assume "map_of (backup t') j = Some d" "slot_of t' j = None" "j \<notin> E"
    then show "res_of t' (snd j) = ON_CPU" using ag(3) [of j d] m E(1) by (cases "j = k") (auto simp: t')
  qed (use wt t' in simp)
  ultimately show "tier_step_inv q E H t'" by (simp add: tier_step_inv_def)
qed

text \<open>A fresh host slot filled with a block, held in hand.\<close>

lemma alloc_store_step:
  assumes inv: "tier_step_inv q E H t" and free: "cpu_free t \<noteq> []"
    and l: "length kb = bsz t" "length vb = bsz t"
  obtains c cs cs' where "cs_alloc (cpu_store t) (layer_idx t) = Inr (c, cs)"
    "store_block cs (layer_idx t) c kb vb = Inr cs'"
    "tier_step_inv q E (c # H) (t\<lparr>cpu_store := cs'\<rparr>)" "content (t\<lparr>cpu_store := cs'\<rparr>) = content t"
    "cpu_free t = cs_free cs' ! layer_idx t @ [c]" "cs_at cs' (layer_idx t) c = (kb, vb)"
proof -
  from alloc_step [OF inv free] obtain c cs where c: "cs_alloc (cpu_store t) (layer_idx t) = Inr (c, cs)"
    "tier_step_inv q E (c # H) (t\<lparr>cpu_store := cs\<rparr>)" "content (t\<lparr>cpu_store := cs\<rparr>) = content t"
    "cpu_free t = cs_free cs ! layer_idx t @ [c]" by blast
  define u where "u = t\<lparr>cpu_store := cs\<rparr>"
  have u: "cpu_store u = cs" "layer_idx u = layer_idx t" "bsz u = bsz t"
    "u\<lparr>cpu_store := x\<rparr> = t\<lparr>cpu_store := x\<rparr>" for x by (simp_all add: u_def)
  from store_step [OF c(2) [folded u_def], unfolded u, OF l] obtain cs' where
    s: "store_block cs (layer_idx t) c kb vb = Inr cs'"
      "tier_step_inv q E (c # H) (t\<lparr>cpu_store := cs'\<rparr>)" "content (t\<lparr>cpu_store := cs'\<rparr>) = content u"
      "cs_free cs' = cs_free cs" "cs_at cs' (layer_idx t) = (cs_at cs (layer_idx t))(c := (kb, vb))" by blast
  show ?thesis
    by (rule that [OF c(1) s(1,2)]) (use c(3,4) s(3-5) in \<open>simp_all add: u_def\<close>)
qed

lemma mirror_step:
  assumes inv: "tier_step_inv q E [] t" and wt: "enable_write_through t" and sync: "stream_pool t = None"
    and nb: "map_of (host_slots t) (q, b) = None" and rg: "res_in_range (residency t) (layer_idx t) b"
    and E: "slot_of t (q, b) = None \<Longrightarrow> (q, b) \<in> E"
      "\<And>s. slot_of t (q, b) = Some s \<Longrightarrow> arena_at t s = (kb, vb)"
    and src: "src_block t src = Inr (kb, vb)" and l: "length kb = bsz t" "length vb = bsz t"
    and free: "cpu_free t \<noteq> []"
  shows "\<exists>t' c. mirror_to_host t q b src = Inr t' \<and> tier_step_inv q E [] t' \<and>
    content t' = (if slot_of t (q, b) = None then (content t)((q, b) \<mapsto> (kb, vb)) else content t) \<and>
    tier_frame t t' \<and> slot_map t' = slot_map t \<and> residency t' = residency t \<and>
    map_of (backup t') = (map_of (backup t))((q, b) \<mapsto> c) \<and> cpu_free t = cpu_free t' @ [c] \<and>
    summary_store t' = summary_store t"
proof -
  from alloc_store_step [OF inv free l] obtain c cs cs' where
    c: "cs_alloc (cpu_store t) (layer_idx t) = Inr (c, cs)" "store_block cs (layer_idx t) c kb vb = Inr cs'"
      "tier_step_inv q E [c] (t\<lparr>cpu_store := cs'\<rparr>)" "content (t\<lparr>cpu_store := cs'\<rparr>) = content t"
      "cpu_free t = cs_free cs' ! layer_idx t @ [c]" "cs_at cs' (layer_idx t) c = (kb, vb)" by blast
  define u where "u = t\<lparr>cpu_store := cs'\<rparr>"
  define t' where "t' = u\<lparr>host_slots := AList.update (q, b) c (host_slots u)\<rparr>"
  have u: "enable_write_through u" "host_slots u = host_slots t" "residency u = residency t"
    "layer_idx u = layer_idx t" "slot_map u = slot_map t" "host_at u c = (kb, vb)"
    "arena_at u = arena_at t" "backup u = backup t" "cpu_store u = cs'" "tier_frame t u"
    using wt c(6) by (simp_all add: u_def)
  have pre: "enable_write_through u" "map_of (host_slots u) (q, b) = None" "fst (q, b) = q"
    "res_in_range (residency u) (layer_idx u) (snd (q, b))" "slot_of u (q, b) = None \<Longrightarrow> (q, b) \<in> E"
    "\<And>s. slot_of u (q, b) = Some s \<Longrightarrow> host_at u c = arena_at u s"
    using u nb rg E by simp_all
  note R = record_host_step [OF c(3) [folded u_def] pre, folded t'_def]
  have "mirror_to_host t q b src = Inr t'"
    using nb c(1,2) sync src
    by (simp add: mirror_to_host_def od_has_iff store_from_def src_block_def t'_def u_def
        split: block_src.splits)
  moreover have "tier_frame t t'" using u(10) by (rule tier_frame_trans) (simp add: t'_def)
  moreover have "content u = content t" using c(4) by (simp add: u_def)
  then have "content t' = (if slot_of t (q, b) = None then (content t)((q, b) \<mapsto> (kb, vb)) else content t)"
    using R(2) u(5,6) by presburger
  moreover have "map_of (backup t') = (map_of (backup t))((q, b) \<mapsto> c)" using R(3) u(8) by simp
  moreover have "slot_map t' = slot_map t" "residency t' = residency t" "cpu_free t = cpu_free t' @ [c]"
    "summary_store t' = summary_store t" using c(5) by (simp_all add: t'_def u_def)
  ultimately show ?thesis using R(1) by blast
qed

text \<open>The two residency writes of an eviction.\<close>

lemma evict_mark_step:
  assumes inv: "tier_step_inv q {(q, b)} [] t" and new: "slot_of t (q, b) = None"
    and bk: "map_of (backup t) (q, b) = Some c" and r: "res_of t b = ON_GPU"
  defines "t' \<equiv> t\<lparr>residency := res_write (residency t) (layer_idx t) b ON_CPU\<rparr>"
  shows "chain (tm_residency begin_evict t b) (\<lambda>t. tm_residency complete_evict t b) = Inr t'"
    "tier_inv q t'" "content t' = content t" "\<forall>j. j \<noteq> b \<longrightarrow> res_of t' j = res_of t j"
proof -
  have rg: "res_in_range (residency t) (layer_idx t) b"
    using agreeD(1) [OF tier_step_invD(3) [OF inv], of "(q, b)"] bk by auto
  note W = residency_write_step [OF inv insertI1 rg, of ON_CPU, folded t'_def]
  show "chain (tm_residency begin_evict t b) (\<lambda>t. tm_residency complete_evict t b) = Inr t'"
    using r rg by (simp add: tm_residency_def t'_def)
  show "content t' = content t" by (rule W(2))
  show "\<forall>j. j \<noteq> b \<longrightarrow> res_of t' j = res_of t j" using rg by (simp add: t'_def)
  have "(q, b) \<in> dom (map_of (backup t'))" "slot_of t' (q, b) = None" "res_of t' (snd (q, b)) = ON_CPU"
    using bk new rg by (simp_all add: t'_def domI)
  then show "tier_inv q t'" unfolding tier_inv_def by (rule close_host_step [OF W(1)])
qed

text \<open>A block that does not fit into the arena goes to the host.\<close>

definition offloaded ::
  "'q \<Rightarrow> nat \<Rightarrow> 'a list \<times> 'a list \<Rightarrow> ('q, 'a) tier \<Rightarrow> ('q, 'a) tier \<Rightarrow> bool" where
  "offloaded q b kv t t' \<longleftrightarrow>
     tier_inv q t' \<and> content t' = (content t)((q, b) \<mapsto> kv) \<and> tier_frame t t' \<and>
     slot_map t' = slot_map t \<and>
     (\<exists>c. map_of (backup t') = (map_of (backup t))((q, b) \<mapsto> c) \<and> cpu_free t = cpu_free t' @ [c]) \<and>
     (\<forall>j. j \<noteq> b \<longrightarrow> res_of t' j = res_of t j) \<and> summary_store t' = summary_store t"

lemma offload_block_ok:
  assumes inv: "tier_inv q t" and sync: "stream_pool t = None"
    and new: "slot_of t (q, b) = None" "map_of (backup t) (q, b) = None"
    and rg: "res_in_range (residency t) (layer_idx t) b" "res_of t b = ON_GPU"
    and l: "length kb = bsz t" "length vb = bsz t" and free: "cpu_free t \<noteq> []"
  shows "\<exists>t'. offload_block t q b kb vb = Inr t' \<and> offloaded q b (kb, vb) t t'"
proof (cases "enable_write_through t")
  case wt: True
  have op: "tier_step_inv q {(q, b)} [] t" using inv unfolding tier_inv_def by (rule open_step)
  have "map_of (host_slots t) (q, b) = None" using new(2) wt by (simp add: backup_def)
  with mirror_step [OF op wt sync _ rg(1), of kb vb "Ext kb vb"] new(1) l free obtain u c where
    u: "mirror_to_host t q b (Ext kb vb) = Inr u" "tier_step_inv q {(q, b)} [] u"
      "content u = (content t)((q, b) \<mapsto> (kb, vb))" "tier_frame t u" "slot_map u = slot_map t"
      "residency u = residency t" "map_of (backup u) = (map_of (backup t))((q, b) \<mapsto> c)"
      "cpu_free t = cpu_free u @ [c]" "summary_store u = summary_store t"
    by (auto simp: src_block_def)
  define t' where "t' = u\<lparr>residency := res_write (residency u) (layer_idx u) b ON_CPU\<rparr>"
  note F = tier_frame_eqs [OF u(4)]
  have "slot_of u (q, b) = None" "map_of (backup u) (q, b) = Some c" "res_of u b = ON_GPU"
    using new(1) u(5,6,7) rg(2) F(1) by simp_all
  note M = evict_mark_step [OF u(2) this, folded t'_def]
  have "tier_frame t t'" using u(4) by (rule tier_frame_trans) (simp add: t'_def)
  moreover have "slot_map t' = slot_map t" "backup t' = backup u" "cpu_free t' = cpu_free u"
    "summary_store t' = summary_store t" using u(5,9) by (simp_all add: t'_def)
  moreover have "offload_block t q b kb vb = Inr t'"
    using wt u(1) M(1) by (simp add: offload_block_def del: chain_eq_Inr)
  ultimately show ?thesis
    using M(2-4) u(3,6,7,8) F(1) unfolding offloaded_def by auto
next
  case wb: False
  have op: "tier_step_inv q {(q, b)} [] t" using inv unfolding tier_inv_def by (rule open_step)
  from alloc_store_step [OF op free l] obtain c cs cs' where
    c: "cs_alloc (cpu_store t) (layer_idx t) = Inr (c, cs)" "store_block cs (layer_idx t) c kb vb = Inr cs'"
      "tier_step_inv q {(q, b)} [c] (t\<lparr>cpu_store := cs'\<rparr>)" "content (t\<lparr>cpu_store := cs'\<rparr>) = content t"
      "cpu_free t = cs_free cs' ! layer_idx t @ [c]" "cs_at cs' (layer_idx t) c = (kb, vb)" by blast
  define u where "u = t\<lparr>cpu_store := cs'\<rparr>"
  define w where "w = u\<lparr>cpu_slots := AList.update (q, b) c (cpu_slots u)\<rparr>"
  have pre: "\<not> enable_write_through u" "(q, b) \<in> {(q, b)}" "slot_of u (q, b) = None"
    "map_of (cpu_slots u) (q, b) = None" "fst (q, b) = q"
    "res_in_range (residency u) (layer_idx u) (snd (q, b))"
    using wb new rg by (simp_all add: u_def backup_def)
  note R = record_cpu_step [OF c(3) [folded u_def] pre, folded w_def]
  have R2: "map_of (backup w) = (map_of (backup t))((q, b) \<mapsto> c)" "content w = (content t)((q, b) \<mapsto> (kb, vb))"
    using R(2,3) c(4,6) by (simp_all add: u_def)
  have "slot_of w (q, b) = None" "map_of (backup w) (q, b) = Some c" "res_of w b = ON_GPU"
    using new(1) R2(1) rg(2) by (simp_all add: w_def u_def)
  define t' where "t' = w\<lparr>residency := res_write (residency w) (layer_idx w) b ON_CPU\<rparr>"
  note M = evict_mark_step [OF R(1) \<open>slot_of w (q, b) = None\<close> \<open>map_of (backup w) (q, b) = Some c\<close>
    \<open>res_of w b = ON_GPU\<close>, folded t'_def]
  define st where "st = stats t'\<lparr>evict_d2h := Suc (evict_d2h (stats t'))\<rparr>"
  from M(1) obtain x where "tm_residency begin_evict w b = Inr x" "tm_residency complete_evict x b = Inr t'"
    by auto
  then have "offload_block t q b kb vb = Inr (t'\<lparr>stats := st\<rparr>)"
    using wb c(1,2) by (simp add: offload_block_def w_def u_def st_def del: chain_eq_Inr)
  moreover have "tier_frame t t'" by (simp add: tier_frame_def t'_def w_def u_def fun_eq_iff)
  moreover have "slot_map t' = slot_map t" "backup t' = backup w" "summary_store t' = summary_store t"
    "cpu_free t = cpu_free t' @ [c]" "residency w = residency t" "layer_idx w = layer_idx t"
    "layer_idx t' = layer_idx t" using c(5) by (simp_all add: t'_def w_def u_def)
  ultimately show ?thesis
    using M(2-4) R2 unfolding offloaded_def
    by (intro exI [of _ "t'\<lparr>stats := st\<rparr>"] conjI exI [of _ c]) (auto simp: tier_inv_def)
qed

section \<open>Placing the blocks of a prompt\<close>

text \<open>
  What placing one block does, \<open>r\<close> saying whether it goes to the arena. A host slot is
  used for every block under write-through, and for the blocks outside the arena otherwise.
\<close>

definition placed ::
  "'q \<Rightarrow> nat \<Rightarrow> bool \<Rightarrow> 'a list \<times> 'a list \<Rightarrow> ('q, 'a) tier \<Rightarrow> ('q, 'a) tier \<Rightarrow> bool" where
  "placed q b r kv t t' \<longleftrightarrow>
     (let host = enable_write_through t \<or> \<not> r
      in tier_inv q t' \<and> content t' = (content t)((q, b) \<mapsto> kv) \<and> tier_frame t t' \<and>
         dom (slot_of t') = (if r then insert (q, b) (dom (slot_of t)) else dom (slot_of t)) \<and>
         dom (map_of (backup t')) =
           (if host then insert (q, b) (dom (map_of (backup t))) else dom (map_of (backup t))) \<and>
         length (cpu_free t) = length (cpu_free t') + (if host then 1 else 0) \<and>
         (\<forall>j. j \<noteq> b \<longrightarrow> res_of t' j = res_of t j) \<and> summary_store t' = summary_store t)"

lemma offloaded_placed: "offloaded q b kv t t' \<Longrightarrow> placed q b False kv t t'"
  by (auto simp: offloaded_def placed_def Let_def)

text \<open>The arena branch of both prefill loops; \<open>f\<close> is the counter update of the second one.\<close>

definition keep_block ::
  "(quest_stats \<Rightarrow> quest_stats) \<Rightarrow> 'q \<Rightarrow> nat \<Rightarrow> 'a list \<Rightarrow> 'a list \<Rightarrow> ('q, 'a) tier \<Rightarrow> ('q, 'a) tier result"
where
  "keep_block f q b k v t =
     chain (claim_free_slot t (q, b)) (\<lambda>(slot, t).
     chain (write_arena t slot k v) (\<lambda>t.
     chain (tm_residency mark_on_gpu t b) (\<lambda>t.
     let t = t\<lparr>stats := f (stats t)\<rparr>
     in if enable_write_through t then mirror_to_host t q b (Ext k v) else Inr t)))"

lemma claim_free_slot_ok:
  assumes inv: "tier_inv q t" and new: "slot_of t (q, b) = None" "map_of (backup t) (q, b) = None"
    and rg: "res_in_range (residency t) (layer_idx t) b" and room: "sm_free_slots (slot_map t) \<noteq> []"
  shows "\<exists>slot m. claim_free_slot t (q, b) = Inr (slot, t\<lparr>slot_map := m\<rparr>) \<and>
    tier_step_inv q {(q, b)} [] (t\<lparr>slot_map := m\<rparr>) \<and> sm_slot m = (slot_of t)((q, b) \<mapsto> slot) \<and>
    (\<forall>j. j \<noteq> (q, b) \<longrightarrow> content (t\<lparr>slot_map := m\<rparr>) j = content t j) \<and>
    sm_capacity m = sm_capacity (slot_map t)"
proof -
  note I = inv [unfolded tier_inv_def] and D = tier_step_invD [OF inv [unfolded tier_inv_def]]
  from sm_add_new [OF D(4,5) new(1), of "{}"] obtain slot ev m where
    m: "sm_add (slot_map t) (q, b) {} = Inr (slot, ev, m)" "sm_added (slot_map t) (q, b) {} slot ev m"
    by blast
  have ev: "ev = None" using m(2) room by (cases rule: sm_added.cases) auto
  note S = slot_map_step [OF I new(1) new(2) _ _ m(2)]
  show ?thesis
    using m(1) S rg sm_added_None(1) [OF D(4) new(1) m(2) [unfolded ev]]
      sm_added_inv(2) [OF D(4) new(1) m(2)] ev
    by (intro exI [of _ slot] exI [of _ m]) (simp add: claim_free_slot_def)
qed

lemma keep_block_ok:
  assumes inv: "tier_inv q t" and sync: "stream_pool t = None"
    and new: "slot_of t (q, b) = None" "map_of (backup t) (q, b) = None"
    and rg: "res_in_range (residency t) (layer_idx t) b" and room: "sm_free_slots (slot_map t) \<noteq> []"
    and l: "length kb = bsz t" "length vb = bsz t" and free: "enable_write_through t \<Longrightarrow> cpu_free t \<noteq> []"
  shows "\<exists>t'. keep_block f q b kb vb t = Inr t' \<and> placed q b True (kb, vb) t t'"
proof -
  from claim_free_slot_ok [OF inv new rg room] obtain slot m where
    m: "claim_free_slot t (q, b) = Inr (slot, t\<lparr>slot_map := m\<rparr>)"
      "tier_step_inv q {(q, b)} [] (t\<lparr>slot_map := m\<rparr>)" "sm_slot m = (slot_of t)((q, b) \<mapsto> slot)"
      "\<forall>j. j \<noteq> (q, b) \<longrightarrow> content (t\<lparr>slot_map := m\<rparr>) j = content t j"
      "sm_capacity m = sm_capacity (slot_map t)" by blast
  define u where "u = t\<lparr>slot_map := m\<rparr>"
  have u: "slot_of u = (slot_of t)((q, b) \<mapsto> slot)" "backup u = backup t" "bsz u = bsz t"
    "residency u = residency t" "layer_idx u = layer_idx t" "cpu_store u = cpu_store t"
    "summary_store u = summary_store t" "host_slots u = host_slots t" "tier_frame t u"
    using m(3,5) by (simp_all add: u_def)
  have k: "slot_of u (q, b) = Some slot" and nb: "map_of (backup u) (q, b) = None"
    and l': "length kb = bsz u" "length vb = bsz u" using u new l by simp_all
  note I = m(2) [folded u_def]
  from write_mark_step [OF I k nb l'] obtain w where
    w: "tm_residency mark_on_gpu (u\<lparr>gpu_k := (gpu_k u)[slot := kb], gpu_v := (gpu_v u)[slot := vb]\<rparr>) b = Inr w"
      "tier_step_inv q {} [] w" "content w = (content u)((q, b) \<mapsto> (kb, vb))" "tier_frame u w"
      "slot_map w = slot_map u" "backup w = backup u" "host_slots w = host_slots u"
      "cpu_store w = cpu_store u" "summary_store w = summary_store u" "arena_at w slot = (kb, vb)"
      "\<forall>j. j \<noteq> b \<longrightarrow> res_of w j = res_of u j" by blast
  have fr: "tier_frame t w" using u(9) w(4) by (rule tier_frame_trans)
  note F = tier_frame_eqs [OF fr]
  have cw: "content w = (content t)((q, b) \<mapsto> (kb, vb))"
    using w(3) m(4) by (auto simp: u_def fun_eq_iff)
  define x where "x = w\<lparr>stats := f (stats w)\<rparr>"
  have ev: "keep_block f q b kb vb t =
      (if enable_write_through t then mirror_to_host x q b (Ext kb vb) else Inr x)"
    using m(1) write_arena_ok [OF tier_step_invD(1) [OF I] k l'] w(1) F(3)
    by (simp add: keep_block_def x_def u_def del: chain_eq_Inr)
  have X: "tier_step_inv q {} [] x" "content x = content w" "tier_frame t x" "slot_map x = slot_map u"
    "backup x = backup t" "cpu_store x = cpu_store t" "summary_store x = summary_store t"
    "residency x = residency w" "layer_idx x = layer_idx t" "host_slots x = host_slots t"
    "stream_pool x = None" "enable_write_through x = enable_write_through t" "arena_at x = arena_at w" "bsz x = bsz t"
    using w fr u F sync by (simp_all add: x_def)
  have rw: "\<forall>j. j \<noteq> b \<longrightarrow> res_of x j = res_of t j" using w(11) u(4,5) X(8,9) F(1) by simp
  have dx: "dom (slot_of x) = insert (q, b) (dom (slot_of t))" using X(4) u(1) by (simp add: dom_fun_upd)
  show ?thesis
  proof (cases "enable_write_through t")
    case wt: True
    have "map_of (host_slots x) (q, b) = None" using new(2) wt X(10) by (simp add: backup_def)
    moreover have "res_in_range (residency x) (layer_idx x) b" using rg F(10) X(8,9) by simp
    moreover have "slot_of x (q, b) = Some slot" using X(4) k by simp
    ultimately obtain t' c where
      t': "mirror_to_host x q b (Ext kb vb) = Inr t'" "tier_step_inv q {} [] t'" "content t' = content x"
        "tier_frame x t'" "slot_map t' = slot_map x" "residency t' = residency x"
        "map_of (backup t') = (map_of (backup x))((q, b) \<mapsto> c)" "cpu_free x = cpu_free t' @ [c]"
        "summary_store t' = summary_store x"
      using mirror_step [OF X(1) _ X(11), of b kb vb "Ext kb vb"] wt X(6,9,12,13,14) w(10) l free
      by (auto simp: src_block_def)
    have "tier_frame t t'" using X(3) t'(4) by (rule tier_frame_trans)
    then have "placed q b True (kb, vb) t t'"
      using wt t' X dx rw cw by (simp add: placed_def tier_inv_def tier_frame_eqs)
    with ev wt t'(1) show ?thesis by auto
  next
    case False
    then show ?thesis
      using ev X dx rw cw by (simp add: placed_def tier_inv_def)
  qed
qed

section \<open>The prefill loops\<close>

text \<open>
  The state of a prefill loop after \<open>i\<close> blocks: blocks from \<open>lo\<close> on are in the arena,
  earlier ones on the host, and together they are the first \<open>i\<close> blocks of the prompt.
\<close>

definition prefilled ::
  "'q \<Rightarrow> nat \<Rightarrow> nat \<Rightarrow> (nat \<Rightarrow> 'a list \<times> 'a list) \<Rightarrow> ('q, 'a) tier \<Rightarrow> ('q, 'a) tier \<Rightarrow> bool" where
  "prefilled q lo i kv t0 t \<longleftrightarrow>
     tier_inv q t \<and> tier_frame t0 t \<and>
     content t = (\<lambda>k. if fst k = q \<and> snd k < i then Some (kv (snd k)) else None) \<and>
     dom (slot_of t) = {q} \<times> {lo..<i} \<and>
     dom (map_of (backup t)) = {q} \<times> {..<if enable_write_through t0 then i else min i lo} \<and>
     length (cpu_free t) + (if enable_write_through t0 then i else min i lo) = length (cpu_free t0) \<and>
     (\<forall>j \<ge> i. res_in_range (residency t0) (layer_idx t0) j \<longrightarrow> res_of t j = ON_GPU)"

lemma prefilled_step:
  assumes "prefilled q lo i kv t0 t" "placed q i (lo \<le> i) (kv i) t t'"
  shows "prefilled q lo (Suc i) kv t0 t'" "summary_store t' = summary_store t"
proof -
  have P: "tier_frame t0 t" "content t = (\<lambda>k. if fst k = q \<and> snd k < i then Some (kv (snd k)) else None)"
    "dom (slot_of t) = {q} \<times> {lo..<i}"
    "dom (map_of (backup t)) = {q} \<times> {..<if enable_write_through t0 then i else min i lo}"
    "length (cpu_free t) + (if enable_write_through t0 then i else min i lo) = length (cpu_free t0)"
    "\<forall>j \<ge> i. res_in_range (residency t0) (layer_idx t0) j \<longrightarrow> res_of t j = ON_GPU" using assms(1) by (simp_all add: prefilled_def)
  have Q: "tier_inv q t'" "content t' = (content t)((q, i) \<mapsto> kv i)" "tier_frame t t'"
    "dom (slot_of t') = (if lo \<le> i then insert (q, i) (dom (slot_of t)) else dom (slot_of t))"
    "dom (map_of (backup t')) = (if enable_write_through t \<or> i < lo
       then insert (q, i) (dom (map_of (backup t))) else dom (map_of (backup t)))"
    "length (cpu_free t) = length (cpu_free t') + (if enable_write_through t \<or> i < lo then 1 else 0)"
    "\<forall>j. j \<noteq> i \<longrightarrow> res_of t' j = res_of t j" using assms(2) by (auto simp: placed_def Let_def)
  note F = tier_frame_eqs [OF P(1)]
  have "content t' = (\<lambda>k. if fst k = q \<and> snd k < Suc i then Some (kv (snd k)) else None)"
    unfolding Q(2) P(2) by (auto simp: fun_eq_iff less_Suc_eq)
  moreover have "dom (slot_of t') = {q} \<times> {lo..<Suc i}" using P(3) Q(4) by auto
  moreover have "dom (map_of (backup t')) =
      {q} \<times> {..<if enable_write_through t0 then Suc i else min (Suc i) lo}"
    unfolding Q(5) P(4) F(3) by (auto simp: less_Suc_eq)
  moreover have "length (cpu_free t') + (if enable_write_through t0 then Suc i else min (Suc i) lo) =
      length (cpu_free t0)" using P(5) Q(6) F(3) by (auto split: if_splits)
  moreover have "tier_frame t0 t'" using P(1) Q(3) by (rule tier_frame_trans)
  moreover have "\<forall>j \<ge> Suc i. res_in_range (residency t0) (layer_idx t0) j \<longrightarrow> res_of t' j = ON_GPU" using P(6) Q(7) by simp
  ultimately show "prefilled q lo (Suc i) kv t0 t'" using Q(1) by (simp add: prefilled_def)
  show "summary_store t' = summary_store t" using assms(2) by (simp add: placed_def Let_def)
qed

text \<open>There is room: for the arena since the kept suffix fits, for the host by its size.\<close>

lemma prefilled_room:
  assumes "prefilled q lo i kv t0 t"
  shows "slot_of t (q, i) = None" "map_of (backup t) (q, i) = None"
    "res_in_range (residency t0) (layer_idx t0) i \<Longrightarrow> res_of t i = ON_GPU"
    "i - lo < sm_capacity (slot_map t0) \<Longrightarrow> sm_free_slots (slot_map t) \<noteq> []"
    "(if enable_write_through t0 then i else min i lo) < length (cpu_free t0) \<Longrightarrow> cpu_free t \<noteq> []"
proof -
  have P: "tier_inv q t" "tier_frame t0 t" "dom (slot_of t) = {q} \<times> {lo..<i}"
    "dom (map_of (backup t)) = {q} \<times> {..<if enable_write_through t0 then i else min i lo}"
    "length (cpu_free t) + (if enable_write_through t0 then i else min i lo) = length (cpu_free t0)"
    "\<forall>j \<ge> i. res_in_range (residency t0) (layer_idx t0) j \<longrightarrow> res_of t j = ON_GPU" using assms by (simp_all add: prefilled_def)
  show "slot_of t (q, i) = None" using P(3) by (metis atLeastLessThan_iff domIff mem_Sigma_iff nat_neq_iff)
  have "(q, i) \<notin> dom (map_of (backup t))" unfolding P(4) by auto
  then show "map_of (backup t) (q, i) = None" by blast
  show "res_in_range (residency t0) (layer_idx t0) i \<Longrightarrow> res_of t i = ON_GPU" using P(6) by simp
  show "cpu_free t \<noteq> []" if "(if enable_write_through t0 then i else min i lo) < length (cpu_free t0)"
    using P(5) that by auto
  show "sm_free_slots (slot_map t) \<noteq> []" if "i - lo < sm_capacity (slot_map t0)"
  proof -
    have inv: "sm_inv (slot_map t)" using P(1) unfolding tier_inv_def by (rule tier_step_invD)
    have "card (dom (slot_of t)) = i - lo" by (simp add: P(3) card_cartesian_product)
    then show ?thesis
      using sm_inv_card_dom [OF inv] sm_inv_length [OF inv] that tier_frame_eqs(8) [OF P(2)] by auto
  qed
qed

text \<open>Both loops do the same with a block: place it in the arena or on the host.\<close>

lemma prefilled_place:
  assumes P: "prefilled q lo i kv t0 t" and sync: "stream_pool t0 = None"
    and i: "i < n" "n - lo < sm_capacity (slot_map t0)"
    and host: "(if enable_write_through t0 then n else min n lo) \<le> length (cpu_free t0)"
    and rg: "res_in_range (residency t0) (layer_idx t0) i"
    and kv: "kv i = (kb, vb)" "length kb = bsz t0" "length vb = bsz t0"
  shows "lo \<le> i \<Longrightarrow> \<exists>t'. keep_block f q i kb vb t = Inr t' \<and> prefilled q lo (Suc i) kv t0 t' \<and> summary_store t' = summary_store t"
    and "i < lo \<Longrightarrow> \<exists>t'. offload_block t q i kb vb = Inr t' \<and> prefilled q lo (Suc i) kv t0 t' \<and> summary_store t' = summary_store t"
proof -
  have inv: "tier_inv q t" and fr: "tier_frame t0 t" using P by (simp_all add: prefilled_def)
  note F = tier_frame_eqs [OF fr] and R = prefilled_room [OF P]
  have "stream_pool t = None" "res_in_range (residency t) (layer_idx t) i" "length kb = bsz t" "length vb = bsz t"
    using F sync rg kv by simp_all
  note pre = inv this(1) R(1,2) this(2)
  show "\<exists>t'. keep_block f q i kb vb t = Inr t' \<and> prefilled q lo (Suc i) kv t0 t' \<and> summary_store t' = summary_store t" if "lo \<le> i"
  proof -
    have "sm_free_slots (slot_map t) \<noteq> []" using R(4) i that by linarith
    moreover have "cpu_free t \<noteq> []" if "enable_write_through t" using R(5) i(1) host F(3) that by simp
    ultimately show ?thesis
      using keep_block_ok [OF pre _ \<open>length kb = bsz t\<close> \<open>length vb = bsz t\<close>, of f]
        prefilled_step [OF P] that kv(1) by auto
  qed
  show "\<exists>t'. offload_block t q i kb vb = Inr t' \<and> prefilled q lo (Suc i) kv t0 t' \<and> summary_store t' = summary_store t" if "i < lo"
  proof -
    have "cpu_free t \<noteq> []" using R(5) i(1) host that by (simp split: if_splits)
    then show ?thesis
      using offload_block_ok [OF pre R(3) [OF rg] \<open>length kb = bsz t\<close> \<open>length vb = bsz t\<close>] offloaded_placed
        prefilled_step [OF P] that kv(1) by force
  qed
qed

end
