(* ===== verification/Tier_Prefill.thy ===== *)
theory Tier_Prefill
  imports Tier_Fill
begin

text \<open>
  The two ways a prompt enters the tier: \<open>trim_to_working_set\<close> copies the full blocks of
  the engine's paged cache, \<open>prefill_ingest_kvshare\<close> cuts them out of the prompt's K and V.
  Both keep the last blocks in the arena, leave one arena slot free for the live block, and
  put the rest on the host.
\<close>

definition tier_fresh :: "'q \<Rightarrow> ('q, 'a) tier \<Rightarrow> bool" where
  "tier_fresh q t \<longleftrightarrow>
     tier_inv q t \<and> content t = Map.empty \<and>
     (\<forall>b. res_in_range (residency t) (layer_idx t) b \<longrightarrow> res_of t b = ON_GPU)"

lemma content_empty:
  assumes "content t = Map.empty"
  shows "slot_of t = Map.empty" "map_of (backup t) = Map.empty"
proof -
  have "slot_of t k = None \<and> map_of (backup t) k = None" for k
    using fun_cong [OF assms, of k] by (cases "slot_of t k") (simp_all add: content_Some content_None)
  then show "slot_of t = Map.empty" "map_of (backup t) = Map.empty" by (auto simp: fun_eq_iff)
qed

lemma prefilled_start: "tier_fresh q t \<Longrightarrow> prefilled q lo 0 kv t t"
  using content_empty [of t] by (simp add: tier_fresh_def prefilled_def)

lemma trimmed_step [simp]:
  "tier_step_inv q E H (t\<lparr>trimmed := S\<rparr>) = tier_step_inv q E H t"
  "content (t\<lparr>trimmed := S\<rparr>) = content t"
  by (auto simp: tier_step_inv_def arena_ok_def host_ok_def agree_def content_def
      fun_eq_iff split: option.split)

lemma fresh_trimmed [simp]: "tier_fresh q (t\<lparr>trimmed := S\<rparr>) = tier_fresh q t"
  by (simp add: tier_fresh_def tier_inv_def)

text \<open>The part of the prompt that stays in the arena always fits beside the live block.\<close>

lemma keep_lo_room:
  "0 < sm_capacity (slot_map t) \<Longrightarrow> n - (n - keep_n t n) < sm_capacity (slot_map t)"
  by (simp add: keep_n_def)

lemma summary_step [simp]:
  assumes "ss_block_size ss = bsz t"
  shows "tier_step_inv q E H (t\<lparr>summary_store := ss\<rparr>) = tier_step_inv q E H t"
    "content (t\<lparr>summary_store := ss\<rparr>) = content t"
    "tier_frame t0 (t\<lparr>summary_store := ss\<rparr>) = tier_frame t0 t"
    "prefilled q lo i kv t0 (t\<lparr>summary_store := ss\<rparr>) = prefilled q lo i kv t0 t"
proof -
  show "tier_step_inv q E H (t\<lparr>summary_store := ss\<rparr>) = tier_step_inv q E H t" for E H
    using assms by (simp add: tier_step_inv_def arena_ok_def host_ok_def agree_def)
  moreover show "content (t\<lparr>summary_store := ss\<rparr>) = content t"
    by (simp add: content_def fun_eq_iff split: option.split)
  moreover show "tier_frame t0 (t\<lparr>summary_store := ss\<rparr>) = tier_frame t0 t"
    using assms by (simp add: tier_frame_def)
  ultimately show "prefilled q lo i kv t0 (t\<lparr>summary_store := ss\<rparr>) = prefilled q lo i kv t0 t"
    by (simp add: prefilled_def tier_inv_def)
qed

section \<open>Trimming the engine's cache\<close>

lemma trim_block_eq:
  assumes "b < length row" "0 \<le> row ! b" "nat (row ! b) < length kv_cache"
  shows "trim_block q lo kv_cache row b t =
    (let (k, v) = kv_cache ! nat (row ! b)
     in if lo \<le> b then keep_block id q b k v t else offload_block t q b k v)"
proof -
  have "py_index kv_cache (row ! b) = Inr (kv_cache ! nat (row ! b))"
    using py_index_nat [OF assms(3)] assms(2) by simp
  then show ?thesis
    using assms(1) by (simp add: trim_block_def keep_block_def split_def Let_def del: chain_eq_Inr)
qed

text \<open>
  C8. \<open>trim_to_working_set\<close> on a fresh tier, for a block table whose entries are blocks of
  the engine's cache and a host pool that has room for what does not fit: it returns, the tier
  then holds exactly the \<open>n\<close> blocks of the prompt with the engine's data, the last
  \<open>keep_n\<close> of them are resident and the others are not, and the request is marked trimmed.
\<close>

theorem trim_to_working_set_correct:
  assumes "tier_fresh q t" "stream_pool t = None" "q \<notin> trimmed t"
    and "\<forall>b < n. res_in_range (residency t) (layer_idx t) b"
    and "n \<le> length row"
    and "\<forall>b < n. 0 \<le> row ! b \<and> nat (row ! b) < length kv_cache \<and>
      (let (k, v) = kv_cache ! nat (row ! b) in length k = bsz t \<and> length v = bsz t)"
    and "(if enable_write_through t then n else n - keep_n t n) \<le> length (cpu_free t)"
  shows "\<exists>t'. trim_to_working_set t q n kv_cache row = Inr t' \<and> tier_inv q t' \<and>
    (\<forall>b. content t' (q, b) = (if b < n then Some (kv_cache ! nat (row ! b)) else None)) \<and>
    (\<forall>b. is_resident t' q b \<longleftrightarrow> n - keep_n t n \<le> b \<and> b < n) \<and> trimmed t' = insert q (trimmed t)"
proof -
  define t0 where "t0 = t\<lparr>trimmed := insert q (trimmed t)\<rparr>"
  define lo where "lo = n - keep_n t n"
  let ?kv = "\<lambda>b. kv_cache ! nat (row ! b)" and ?f = "trim_block q lo kv_cache row"
  have t0: "stream_pool t0 = None" "residency t0 = residency t" "layer_idx t0 = layer_idx t"
    "bsz t0 = bsz t" "cpu_store t0 = cpu_store t" "enable_write_through t0 = enable_write_through t"
    "slot_map t0 = slot_map t" using assms(2) by (simp_all add: t0_def)
  have cap: "n - lo < sm_capacity (slot_map t0)"
    using assms(1) keep_lo_room [of t n] tier_step_invD(5) [of q "{}" "[]" t] t0(7)
    by (simp add: tier_fresh_def tier_inv_def lo_def)
  have "\<exists>u'. ?f ([0..<n] ! i) u = Inr u' \<and> prefilled q lo (Suc i) ?kv t0 u'"
    if i: "i < length [0..<n]" and P: "prefilled q lo i ?kv t0 u" for i u
  proof -
    obtain kb vb where kv: "?kv i = (kb, vb)" by force
    note A = prefilled_place [OF P t0(1) _ cap, of kb vb]
    have "?f i u = (if lo \<le> i then keep_block id q i kb vb u else offload_block u q i kb vb)"
      using trim_block_eq [of i row kv_cache q lo u] i assms(5,6) kv by simp
    moreover have "res_in_range (residency t0) (layer_idx t0) i" "length kb = bsz t0" "length vb = bsz t0"
      "(if enable_write_through t0 then n else min n lo) \<le> length (cpu_free t0)"
      using i assms(4,6,7) kv t0 by (auto simp: lo_def)
    ultimately show ?thesis using A kv i by (cases "lo \<le> i") auto
  qed
  from for_each_total [of "\<lambda>i. prefilled q lo i ?kv t0" t0 "[0..<n]" ?f, OF _ this]
  obtain t' where t': "for_each [0..<n] ?f t0 = Inr t'" "prefilled q lo n ?kv t0 t'"
    using prefilled_start [of q t0 lo ?kv] assms(1) by (auto simp: t0_def)
  have "trim_to_working_set t q n kv_cache row = Inr t'"
    using assms(3) t'(1) by (simp add: trim_to_working_set_def t0_def lo_def keep_n_def)
  moreover have "is_resident t' q b \<longleftrightarrow> lo \<le> b \<and> b < n" for b
    using t'(2) by (simp add: prefilled_def is_resident_def sm_contains_iff)
  moreover have "trimmed t' = insert q (trimmed t)"
    using t'(2) by (simp add: prefilled_def tier_frame_def t0_def)
  ultimately show ?thesis
    using t'(2) by (intro exI [of _ t']) (simp add: prefilled_def lo_def)
qed

lemma ex_new_fresh: "tier_fresh q (ex_new bord wt)"
  unfolding tier_fresh_def using ex_new_inv [of q bord wt]
  by (auto simp: ex_new_def content_def sm_init_def backup_def fun_eq_iff)

lemma ex_new_simps:
  "stream_pool (ex_new bord wt) = None" "trimmed (ex_new bord wt) = {}" "bsz (ex_new bord wt) = 1"
  "layer_idx (ex_new bord wt) = 0" "residency (ex_new bord wt) = res_init 1 4"
  "cs_free (cpu_store (ex_new bord wt)) = [[2, 1, 0]]" "enable_write_through (ex_new bord wt) = wt"
  "sm_capacity (slot_map (ex_new bord wt)) = 2" "keep_n (ex_new bord wt) n = min n 1"
  by (simp_all add: ex_new_def sm_init_def keep_n_def)

lemma ex_kv_ok:
  "\<forall>b < 3. 0 \<le> [0, 1, 2 :: int] ! b \<and> nat ([0, 1, 2 :: int] ! b) < length ex_kv \<and>
     (let (k, v) = ex_kv ! nat ([0, 1, 2 :: int] ! b) in length k = 1 \<and> length v = 1)"
  by (simp add: ex_kv_def numeral_eq_Suc All_less_Suc)

theorem trim_to_working_set_correct_witness:
  "\<exists>t'. trim_to_working_set (ex_new Lru True) 7 3 ex_kv [0, 1, 2] = Inr t' \<and> tier_inv 7 t' \<and>
    (\<forall>b. content t' (7, b) = (if b < 3 then Some (ex_kv ! nat ([0, 1, 2] ! b)) else None)) \<and>
    (\<forall>b. is_resident t' 7 b \<longleftrightarrow> 2 \<le> b \<and> b < 3) \<and> trimmed t' = {7}"
  using trim_to_working_set_correct [OF ex_new_fresh [of 7 Lru True], where n = 3
      and row = "[0, 1, 2]" and kv_cache = ex_kv] ex_kv_ok
  by (simp add: ex_new_simps)

end
