(* ===== verification/Tier_Load.thy ===== *)
theory Tier_Load
  imports Tier_Steps Tier_Example
begin

text \<open>
  The synchronous load path of the tier manager: \<open>_ensure_one_sync\<close> and
  \<open>ensure_resident\<close> return, keep the invariant, lose no block, and leave the selected
  blocks resident.
\<close>

text \<open>The host slot of a miss in both modes; \<open>H\<close> is the slot in hand.\<close>

lemma take_backup_any:
  assumes inv: "tier_inv q t" and new: "slot_of t k = None" and c: "map_of (backup t) k = Some c"
  defines "H \<equiv> if enable_write_through t then [] else [c]"
  shows "\<exists>t'. take_backup t k = Inr (c, t') \<and> tier_step_inv q {} H t' \<and>
    (\<forall>j. j \<noteq> k \<longrightarrow> content t' j = content t j) \<and> tier_frame t t' \<and> slot_map t' = slot_map t \<and>
    cpu_store t' = cpu_store t \<and> residency t' = residency t \<and> host_slots t' = host_slots t \<and>
    (\<not> enable_write_through t \<longrightarrow> map_of (backup t') k = None)"
proof (cases "enable_write_through t")
  case True
  then have "take_backup t k = Inr (c, t)" using c by (simp add: take_backup_def backup_def)
  then show ?thesis using inv True by (auto simp: tier_inv_def H_def)
next
  case False
  note T = take_backup_step [OF inv [unfolded tier_inv_def] False new c]
  show ?thesis
    by (intro exI conjI, rule T(1)) (use False in \<open>simp_all add: T H_def\<close>)
qed

lemma begin_load_step:
  assumes "tier_step_inv q E H t" "(q, b) \<in> E" "res_in_range (residency t) (layer_idx t) b"
    and "res_of t b = ON_CPU"
  shows "\<exists>t'. tm_residency begin_load t b = Inr t' \<and> tier_step_inv q E H t' \<and>
    content t' = content t \<and> tier_frame t t' \<and> slot_map t' = slot_map t \<and> backup t' = backup t \<and>
    cpu_store t' = cpu_store t \<and> host_slots t' = host_slots t \<and> res_of t' b = LOADING"
  using residency_write_step [OF assms(1-3), of LOADING] assms(3,4)
  by (simp add: tm_residency_def)

lemma complete_load_step:
  assumes inv: "tier_step_inv q {(q, b)} H t" and k: "slot_of t (q, b) = Some s"
    and r: "res_of t b = LOADING"
    and data: "\<And>c. enable_write_through t \<Longrightarrow> map_of (host_slots t) (q, b) = Some c \<Longrightarrow>
      host_at t c = arena_at t s"
  shows "\<exists>t'. tm_residency complete_load t b = Inr t' \<and> tier_step_inv q {} H t' \<and>
    content t' = content t \<and> tier_frame t t' \<and> slot_map t' = slot_map t \<and> backup t' = backup t \<and>
    cpu_store t' = cpu_store t \<and> host_slots t' = host_slots t \<and> stats t' = stats t"
proof -
  have rg: "res_in_range (residency t) (layer_idx t) b"
    using agreeD(1) [OF tier_step_invD(3) [OF inv], of "(q, b)"] k by auto
  note W = residency_write_step [OF inv insertI1 rg, of ON_GPU]
  have "tier_step_inv q {} H (t\<lparr>residency := res_write (residency t) (layer_idx t) b ON_GPU\<rparr>)"
    using W(1) by (rule close_step) (use k rg data in simp_all)
  then show ?thesis using W(2) rg r by (simp add: tm_residency_def)
qed

text \<open>The tail of a load, from the copy on.\<close>

lemma finish_load:
  assumes inv: "tier_step_inv q {(q, b)} (if enable_write_through t then [] else [c]) t"
    and k: "slot_of t (q, b) = Some s" and r: "res_of t b = LOADING"
    and c: "c < cs_blocks_per_layer (cpu_store t)"
    and h: "enable_write_through t \<Longrightarrow> map_of (host_slots t) (q, b) = Some c"
  shows "\<exists>t'. chain (load_into t c s) (\<lambda>t.
      chain (if enable_write_through t then Inr t
             else chain (cs_release (cpu_store t) (layer_idx t) c) (\<lambda>cs. Inr (t\<lparr>cpu_store := cs\<rparr>))) (\<lambda>t.
      tm_residency complete_load t b)) = Inr t' \<and> tier_inv q t' \<and>
    content t' = (content t)((q, b) \<mapsto> host_at t c) \<and> tier_frame t t' \<and> slot_map t' = slot_map t \<and>
    host_slots t' = host_slots t \<and>
    cpu_free t' = cpu_free t @ (if enable_write_through t then [] else [c])"
proof -
  from load_into_step [OF inv insertI1 k c] obtain t1 where
    t1: "load_into t c s = Inr t1" "tier_step_inv q {(q, b)} (if enable_write_through t then [] else [c]) t1"
      "content t1 = (content t)((q, b) \<mapsto> host_at t c)" "arena_at t1 s = host_at t c"
      "tier_frame t t1" "slot_map t1 = slot_map t" "residency t1 = residency t"
      "host_slots t1 = host_slots t" "host_at t1 = host_at t" "cpu_free t1 = cpu_free t" by auto
  note F = tier_frame_eqs [OF t1(5)]
  show ?thesis
  proof (cases "enable_write_through t")
    case True
    then have inv1: "tier_step_inv q {(q, b)} [] t1" using t1(2) by simp
    have "host_at t1 c' = arena_at t1 s" if "map_of (host_slots t1) (q, b) = Some c'" for c'
      using that t1(4,8,9) h [OF True] by simp
    then obtain t' where t': "tm_residency complete_load t1 b = Inr t'" "tier_step_inv q {} [] t'"
        "content t' = content t1" "tier_frame t1 t'" "slot_map t' = slot_map t1"
        "cpu_store t' = cpu_store t1" "host_slots t' = host_slots t1"
      using complete_load_step [OF inv1, of s] t1(6,7) k r F(1) by auto
    have "tier_frame t t'" using t1(5) t'(4) by (rule tier_frame_trans)
    with True F(1,3) t1(1,3,6,8,10) t' show ?thesis
      by (intro exI [of _ t']) (simp add: tier_inv_def tier_frame_eqs)
  next
    case False
    then have "tier_step_inv q {(q, b)} (c # []) t1" using t1(2) by simp
    from release_step [OF this] obtain cs where cs: "cs_release (cpu_store t1) (layer_idx t1) c = Inr cs"
      "tier_step_inv q {(q, b)} [] (t1\<lparr>cpu_store := cs\<rparr>)" "content (t1\<lparr>cpu_store := cs\<rparr>) = content t1"
      "cs_free cs ! layer_idx t1 = cpu_free t1 @ [c]" by metis
    from complete_load_step [OF cs(2), of s] t1(6,7) k r F(1,3) False obtain t' where
      t': "tm_residency complete_load (t1\<lparr>cpu_store := cs\<rparr>) b = Inr t'" "tier_step_inv q {} [] t'"
        "content t' = content t1" "tier_frame (t1\<lparr>cpu_store := cs\<rparr>) t'" "slot_map t' = slot_map t1"
        "cpu_store t' = cs" "host_slots t' = host_slots t1" using cs(3) by auto
    have "tier_frame t (t1\<lparr>cpu_store := cs\<rparr>)" using t1(5) by (rule tier_frame_trans) simp
    then have "tier_frame t t'" using t'(4) by (rule tier_frame_trans)
    with False F(1,3) t1(1,3,6,8,10) t' cs(1,4) show ?thesis
      by (intro exI [of _ t']) (simp add: tier_inv_def tier_frame_eqs)
  qed
qed

text \<open>The first half of a miss: the host slot in hand and the arena slot claimed.\<close>

lemma ensure_claim:
  assumes inv: "tier_inv q t" and sync: "stream_pool t = None"
    and new: "slot_of t (q, b) = None" and held: "map_of (backup t) (q, b) = Some c"
    and room: "\<forall>slot v m. sm_added (slot_map t) (q, b) (protected_keys t q) slot (Some v) m \<longrightarrow>
      may_evict t v"
  shows "\<exists>t1 t2 slot ev. take_backup t (q, b) = Inr (c, t1) \<and>
    claim_slot t1 (q, b) (protected_keys t1 q) = Inr (slot, t2) \<and>
    claimed q (if enable_write_through t then [] else [c]) (q, b) (protected_keys t q) t1 slot ev t2 \<and>
    (\<forall>j. j \<noteq> (q, b) \<longrightarrow> content t1 j = content t j) \<and> tier_frame t t1 \<and>
    slot_map t1 = slot_map t \<and> cpu_store t1 = cpu_store t \<and> residency t1 = residency t \<and>
    host_slots t1 = host_slots t"
proof -
  let ?k = "(q, b)" and ?H = "if enable_write_through t then [] else [c]"
  from take_backup_any [OF inv new held] obtain t1 where t1: "take_backup t ?k = Inr (c, t1)"
    "tier_step_inv q {} ?H t1" "\<forall>j. j \<noteq> ?k \<longrightarrow> content t1 j = content t j" "tier_frame t t1"
    "slot_map t1 = slot_map t" "cpu_store t1 = cpu_store t" "residency t1 = residency t"
    "host_slots t1 = host_slots t" "\<not> enable_write_through t \<Longrightarrow> map_of (backup t1) ?k = None" by blast
  note F1 = tier_frame_eqs [OF t1(4)] and D = tier_step_invD [OF inv [unfolded tier_inv_def]]
  have rg: "res_in_range (residency t) (layer_idx t) b" "res_of t b = ON_CPU"
    using agreeD(1,3) [OF D(3), of ?k] held new by auto
  have prot: "protected_keys t1 q = protected_keys t q" using F1 by (simp add: protected_keys_def)
  have "may_evict t1 v" if "sm_added (slot_map t1) ?k (protected_keys t q) slot (Some v) m" for slot v m
  proof -
    have "may_evict t v" using room that t1(5) by metis
    then show ?thesis using t1(6,8) F1(1,3) by (simp add: may_evict_def)
  qed
  from claim_slot_new [OF t1(2), of ?k "protected_keys t q"] this F1 sync new t1(5,7,9) rg obtain slot ev t2
    where t2: "claim_slot t1 ?k (protected_keys t q) = Inr (slot, t2)"
      "claimed q ?H ?k (protected_keys t q) t1 slot ev t2" by auto
  with t1 prot show ?thesis by (intro exI [of _ t1] exI [of _ t2] exI [of _ slot] exI [of _ ev]) simp
qed

text \<open>One miss: the block comes back, and what it displaces stays held.\<close>

lemma ensure_one_miss:
  assumes inv: "tier_inv q t" and sync: "stream_pool t = None"
    and new: "slot_of t (q, b) = None" and held: "map_of (backup t) (q, b) = Some c"
    and room: "\<forall>slot v m. sm_added (slot_map t) (q, b) (protected_keys t q) slot (Some v) m \<longrightarrow>
      may_evict t v"
  shows "\<exists>t' slot ev. ensure_one_sync q b t = Inr t' \<and> tier_inv q t' \<and> content t' = content t \<and>
    tier_frame t t' \<and> sm_added (slot_map t) (q, b) (protected_keys t q) slot ev (slot_map t') \<and>
    host_slots t' = host_slots t \<and>
    (\<not> enable_write_through t \<longrightarrow>
       length (cpu_free t') = length (cpu_free t) + (if ev = None then 1 else 0))"
proof -
  let ?k = "(q, b)" and ?H = "if enable_write_through t then [] else [c]"
  note D = tier_step_invD [OF inv [unfolded tier_inv_def]]
  have rg: "res_in_range (residency t) (layer_idx t) b" "res_of t b = ON_CPU"
    using agreeD(1,3) [OF D(3), of ?k] held new by auto
  from ensure_claim [OF inv sync new held room] obtain t1 t2 slot ev where
    t1: "take_backup t ?k = Inr (c, t1)" "claim_slot t1 ?k (protected_keys t1 q) = Inr (slot, t2)"
      "\<forall>j. j \<noteq> ?k \<longrightarrow> content t1 j = content t j" "tier_frame t t1" "slot_map t1 = slot_map t"
      "cpu_store t1 = cpu_store t" "residency t1 = residency t" "host_slots t1 = host_slots t"
    and "claimed q ?H ?k (protected_keys t q) t1 slot ev t2" by blast
  note F1 = tier_frame_eqs [OF t1(4)]
  from \<open>claimed q ?H ?k _ t1 slot ev t2\<close> have
    t2: "sm_added (slot_map t) ?k (protected_keys t q) slot ev (slot_map t2)"
    "tier_step_inv q {?k} ?H t2" "\<And>j. j \<noteq> ?k \<Longrightarrow> content t2 j = content t j" "tier_frame t1 t2"
    "res_of t2 b = ON_CPU" "\<forall>c \<in> set ?H. host_at t2 c = host_at t c"
    "enable_write_through t \<Longrightarrow> host_slots t2 = host_slots t \<and> cpu_store t2 = cpu_store t"
    "\<not> enable_write_through t \<Longrightarrow>
       length (cpu_free t) = length (cpu_free t2) + (if ev = None then 0 else 1)"
    using t1(3,5-8) F1(1,3) rg(2) by (auto simp: claimed_def)
  note F2 = tier_frame_eqs [OF t2(4)]
  have hb: "host_slots t2 = host_slots t"
    using t2(7) tier_step_invD(2) [OF t2(2)] D(2) F1(3) F2(3)
    by (cases "enable_write_through t") (simp_all add: host_ok_def)
  have hc: "host_at t2 c = host_at t c"
    using t2(6,7) F1(1) F2(1) by (cases "enable_write_through t") auto
  have hk: "map_of (host_slots t2) ?k = Some c" if "enable_write_through t"
    using hb held that by (simp add: backup_def)
  have cl: "c < cs_blocks_per_layer (cpu_store t2)"
  proof -
    have "c \<in> set (map snd (backup t2) @ cpu_free t2 @ ?H)"
      using map_of_snd_in [OF hk] F1(3) F2(3) by (auto simp: backup_def)
    then show ?thesis using tier_step_invD(2) [OF t2(2)] unfolding host_ok_def by (metis atLeastLessThan_iff)
  qed
  have sk: "slot_of t2 ?k = Some slot" using sm_added_inv(4) [OF D(4) new t2(1)] .
  from begin_load_step [OF t2(2) insertI1] t2(5) rg(1) F1(1,10) F2(1,10) obtain t3 where
    t3: "tm_residency begin_load t2 b = Inr t3" "tier_step_inv q {?k} ?H t3" "content t3 = content t2"
      "tier_frame t2 t3" "slot_map t3 = slot_map t2" "cpu_store t3 = cpu_store t2"
      "host_slots t3 = host_slots t2" "res_of t3 b = LOADING" by auto
  note F3 = tier_frame_eqs [OF t3(4)]
  have H3: "?H = (if enable_write_through t3 then [] else [c])" using F1 F2 F3 by simp
  from finish_load [OF t3(2) [unfolded H3] sk [folded t3(5)] t3(8)] cl t3(6,7) hk F1(3) F2(3) F3(3)
  obtain t4 where t4: "chain (load_into t3 c slot) (\<lambda>t.
      chain (if enable_write_through t then Inr t
             else chain (cs_release (cpu_store t) (layer_idx t) c) (\<lambda>cs. Inr (t\<lparr>cpu_store := cs\<rparr>))) (\<lambda>t.
      tm_residency complete_load t b)) = Inr t4" "tier_inv q t4"
    "content t4 = (content t3)(?k \<mapsto> host_at t3 c)" "tier_frame t3 t4" "slot_map t4 = slot_map t3"
    "host_slots t4 = host_slots t3"
    "cpu_free t4 = cpu_free t3 @ (if enable_write_through t3 then [] else [c])" by auto
  have fr: "tier_frame t t4" using t1(4) t2(4) t3(4) t4(4) by (blast intro: tier_frame_trans)
  have "content t4 j = content t j" for j
    using t4(3) t3(3,6) t2(3) hc F2(1) F3(1) held new by (cases "j = ?k") (simp_all add: content_None)
  then have "content t4 = content t" by blast
  moreover define st where "st = stats t4\<lparr>load_h2d := Suc (load_h2d (stats t4))\<rparr>"
  moreover have "ensure_one_sync q b t = Inr (t4\<lparr>stats := st\<rparr>)"
  proof -
    from t4(1) obtain x y where "load_into t3 c slot = Inr x"
      "(if enable_write_through x then Inr x
        else chain (cs_release (cpu_store x) (layer_idx x) c) (\<lambda>cs. Inr (x\<lparr>cpu_store := cs\<rparr>))) = Inr y"
      "tm_residency complete_load y b = Inr t4" by auto
    then show ?thesis
      using new t1(1,2) t3(1)
      by (simp add: ensure_one_sync_def ensure_one_def sm_contains_iff domIff st_def del: chain_eq_Inr)
  qed
  moreover have "length (cpu_free t4) = length (cpu_free t) + (if ev = None then 1 else 0)"
    if "\<not> enable_write_through t"
    using t4(7) t3(6) t2(8) that F1(1,3) F2(1,3) F3(1,3) by (simp split: if_splits)
  ultimately show ?thesis
    using t4(2,5,6) fr t2(1) t3(5,7) hb
    by (intro exI [of _ "t4\<lparr>stats := st\<rparr>"] exI [of _ slot] exI [of _ ev]) (simp add: tier_inv_def)
qed

lemma ensure_one_hit:
  assumes "slot_of t (q, b) = Some s" "sm_get (slot_map t) (q, b) = Inr (s, m)"
  shows "ensure_one_sync q b t = Inr (t\<lparr>slot_map := m\<rparr>)"
  using assms by (simp add: ensure_one_sync_def ensure_one_def sm_contains_iff domIff)

section \<open>The two passes\<close>

text \<open>
  What the loops keep: nothing is lost, the needed keys \<open>N\<close> that were resident stay
  resident, and an eviction of a key outside \<open>N\<close> can always be carried out.
\<close>

definition evictable :: "'q key set \<Rightarrow> ('q, 'a) tier \<Rightarrow> bool" where
  "evictable N t \<longleftrightarrow>
     (if enable_write_through t then dom (slot_of t) - N \<subseteq> dom (map_of (host_slots t))
      else cpu_free t \<noteq> [])"

lemma evictable_victim:
  assumes "sm_inv (slot_map t)" "sm_free_slots (slot_map t) = [] \<Longrightarrow> evictable {k} t"
  shows "\<forall>slot v m. slot_of t k = None \<longrightarrow> sm_added (slot_map t) k {} slot (Some v) m \<longrightarrow> may_evict t v"
proof (intro allI impI)
  fix slot v m assume a: "slot_of t k = None" "sm_added (slot_map t) k {} slot (Some v) m"
  note S = sm_added_Some [OF assms(1) a]
  show "may_evict t v"
    using assms(2) [OF S(4)] S(2,3) by (auto simp: evictable_def may_evict_def split: if_splits)
qed

definition kept :: "'q \<Rightarrow> 'q key set \<Rightarrow> ('q, 'a) tier \<Rightarrow> ('q, 'a) tier \<Rightarrow> bool" where
  "kept q N t t' \<longleftrightarrow>
     tier_inv q t' \<and> content t' = content t \<and> tier_frame t t' \<and> evictable N t' \<and>
     dom (slot_of t) \<inter> N \<subseteq> dom (slot_of t')"

lemma kept_touch:
  assumes "kept q N t0 t" "slot_of t k = Some s"
  obtains m where "sm_get (slot_map t) k = Inr (s, m)" "kept q N t0 (t\<lparr>slot_map := m\<rparr>)"
    "sm_slot m = slot_of t" "sm_key_to_slot m = AList.delete k (sm_key_to_slot (slot_map t)) @ [(k, s)]"
proof -
  have inv: "tier_step_inv q {} [] t" using assms(1) by (simp add: kept_def tier_inv_def)
  from touch_step [OF inv assms(2)] obtain m where m: "sm_get (slot_map t) k = Inr (s, m)"
    "tier_step_inv q {} [] (t\<lparr>slot_map := m\<rparr>)" "content (t\<lparr>slot_map := m\<rparr>) = content t"
    "sm_slot m = slot_of t" "sm_capacity m = sm_capacity (slot_map t)"
    "sm_key_to_slot m = AList.delete k (sm_key_to_slot (slot_map t)) @ [(k, s)]" by blast
  have "tier_frame t0 (t\<lparr>slot_map := m\<rparr>)"
    by (rule tier_frame_trans [of _ t]) (use assms(1) m(5) in \<open>simp_all add: kept_def\<close>)
  then have "kept q N t0 (t\<lparr>slot_map := m\<rparr>)"
    using assms(1) m by (simp add: kept_def tier_inv_def evictable_def)
  with m(1,4,6) show ?thesis by (intro that [of m])
qed

text \<open>The touching pass puts the resident needed keys at the recent end.\<close>

lemma touch_loop:
  assumes "kept q N t0 t" "sm_recent_but N todo (slot_map t)" "(\<lambda>b. (q, b)) ` set xs \<subseteq> N"
  shows "\<exists>t'. for_each xs (touch_one q) t = Inr t' \<and> kept q N t0 t' \<and>
    sm_recent_but N (todo - (\<lambda>b. (q, b)) ` set xs) (slot_map t') \<and> slot_of t' = slot_of t"
proof -
  let ?P = "\<lambda>i t'. kept q N t0 t' \<and>
    sm_recent_but N (todo - (\<lambda>b. (q, b)) ` set (take i xs)) (slot_map t') \<and> slot_of t' = slot_of t"
  have "\<exists>u'. touch_one q (xs ! i) u = Inr u' \<and> ?P (Suc i) u'" if i: "i < length xs" and P: "?P i u" for i u
  proof -
    let ?k = "(q, xs ! i)"
    have eq: "todo - (\<lambda>b. (q, b)) ` set (take (Suc i) xs) =
        (todo - (\<lambda>b. (q, b)) ` set (take i xs)) - {?k}"
      using i by (auto simp: take_Suc_conv_app_nth)
    have kN: "?k \<in> N" using assms(3) i by auto
    show ?thesis
    proof (cases "slot_of u ?k")
      case None
      then show ?thesis
        using P sm_recent_but_skip [of N _ "slot_map u" ?k]
        unfolding eq by (auto simp: touch_one_def sm_contains_iff)
    next
      case (Some s)
      with P obtain m where m: "sm_get (slot_map u) ?k = Inr (s, m)" "kept q N t0 (u\<lparr>slot_map := m\<rparr>)"
        "sm_slot m = slot_of u" "sm_key_to_slot m = AList.delete ?k (sm_key_to_slot (slot_map u)) @ [(?k, s)]"
        by (blast elim: kept_touch)
      have "touch_one q (xs ! i) u = Inr (u\<lparr>slot_map := m\<rparr>)"
        using m(1) Some by (simp add: touch_one_def sm_contains_iff domIff)
      then show ?thesis
        using P m sm_recent_but_get [OF _ kN m(4)] unfolding eq by auto
    qed
  qed
  then show ?thesis
    using for_each_total [of ?P t xs "touch_one q"] assms by simp
qed

text \<open>One round of the second pass, provided the victim is not a needed key.\<close>

lemma ensure_one_kept:
  assumes kp: "kept q N t0 t" and sync: "stream_pool t = None" and held: "(q, b) \<in> dom (content t)"
    and vic: "\<And>slot v m. slot_of t (q, b) = None \<Longrightarrow>
      sm_added (slot_map t) (q, b) (protected_keys t q) slot (Some v) m \<Longrightarrow> v \<notin> N"
  shows "\<exists>t'. ensure_one_sync q b t = Inr t' \<and> kept q N t0 t' \<and>
    insert (q, b) (dom (slot_of t) \<inter> N) \<subseteq> dom (slot_of t') \<and>
    ((\<exists>s. slot_of t (q, b) = Some s \<and>
        sm_key_to_slot (slot_map t') = AList.delete (q, b) (sm_key_to_slot (slot_map t)) @ [((q, b), s)]) \<or>
     (\<exists>slot ev. slot_of t (q, b) = None \<and>
        sm_added (slot_map t) (q, b) (protected_keys t q) slot ev (slot_map t')))"
proof (cases "slot_of t (q, b)")
  case (Some s)
  with kp obtain m where m: "sm_get (slot_map t) (q, b) = Inr (s, m)" "kept q N t0 (t\<lparr>slot_map := m\<rparr>)"
    "sm_slot m = slot_of t"
    "sm_key_to_slot m = AList.delete (q, b) (sm_key_to_slot (slot_map t)) @ [((q, b), s)]"
    by (blast elim: kept_touch)
  then show ?thesis using ensure_one_hit [OF Some m(1)] Some
    by (intro exI [of _ "t\<lparr>slot_map := m\<rparr>"]) (auto simp: domI)
next
  case None
  have inv: "tier_inv q t" and ev: "evictable N t" using kp by (simp_all add: kept_def)
  note D = tier_step_invD [OF inv [unfolded tier_inv_def]]
  obtain c where c: "map_of (backup t) (q, b) = Some c" using held None by (auto simp: content_None)
  have "may_evict t v" if "sm_added (slot_map t) (q, b) (protected_keys t q) slot (Some v) m" for slot v m
    using vic [OF None that] ev sm_added_Some(2) [OF D(4) None that]
    by (auto simp: may_evict_def evictable_def split: if_splits)
  with ensure_one_miss [OF inv sync None c] obtain t' slot ev where
    t': "ensure_one_sync q b t = Inr t'" "tier_inv q t'" "content t' = content t" "tier_frame t t'"
      "sm_added (slot_map t) (q, b) (protected_keys t q) slot ev (slot_map t')"
      "host_slots t' = host_slots t"
      "\<not> enable_write_through t \<Longrightarrow>
         length (cpu_free t') = length (cpu_free t) + (if ev = None then 1 else 0)" by metis
  note F = tier_frame_eqs [OF t'(4)] and sl = sm_added_slot [OF D(4) None t'(5)]
  have vN: "v \<notin> N" if "ev = Some v" for v using vic [OF None] t'(5) that by blast
  have sub: "dom (slot_of t') \<subseteq> insert (q, b) (dom (slot_of t))" using sl by (auto split: if_splits)
  have "evictable N t'"
  proof (cases "enable_write_through t")
    case True
    then have "(q, b) \<in> dom (map_of (host_slots t))" using c by (simp add: backup_def domI)
    moreover have "dom (slot_of t) - N \<subseteq> dom (map_of (host_slots t))"
      using ev True by (simp add: evictable_def)
    ultimately have "dom (slot_of t') - N \<subseteq> dom (map_of (host_slots t))" using sub by blast
    then show ?thesis using True t'(6) F(3) by (simp add: evictable_def)
  next
    case False
    then show ?thesis using ev t'(7) F(1,3) by (auto simp: evictable_def)
  qed
  moreover have dN: "dom (slot_of t) \<inter> N \<subseteq> dom (slot_of t')"
  proof
    fix k assume "k \<in> dom (slot_of t) \<inter> N"
    then show "k \<in> dom (slot_of t')" using sl [of k] vN [of k] by (auto simp: domIff)
  qed
  moreover have "dom (slot_of t0) \<inter> N \<subseteq> dom (slot_of t')" using kp dN unfolding kept_def by blast
  moreover have "tier_frame t0 t'" using kp t'(4) by (auto simp: kept_def intro: tier_frame_trans)
  ultimately have "kept q N t0 t'" using kp t'(2,3) by (simp add: kept_def)
  moreover have "(q, b) \<in> dom (slot_of t')" using sl [of "(q, b)"] by (simp add: domI)
  ultimately show ?thesis using t'(1,5) None dN by blast
qed

text \<open>The second pass without protection: every key of the selection ends up resident.\<close>

lemma ensure_loop:
  assumes kp: "kept q N t0 t" and sync: "stream_pool t0 = None" and bo: "block_ordering t0 \<noteq> Mixture"
    and N: "finite N" "card N \<le> sm_capacity (slot_map t0)" and rec: "sm_recent N (slot_map t)"
    and xs: "(\<lambda>b. (q, b)) ` set xs \<subseteq> N \<inter> dom (content t0)"
  shows "\<exists>t'. for_each xs (ensure_one_sync q) t = Inr t' \<and> kept q N t0 t' \<and>
    (\<lambda>b. (q, b)) ` set xs \<subseteq> dom (slot_of t')"
proof -
  let ?P = "\<lambda>i u. kept q N t0 u \<and> sm_recent N (slot_map u) \<and>
    (\<lambda>b. (q, b)) ` set (take i xs) \<subseteq> dom (slot_of u)"
  have "\<exists>u'. ensure_one_sync q (xs ! i) u = Inr u' \<and> ?P (Suc i) u'"
    if i: "i < length xs" and P: "?P i u" for i u
  proof -
    let ?k = "(q, xs ! i)"
    have inv: "sm_inv (slot_map u)" and fr: "tier_frame t0 u" and co: "content u = content t0"
      using P by (auto simp: kept_def tier_inv_def dest: tier_step_invD)
    note F = tier_frame_eqs [OF fr]
    have "?k \<in> (\<lambda>b. (q, b)) ` set xs" using i by simp
    then have kN: "?k \<in> N" "?k \<in> dom (content u)" unfolding co using xs by blast+
    have prot: "protected_keys u q = {}" using bo F(5) by (simp add: protected_keys_def)
    have rec_add: "sm_recent N m'" "ev = Some v \<Longrightarrow> v \<notin> N"
      if "slot_of u ?k = None" "sm_added (slot_map u) ?k {} slot ev m'" for slot ev m' v
      using sm_recent_add [OF inv that(1) _ N(1) _ kN(1) that(2)] P N(2) F(8) by auto
    have "kept q N t0 u" "stream_pool u = None" using P F(2) sync by auto
    moreover have "v \<notin> N" if "slot_of u ?k = None"
      "sm_added (slot_map u) ?k (protected_keys u q) slot (Some v) m" for slot v m
      using rec_add(2) [of slot "Some v" m v] that by (simp add: prot)
    ultimately have "\<exists>u'. ensure_one_sync q (xs ! i) u = Inr u' \<and> kept q N t0 u' \<and>
        insert ?k (dom (slot_of u) \<inter> N) \<subseteq> dom (slot_of u') \<and>
        ((\<exists>s. slot_of u ?k = Some s \<and>
           sm_key_to_slot (slot_map u') = AList.delete ?k (sm_key_to_slot (slot_map u)) @ [(?k, s)]) \<or>
         (\<exists>slot ev. slot_of u ?k = None \<and>
           sm_added (slot_map u) ?k (protected_keys u q) slot ev (slot_map u')))"
      using kN(2) by (intro ensure_one_kept)
    then obtain u' where
      u': "ensure_one_sync q (xs ! i) u = Inr u'" "kept q N t0 u'"
        "insert ?k (dom (slot_of u) \<inter> N) \<subseteq> dom (slot_of u')"
        "(\<exists>s. slot_of u ?k = Some s \<and>
           sm_key_to_slot (slot_map u') = AList.delete ?k (sm_key_to_slot (slot_map u)) @ [(?k, s)]) \<or>
         (\<exists>slot ev. slot_of u ?k = None \<and> sm_added (slot_map u) ?k {} slot ev (slot_map u'))"
      unfolding prot by blast
    have R: "sm_recent N (slot_map u)" using P by simp
    from u'(4) have "sm_recent N (slot_map u')"
      by (elim disjE exE conjE) (erule sm_recent_get [OF R kN(1)], erule (1) rec_add(1))
    moreover have "(\<lambda>b. (q, b)) ` set (take i xs) \<subseteq> N" using xs set_take_subset [of i xs] by blast
    then have "(\<lambda>b. (q, b)) ` set (take (Suc i) xs) \<subseteq> dom (slot_of u')"
      using P u'(3) i by (simp add: take_Suc_conv_app_nth) blast
    ultimately show ?thesis using u'(1,2) by blast
  qed
  from for_each_total [of ?P t xs "ensure_one_sync q", OF _ this] kp rec show ?thesis by auto
qed

text \<open>The second pass under any ordering: nothing is lost.\<close>

lemma ensure_loop_any:
  assumes kp: "kept q {} t0 t" and sync: "stream_pool t0 = None"
    and xs: "(\<lambda>b. (q, b)) ` set xs \<subseteq> dom (content t0)"
  shows "\<exists>t'. for_each xs (ensure_one_sync q) t = Inr t' \<and> kept q {} t0 t'"
proof -
  have "\<exists>u'. ensure_one_sync q (xs ! i) u = Inr u' \<and> kept q {} t0 u'"
    if i: "i < length xs" and P: "kept q {} t0 u" for i u
  proof -
    have fr: "tier_frame t0 u" and co: "content u = content t0" using P by (auto simp: kept_def)
    have "(q, xs ! i) \<in> (\<lambda>b. (q, b)) ` set xs" using i by simp
    then have "(q, xs ! i) \<in> dom (content u)" unfolding co using xs by blast
    moreover have "stream_pool u = None" using tier_frame_eqs(2) [OF fr] sync by simp
    ultimately show ?thesis using ensure_one_kept [OF P] by blast
  qed
  from for_each_total [of "\<lambda>_. kept q {} t0" t xs "ensure_one_sync q", OF kp this] show ?thesis .
qed

lemma kept_stats [simp]: "kept q N t (t'\<lparr>stats := st\<rparr>) = kept q N t t'"
  by (simp add: kept_def tier_inv_def evictable_def)

lemma kept_refl: "tier_inv q t \<Longrightarrow> evictable N t \<Longrightarrow> kept q N t t"
  by (simp add: kept_def)

lemma timed_ensure_sync_eq:
  "for_each ids (ensure_one_sync q) t = Inr t' \<Longrightarrow>
   \<exists>st. timed_ensure_sync t q ids = Inr (t'\<lparr>stats := st\<rparr>)"
  by (auto simp: timed_ensure_sync_def intro: exI [of _ "stats t'"])

text \<open>Both variants of the synchronous second pass end in the state of the loop, counters apart.\<close>

lemma ensure_resident_sync:
  assumes "touch_resident t q ids keep = Inr u" "stream_pool u = None"
    and "for_each ids (ensure_one_sync q) u = Inr t'"
  shows "\<exists>st. ensure_resident t q ids keep = Inr (None, t'\<lparr>stats := st\<rparr>)"
  using assms timed_ensure_sync_eq [OF assms(3)]
  by (auto simp: ensure_resident_def intro: exI [of _ "stats t'"])

text \<open>The touching pass over both lists.\<close>

lemma touch_resident_kept:
  assumes "tier_inv q t" "evictable N t" "(\<lambda>b. (q, b)) ` (set ids \<union> set keep) = N"
  shows "\<exists>u. touch_resident t q ids keep = Inr u \<and> kept q N t u \<and> sm_recent N (slot_map u)"
proof -
  from touch_loop [OF kept_refl [OF assms(1,2)] sm_recent_but_start, of keep] assms(3) obtain u where
    u: "for_each keep (touch_one q) t = Inr u" "kept q N t u"
      "sm_recent_but N (N - (\<lambda>b. (q, b)) ` set keep) (slot_map u)" by auto
  from touch_loop [OF u(2,3), of ids] assms(3) obtain w where
    w: "for_each ids (touch_one q) u = Inr w" "kept q N t w"
      "sm_recent_but N (N - (\<lambda>b. (q, b)) ` set keep - (\<lambda>b. (q, b)) ` set ids) (slot_map w)" by auto
  have "N - (\<lambda>b. (q, b)) ` set keep - (\<lambda>b. (q, b)) ` set ids = {}" using assms(3) by auto
  with u(1) w show ?thesis by (auto simp: touch_resident_def intro: sm_recent_but_done)
qed

lemma touch_resident_any:
  assumes "tier_inv q t" "evictable {} t"
  shows "\<exists>u. touch_resident t q ids keep = Inr u \<and> kept q {} t u"
proof -
  have "\<exists>u'. touch_one q (xs ! i) u = Inr u' \<and> kept q {} t u'" if "kept q {} t u" for i u and xs :: "nat list"
  proof (cases "slot_of u (q, xs ! i)")
    case None
    then show ?thesis using that by (auto simp: touch_one_def sm_contains_iff)
  next
    case (Some s)
    then show ?thesis using kept_touch [OF that Some]
      by (metis chain_Inr domI old.prod.case sm_contains_iff touch_one_def)
  qed
  then have "\<exists>u'. for_each xs (touch_one q) u = Inr u' \<and> kept q {} t u'" if "kept q {} t u" for u xs
    using for_each_total [of "\<lambda>_. kept q {} t" u xs "touch_one q"] that by blast
  with kept_refl [OF assms] show ?thesis unfolding touch_resident_def by (metis chain_Inr)
qed

lemma ensure_resident_kept:
  assumes "tier_inv q t" "stream_pool t = None" "block_ordering t \<noteq> Mixture"
    and "\<forall>b \<in> set ids. (q, b) \<in> dom (content t)"
    and "card (set ids \<union> set keep) \<le> sm_capacity (slot_map t)"
    and "evictable ((\<lambda>b. (q, b)) ` (set ids \<union> set keep)) t"
  shows "\<exists>t'. ensure_resident t q ids keep = Inr (None, t') \<and>
    kept q ((\<lambda>b. (q, b)) ` (set ids \<union> set keep)) t t' \<and> (\<lambda>b. (q, b)) ` set ids \<subseteq> dom (slot_of t')"
proof -
  let ?N = "(\<lambda>b. (q, b)) ` (set ids \<union> set keep)"
  from touch_resident_kept [OF assms(1,6)] obtain u where
    u: "touch_resident t q ids keep = Inr u" "kept q ?N t u" "sm_recent ?N (slot_map u)" by auto
  have c: "card ?N \<le> sm_capacity (slot_map t)"
    using assms(5) by (simp add: card_image inj_on_def)
  have "(\<lambda>b. (q, b)) ` set ids \<subseteq> ?N \<inter> dom (content t)" using assms(4) by blast
  from ensure_loop [OF u(2) assms(2,3) _ c u(3) this] obtain t' where
    t': "for_each ids (ensure_one_sync q) u = Inr t'" "kept q ?N t t'"
      "(\<lambda>b. (q, b)) ` set ids \<subseteq> dom (slot_of t')" by auto
  have "stream_pool u = None" using u(2) assms(2) by (simp add: kept_def tier_frame_def)
  from ensure_resident_sync [OF u(1) this t'(1)] obtain st where
    "ensure_resident t q ids keep = Inr (None, t'\<lparr>stats := st\<rparr>)" by blast
  moreover have "kept q ?N t (t'\<lparr>stats := st\<rparr>)" using t'(2) by simp
  ultimately show ?thesis using t'(3) by (intro exI [of _ "t'\<lparr>stats := st\<rparr>"]) simp
qed

section \<open>Properties\<close>

text \<open>
  C3. A call of \<open>ensure_resident\<close> for a selection the tier holds, in the synchronous mode
  and without protection (orderings \<open>lru\<close> and \<open>prefetch\<close>): if the selection together with
  the blocks to keep fits into the arena and what lies outside can be evicted, then the call
  returns, every selected block is resident, every block to keep that was resident still is,
  no block the tier holds is lost or changed, and the invariant is kept.
\<close>

theorem ensure_resident_correct:
  assumes "tier_inv q t" "stream_pool t = None" "block_ordering t \<noteq> Mixture"
    and "\<forall>b \<in> set ids. (q, b) \<in> dom (content t)"
    and "card (set ids \<union> set keep) \<le> sm_capacity (slot_map t)"
    and "evictable ((\<lambda>b. (q, b)) ` (set ids \<union> set keep)) t"
  shows "\<exists>t'. ensure_resident t q ids keep = Inr (None, t') \<and> tier_inv q t' \<and>
    content t' = content t \<and> (\<forall>b \<in> set ids. is_resident t' q b) \<and>
    (\<forall>b \<in> set keep. is_resident t q b \<longrightarrow> is_resident t' q b)"
proof -
  from ensure_resident_kept [OF assms] obtain t' where t': "ensure_resident t q ids keep = Inr (None, t')"
    "kept q ((\<lambda>b. (q, b)) ` (set ids \<union> set keep)) t t'" "(\<lambda>b. (q, b)) ` set ids \<subseteq> dom (slot_of t')" by blast
  then show ?thesis by (intro exI [of _ t']) (auto simp: kept_def is_resident_def sm_contains_iff simp del: domIff)
qed

lemma ex_tier_sel [simp]:
  "stream_pool (ex_tier bord) = None" "block_ordering (ex_tier bord) = bord"
  "sm_capacity (slot_map (ex_tier bord)) = 2" "evictable N (ex_tier bord)"
  by (simp_all add: ex_tier_def ex_new_def evictable_def)

lemma ex_tier_content: "dom (content (ex_tier bord)) = {(7, 0), (7, 1), (7, 2)}"
  by (auto simp: content_def ex_tier_def ex_new_def backup_def split: option.splits if_splits)

theorem ensure_resident_correct_witness:
  "\<exists>t'. ensure_resident (ex_tier Lru) 7 [0, 1] [] = Inr (None, t') \<and> tier_inv 7 t' \<and>
    content t' = content (ex_tier Lru) \<and> (\<forall>b \<in> {0, 1}. is_resident t' 7 b)"
  using ensure_resident_correct [OF ex_tier_inv, of Lru "[0, 1]" "[]"] by (auto simp: ex_tier_content)

text \<open>
  C10. In the synchronous mode and under every ordering, \<open>mixture\<close> included, a call of
  \<open>ensure_resident\<close> for blocks the tier holds returns and is a no-op on the content: each block
  is moved, never lost or changed. The host must be able to back whichever block is evicted:
  under write-through it has a copy of every resident block, otherwise it has a free slot.
\<close>

theorem ensure_resident_content:
  assumes "tier_inv q t" "stream_pool t = None" "evictable {} t"
    and "\<forall>b \<in> set ids. (q, b) \<in> dom (content t)"
  shows "\<exists>t'. ensure_resident t q ids keep = Inr (None, t') \<and> tier_inv q t' \<and> content t' = content t"
proof -
  from touch_resident_any [OF assms(1,3)] obtain u where
    u: "touch_resident t q ids keep = Inr u" "kept q {} t u" by blast
  have "(\<lambda>b. (q, b)) ` set ids \<subseteq> dom (content t)" using assms(4) by blast
  from ensure_loop_any [OF u(2) assms(2) this] obtain t' where
    t': "for_each ids (ensure_one_sync q) u = Inr t'" "kept q {} t t'" by blast
  have "stream_pool u = None" using u(2) assms(2) by (simp add: kept_def tier_frame_def)
  from ensure_resident_sync [OF u(1) this t'(1)] obtain st where
    "ensure_resident t q ids keep = Inr (None, t'\<lparr>stats := st\<rparr>)" by blast
  then show ?thesis using t'(2) by (intro exI [of _ "t'\<lparr>stats := st\<rparr>"]) (simp add: kept_def tier_inv_def)
qed

theorem ensure_resident_content_witness:
  "\<exists>t'. ensure_resident (ex_tier Mixture) 7 [0, 1] [2] = Inr (None, t') \<and> tier_inv 7 t' \<and>
    content t' = content (ex_tier Mixture)"
  using ensure_resident_content [OF ex_tier_inv, of Mixture "[0, 1]" "[2]"] by (simp add: ex_tier_content)

end
