(* ===== verification/Tier_Tokens.thy ===== *)
theory Tier_Tokens
  imports Tier_Prefill Tier_Load
begin

text \<open>
  The tier as a store of tokens: \<open>holds_tokens q toks t\<close> says that the blocks the tier
  holds for sequence \<open>q\<close> are the tokens \<open>toks\<close>, the K and V rows of token \<open>i\<close> in row
  \<open>i mod block_size\<close> of block \<open>i div block_size\<close>. The prefill of the shared-KV mode
  establishes it and the append of one token extends it.
\<close>

definition holds_tokens :: "'q \<Rightarrow> ('a \<times> 'a) list \<Rightarrow> ('q, 'a) tier \<Rightarrow> bool" where
  "holds_tokens q toks t \<longleftrightarrow>
     dom (content t) = {q} \<times> {b. b * bsz t < length toks} \<and>
     (\<forall>i < length toks. \<exists>kb vb. content t (q, i div bsz t) = Some (kb, vb) \<and>
        (kb ! (i mod bsz t), vb ! (i mod bsz t)) = toks ! i)"

lemma content_length:
  assumes "tier_inv q t" "content t k = Some (kb, vb)"
  shows "length kb = bsz t" "length vb = bsz t"
proof -
  note D = tier_step_invD [OF assms(1) [unfolded tier_inv_def]]
  have "length kb = bsz t \<and> length vb = bsz t"
  proof (cases "slot_of t k")
    case (Some s)
    then show ?thesis
      using assms(2) D(1) sm_inv_slot_less [OF D(4) Some] by (auto simp: content_Some arena_at_def arena_ok_def)
  next
    case None
    then obtain c where c: "map_of (backup t) k = Some c" "host_at t c = (kb, vb)"
      using assms(2) by (auto simp: content_None)
    then show ?thesis using cs_at_length [OF D(6) host_slot_less [OF D(2) c(1)]] by simp
  qed
  then show "length kb = bsz t" "length vb = bsz t" by simp_all
qed

section \<open>Prefill of the shared-KV mode\<close>

lemma py_slice_length [simp]: "hi \<le> length xs \<Longrightarrow> lo \<le> hi \<Longrightarrow> length (py_slice xs lo hi) = hi - lo"
  by (simp add: py_slice_def)

lemma py_slice_nth [simp]: "hi \<le> length xs \<Longrightarrow> lo + i < hi \<Longrightarrow> py_slice xs lo hi ! i = xs ! (lo + i)"
  by (simp add: py_slice_def)

abbreviation prompt_block :: "'a list \<Rightarrow> 'a list \<Rightarrow> nat \<Rightarrow> nat \<Rightarrow> 'a list \<times> 'a list" where
  "prompt_block key val bs b \<equiv> (py_slice key (b * bs) (b * bs + bs), py_slice val (b * bs) (b * bs + bs))"

text \<open>The summaries the loop has registered after \<open>i\<close> blocks.\<close>

definition summarised ::
  "'a torch_ops \<Rightarrow> 'a list \<Rightarrow> nat \<Rightarrow> ('q, 'a) tier \<Rightarrow> ('q, 'a) tier \<Rightarrow> bool" where
  "summarised ops key i t0 t \<longleftrightarrow>
     ss_digest_mode (summary_store t) = ss_digest_mode (summary_store t0) \<and>
     (\<forall>l b. ss_in_range (summary_store t) l b = ss_in_range (summary_store t0) l b) \<and>
     (\<forall>b < i. ss_at (summary_store t) (layer_idx t0) b =
        block_digest ops (ss_digest_mode (summary_store t0))
          (py_slice key (b * bsz t0) (b * bsz t0 + bsz t0)))"

lemma ingest_loop:
  assumes fresh: "tier_fresh q t0" and sync: "stream_pool t0 = None"
    and len: "n * bsz t0 \<le> length key" "n * bsz t0 \<le> length val"
    and rg: "\<forall>b < n. res_in_range (residency t0) (layer_idx t0) b \<and>
      ss_in_range (summary_store t0) (layer_idx t0) b"
    and cap: "n - lo < sm_capacity (slot_map t0)"
    and host: "(if enable_write_through t0 then n else min n lo) \<le> length (cpu_free t0)"
  shows "\<exists>t'. for_each [0..<n] (ingest_block ops q lo key val (bsz t0)) t0 = Inr t' \<and>
    prefilled q lo n (prompt_block key val (bsz t0)) t0 t' \<and> summarised ops key n t0 t'"
proof -
  let ?bs = "bsz t0" and ?kv = "prompt_block key val (bsz t0)"
  let ?f = "ingest_block ops q lo key val ?bs"
  let ?P = "\<lambda>i t. prefilled q lo i ?kv t0 t \<and> summarised ops key i t0 t"
  have "\<exists>u'. ?f ([0..<n] ! i) u = Inr u' \<and> ?P (Suc i) u'"
    if i: "i < length [0..<n]" and P: "?P i u" for i u
  proof -
    have "Suc i * ?bs \<le> n * ?bs" using i by (intro mult_le_mono1) simp
    then have le: "i * ?bs + ?bs \<le> length key" "i * ?bs + ?bs \<le> length val" using len by simp_all
    have fr: "tier_frame t0 u" using P by (simp add: prefilled_def)
    note F = tier_frame_eqs [OF fr]
    define kb vb where "kb = fst (?kv i)" and "vb = snd (?kv i)"
    have l: "length kb = ?bs" "length vb = ?bs" using le by (simp_all add: kb_def vb_def)
    have "ss_in_range (summary_store u) (layer_idx u) i" "length kb = bsz u"
      using P i rg F(1,7) l by (simp_all add: summarised_def)
    from ss_filled_ok [OF this, of ops] obtain ss where
      ss: "ss_on_block_filled ops (summary_store u) (layer_idx u) i kb = Inr ss"
        "ss_block_size ss = bsz u" "ss_digest_mode ss = ss_digest_mode (summary_store u)"
        "\<And>l b. ss_in_range ss l b = ss_in_range (summary_store u) l b"
        "\<And>l b. ss_at ss l b = (if l = layer_idx u \<and> b = i
           then block_digest ops (ss_digest_mode (summary_store u)) kb else ss_at (summary_store u) l b)"
      by blast
    define w where "w = u\<lparr>summary_store := ss\<rparr>"
    have Pw: "prefilled q lo i ?kv t0 w" using P ss(2) by (simp add: w_def)
    let ?g = "\<lambda>st. st\<lparr>block_filled := Suc (block_filled st)\<rparr>"
    have ev: "?f i u = (if lo \<le> i then keep_block ?g q i kb vb w else offload_block w q i kb vb)"
      using ss(1)
      by (simp add: ingest_block_def register_prefill_summary_def keep_block_def kb_def vb_def w_def Let_def
          del: chain_eq_Inr)
    have "res_in_range (residency t0) (layer_idx t0) i" using rg i by simp
    note A = prefilled_place(1) [OF Pw sync _ cap host this _ l, where f = ?g]
      prefilled_place(2) [OF Pw sync _ cap host this _ l]
    obtain u' where u': "?f i u = Inr u'" "prefilled q lo (Suc i) ?kv t0 u'" "summary_store u' = ss"
      using ev A i by (cases "lo \<le> i") (auto simp: kb_def vb_def w_def)
    have "summarised ops key (Suc i) t0 u'"
      using P ss(3,4,5) F(1) u'(3) by (simp add: summarised_def less_Suc_eq kb_def)
    with u' i show ?thesis by simp
  qed
  from for_each_total [of ?P t0 "[0..<n]" ?f, OF _ this] show ?thesis
    using prefilled_start [OF fresh] by (auto simp: summarised_def)
qed

text \<open>With a free arena slot nothing is evicted.\<close>

lemma claim_slot_free:
  assumes "tier_inv q t" "slot_of t k = None" "sm_free_slots (slot_map t) \<noteq> []"
  shows "claim_slot t k {} = claim_free_slot t k"
proof -
  note D = tier_step_invD [OF assms(1) [unfolded tier_inv_def]]
  from sm_add_new [OF D(4,5) assms(2), of "{}"] obtain slot ev m where
    m: "sm_add (slot_map t) k {} = Inr (slot, ev, m)" "sm_added (slot_map t) k {} slot ev m" by blast
  have "ev = None" using m(2) assms(3) by (cases rule: sm_added.cases) auto
  then show ?thesis using m(1) by (simp add: claim_slot_def claim_free_slot_def)
qed

lemma write_arena_prefix_ok:
  assumes "arena_ok t" "slot_of t k = Some s" "length kr = n" "length vr = n" "n \<le> bsz t"
  shows "write_arena_prefix t s n kr vr =
    Inr (t\<lparr>gpu_k := (gpu_k t)[s := kr @ drop n (gpu_k t ! s)],
           gpu_v := (gpu_v t)[s := vr @ drop n (gpu_v t ! s)]\<rparr>)"
  using arena_slot_less [OF assms(1,2)] assms by (simp add: write_arena_prefix_def arena_ok_def)

text \<open>The partial last block of the prompt: claimed, its first rows written, marked resident.\<close>

lemma ingest_partial:
  assumes P: "prefilled q lo n kv t0 t" and cap: "n - lo < sm_capacity (slot_map t0)"
    and rg: "res_in_range (residency t0) (layer_idx t0) n"
    and l: "length kr = p" "length vr = p" "p \<le> bsz t0"
  shows "\<exists>t' kb vb. chain (claim_slot t (q, n) {}) (\<lambda>(slot, t).
      chain (write_arena_prefix t slot p kr vr) (\<lambda>t. tm_residency mark_on_gpu t n)) = Inr t' \<and>
    tier_inv q t' \<and> tier_frame t0 t' \<and> content t' = (content t)((q, n) \<mapsto> (kr @ kb, vr @ vb)) \<and>
    dom (slot_of t') = insert (q, n) (dom (slot_of t)) \<and> summary_store t' = summary_store t"
proof -
  have inv: "tier_inv q t" and fr: "tier_frame t0 t" using P by (simp_all add: prefilled_def)
  note F = tier_frame_eqs [OF fr] and R = prefilled_room [OF P]
  have rg': "res_in_range (residency t) (layer_idx t) n" using rg F by simp
  from claim_free_slot_ok [OF inv R(1,2) rg' R(4) [OF cap]] obtain slot m where
    m: "claim_free_slot t (q, n) = Inr (slot, t\<lparr>slot_map := m\<rparr>)"
      "tier_step_inv q {(q, n)} [] (t\<lparr>slot_map := m\<rparr>)" "sm_slot m = (slot_of t)((q, n) \<mapsto> slot)"
      "\<forall>j. j \<noteq> (q, n) \<longrightarrow> content (t\<lparr>slot_map := m\<rparr>) j = content t j"
      "sm_capacity m = sm_capacity (slot_map t)" by blast
  define u where "u = t\<lparr>slot_map := m\<rparr>"
  define kb vb where "kb = drop p (gpu_k u ! slot)" and "vb = drop p (gpu_v u ! slot)"
  have k: "slot_of u (q, n) = Some slot" "map_of (backup u) (q, n) = None" "bsz u = bsz t0"
    "tier_frame t u" "summary_store u = summary_store t" using m(3,5) R(2) F(7) by (simp_all add: u_def)
  note I = m(2) [folded u_def]
  have ar: "arena_ok u" using I by (rule tier_step_invD)
  have len: "length (kr @ kb) = bsz u" "length (vr @ vb) = bsz u"
    using ar arena_slot_less [OF ar k(1)] l k(3) by (auto simp: arena_ok_def kb_def vb_def)
  from write_mark_step [OF I k(1,2) len] obtain t' where
    t': "tm_residency mark_on_gpu
        (u\<lparr>gpu_k := (gpu_k u)[slot := kr @ kb], gpu_v := (gpu_v u)[slot := vr @ vb]\<rparr>) n = Inr t'"
      "tier_step_inv q {} [] t'" "content t' = (content u)((q, n) \<mapsto> (kr @ kb, vr @ vb))"
      "tier_frame u t'" "slot_map t' = slot_map u" "summary_store t' = summary_store u" by blast
  have "chain (claim_slot t (q, n) {}) (\<lambda>(slot, t).
      chain (write_arena_prefix t slot p kr vr) (\<lambda>t. tm_residency mark_on_gpu t n)) = Inr t'"
    using claim_slot_free [OF inv R(1) R(4) [OF cap]] m(1)
      write_arena_prefix_ok [OF ar k(1) l(1,2)] l(3) k(3) t'(1)
    by (simp add: u_def [symmetric] kb_def vb_def del: chain_eq_Inr)
  moreover have "content t' = (content t)((q, n) \<mapsto> (kr @ kb, vr @ vb))"
    using t'(3) m(4) by (auto simp: fun_eq_iff u_def)
  moreover have "tier_frame t0 t'"
    using fr k(4) t'(4) by (blast intro: tier_frame_trans)
  moreover have "dom (slot_of t') = insert (q, n) (dom (slot_of t))"
    using t'(5) m(3) by (simp add: u_def dom_fun_upd)
  ultimately show ?thesis using t'(2,6) k(5) unfolding tier_inv_def by auto
qed

lemma zip_take_nth:
  "i < L \<Longrightarrow> L \<le> length xs \<Longrightarrow> L \<le> length ys \<Longrightarrow> zip (take L xs) (take L ys) ! i = (xs ! i, ys ! i)"
  by simp

lemma block_start_less:
  assumes "0 < (bs :: nat)"
  shows "b * bs < L \<longleftrightarrow> b < L div bs \<or> (b = L div bs \<and> L mod bs \<noteq> 0)"
proof -
  have nL: "L div bs * bs + L mod bs = L" by simp
  consider "b < L div bs" | "b = L div bs" | "L div bs < b" by linarith
  then show ?thesis
  proof cases
    case 1
    then have "b * bs + bs \<le> L div bs * bs" using mult_le_mono1 [of "Suc b" "L div bs" bs] by simp
    then have "b * bs < L" using assms nL by linarith
    then show ?thesis using 1 by simp
  next
    case 2
    then show ?thesis using nL by (metis add_0_right less_add_same_cancel1 nat_neq_iff neq0_conv)
  next
    case 3
    then have "L div bs * bs + bs \<le> b * bs" using mult_le_mono1 [of "Suc (L div bs)" b bs] by simp
    moreover have "L mod bs < bs" using assms by simp
    ultimately have "L \<le> b * bs" using nL by linarith
    then show ?thesis using 3 by simp
  qed
qed

text \<open>The blocks of the prompt, the partial one included, hold its tokens.\<close>

lemma holds_prompt:
  assumes b: "bsz t = bs" and bs: "0 < bs" and L: "L \<le> length key" "L \<le> length val"
    and c: "content t = (\<lambda>k. if fst k = q \<and> snd k < L div bs
        then Some (prompt_block key val bs (snd k)) else None)
      ((q, L div bs) := if L mod bs = 0 then None
        else Some (py_slice key (L div bs * bs) L @ kb, py_slice val (L div bs * bs) L @ vb))"
  shows "holds_tokens q (zip (take L key) (take L val)) t"
proof -
  let ?bs = bs and ?n = "L div bs"
  have nL: "?n * ?bs + L mod ?bs = L" by simp
  have dom: "b * ?bs < L \<longleftrightarrow> b < ?n \<or> (b = ?n \<and> L mod ?bs \<noteq> 0)" for b
    using block_start_less [OF bs] .
  have "\<exists>kb vb. content t (q, i div ?bs) = Some (kb, vb) \<and>
      (kb ! (i mod ?bs), vb ! (i mod ?bs)) = (key ! i, val ! i)" if i: "i < L" for i
  proof (cases "i div ?bs < ?n")
    case True
    then have "i div ?bs * ?bs + ?bs \<le> ?n * ?bs" using mult_le_mono1 [of "Suc (i div ?bs)" ?n ?bs] by simp
    then have "i div ?bs * ?bs + ?bs \<le> L" using nL by linarith
    moreover have "i div ?bs * ?bs + i mod ?bs < i div ?bs * ?bs + ?bs"
      using mod_less_divisor [OF bs, of i] by linarith
    ultimately show ?thesis using True L by (simp add: c)
  next
    case False
    then have e: "i div ?bs = ?n" using i by (simp add: div_le_mono le_antisym)
    have ie: "?n * ?bs + i mod ?bs = i" using e div_mult_mod_eq [of i ?bs] by simp
    then have "L mod ?bs \<noteq> 0" "i mod ?bs < L - ?n * ?bs" using i nL by linarith+
    then show ?thesis using i ie L e by (simp add: c nth_append)
  qed
  moreover have "dom (content t) = {q} \<times> {b. b * ?bs < L}"
    unfolding c dom by (auto simp: dom_def split: if_splits)
  ultimately show ?thesis using L b by (simp add: holds_tokens_def)
qed

text \<open>The tail of the method, after the loop.\<close>

definition ingest_rest ::
  "'q \<Rightarrow> nat \<Rightarrow> 'a list \<Rightarrow> 'a list \<Rightarrow> nat \<Rightarrow> nat \<Rightarrow> ('q, 'a) tier \<Rightarrow> ('q, 'a) tier result" where
  "ingest_rest q n key val L bs u =
     (let partial = L - n * bs in if 0 < partial then
        chain (claim_slot u (q, n) {}) (\<lambda>(slot, t). chain (write_arena_prefix t slot partial
          (py_slice key (n * bs) (n * bs + partial)) (py_slice val (n * bs) (n * bs + partial)))
          (\<lambda>t. tm_residency mark_on_gpu t n)) else Inr u)"

lemma ingest_rest_ok:
  assumes P: "prefilled q lo n (prompt_block key val (bsz t0)) t0 u"
    and cap: "n - lo < sm_capacity (slot_map t0)"
    and bs: "0 < bsz t0" and n: "n = L div bsz t0" "lo \<le> n" and L: "L \<le> length key" "L \<le> length val"
    and rg: "n * bsz t0 < L \<Longrightarrow> res_in_range (residency t0) (layer_idx t0) n"
  shows "\<exists>t'. ingest_rest q n key val L (bsz t0) u = Inr t' \<and> tier_inv q t' \<and> tier_frame t0 t' \<and>
    holds_tokens q (zip (take L key) (take L val)) t' \<and>
    dom (slot_of t') = {q} \<times> {b. lo \<le> b \<and> b * bsz t0 < L} \<and> summary_store t' = summary_store u"
proof -
  let ?bs = "bsz t0"
  have cu: "content u = (\<lambda>k. if fst k = q \<and> snd k < n then Some (prompt_block key val ?bs (snd k)) else None)"
    "dom (slot_of u) = {q} \<times> {lo..<n}" "tier_inv q u" "tier_frame t0 u" using P by (simp_all add: prefilled_def)
  have nL: "n * ?bs + L mod ?bs = L" by (simp add: n(1))
  note st = block_start_less [OF bs, of _ L, folded n(1)]
  have hold: "holds_tokens q (zip (take L key) (take L val)) t'"
    if "tier_frame t0 t'" "content t' = (content u)((q, n) := if L mod ?bs = 0 then None
      else Some (py_slice key (n * ?bs) L @ kb, py_slice val (n * ?bs) L @ vb))" for t' kb vb
    using that(2) unfolding cu(1) n(1)
    by (rule holds_prompt [OF tier_frame_eqs(7) [OF that(1)] bs L])
  show ?thesis
  proof (cases "L mod ?bs = 0")
    case True
    have "content u = (content u)((q, n) := None)" by (auto simp: cu(1) fun_eq_iff)
    then have "holds_tokens q (zip (take L key) (take L val)) u" using hold [OF cu(4)] True by simp
    moreover have "dom (slot_of u) = {q} \<times> {b. lo \<le> b \<and> b * ?bs < L}" unfolding cu(2) st using True by auto
    moreover have "ingest_rest q n key val L ?bs u = Inr u" using nL True by (simp add: ingest_rest_def)
    ultimately show ?thesis using cu(3,4) by auto
  next
    case False
    have p: "L - n * ?bs = L mod ?bs" "n * ?bs + L mod ?bs = L" "L mod ?bs \<le> ?bs" using nL bs by (auto simp: less_imp_le)
    let ?kr = "py_slice key (n * ?bs) L" and ?vr = "py_slice val (n * ?bs) L"
    have "length ?kr = L mod ?bs" "length ?vr = L mod ?bs" using L p by auto
    from ingest_partial [OF P cap rg this p(3)] False st obtain t' kb vb where
      t': "chain (claim_slot u (q, n) {}) (\<lambda>(slot, t). chain (write_arena_prefix t slot (L mod ?bs) ?kr ?vr)
          (\<lambda>t. tm_residency mark_on_gpu t n)) = Inr t'" "tier_inv q t'" "tier_frame t0 t'"
        "content t' = (content u)((q, n) \<mapsto> (?kr @ kb, ?vr @ vb))"
        "dom (slot_of t') = insert (q, n) (dom (slot_of u))" "summary_store t' = summary_store u" by blast
    have "ingest_rest q n key val L ?bs u = Inr t'"
      using t'(1) False by (simp add: ingest_rest_def p Let_def del: chain_eq_Inr)
    moreover have "dom (slot_of t') = {q} \<times> {b. lo \<le> b \<and> b * ?bs < L}"
      unfolding t'(5) cu(2) st using False n(2) by auto
    moreover have "holds_tokens q (zip (take L key) (take L val)) t'"
      using hold [OF t'(3)] t'(4) False by simp
    ultimately show ?thesis using t'(2,3,6) by auto
  qed
qed

lemma ingest_prompt_ok:
  assumes "tier_fresh q t" "stream_pool t = None" "q \<notin> trimmed t" "0 < bsz t"
    and "L \<le> length key" "L \<le> length val"
    and "\<forall>b. b * bsz t < L \<longrightarrow> res_in_range (residency t) (layer_idx t) b \<and>
      ss_in_range (summary_store t) (layer_idx t) b"
    and "(if enable_write_through t then L div bsz t else L div bsz t - keep_n t (L div bsz t))
      \<le> length (cpu_free t)"
  shows "\<exists>t'. prefill_ingest_kvshare ops t q (L div bsz t) key val (bsz t) (Some L) = Inr t' \<and>
    tier_inv q t' \<and> holds_tokens q (zip (take L key) (take L val)) t' \<and>
    tier_frame (t\<lparr>trimmed := insert q (trimmed t)\<rparr>) t' \<and>
    (\<forall>b. is_resident t' q b \<longleftrightarrow> L div bsz t - keep_n t (L div bsz t) \<le> b \<and> b * bsz t < L) \<and>
    (\<forall>b < L div bsz t. ss_at (summary_store t') (layer_idx t) b =
       block_digest ops (ss_digest_mode (summary_store t)) (fst (prompt_block key val (bsz t) b)))"
proof -
  define n lo t0 where "n = L div bsz t" and "lo = n - keep_n t n"
    and "t0 = t\<lparr>trimmed := insert q (trimmed t)\<rparr>"
  let ?kv = "prompt_block key val (bsz t)"
  have t0: "tier_fresh q t0" "stream_pool t0 = None" "residency t0 = residency t" "layer_idx t0 = layer_idx t"
    "bsz t0 = bsz t" "cpu_store t0 = cpu_store t" "enable_write_through t0 = enable_write_through t"
    "slot_map t0 = slot_map t" "summary_store t0 = summary_store t"
    using assms(1,2) by (simp_all add: t0_def)
  have cap: "n - lo < sm_capacity (slot_map t0)"
    using assms(1) keep_lo_room [of t n] tier_step_invD(5) [of q "{}" "[]" t] t0(8)
    by (simp add: tier_fresh_def tier_inv_def lo_def)
  note st = block_start_less [OF assms(4), of _ L, folded n_def]
  have nL: "n * bsz t + L mod bsz t = L" by (simp add: n_def)
  have rg: "\<forall>b < n. res_in_range (residency t0) (layer_idx t0) b \<and> ss_in_range (summary_store t0) (layer_idx t0) b"
    using assms(7) st t0 by simp
  have "(if enable_write_through t0 then n else min n lo) \<le> length (cpu_free t0)"
    using assms(8) t0 by (simp add: n_def lo_def split: if_splits)
  from ingest_loop [OF t0(1,2) _ _ rg cap this, of key val ops] nL assms(5,6) t0(5) obtain u where
    u: "for_each [0..<n] (ingest_block ops q lo key val (bsz t)) t0 = Inr u"
      "prefilled q lo n (prompt_block key val (bsz t0)) t0 u" "summarised ops key n t0 u" by auto
  have keep: "keep_n t0 n = keep_n t n" by (simp add: keep_n_def t0_def)
  have ev: "prefill_ingest_kvshare ops t q n key val (bsz t) (Some L) =
      ingest_rest q n key val L (bsz t) u"
    using assms(3) u(1) keep
    by (simp add: prefill_ingest_kvshare_def t0_def [symmetric] lo_def [symmetric] ingest_rest_def Let_def
        del: chain_eq_Inr)
  have "lo \<le> n" by (simp add: lo_def)
  with ingest_rest_ok [OF u(2) cap, of L] assms(4-7) st t0 n_def obtain t' where
    t': "ingest_rest q n key val L (bsz t) u = Inr t'" "tier_inv q t'" "tier_frame t0 t'"
      "holds_tokens q (zip (take L key) (take L val)) t'"
      "dom (slot_of t') = {q} \<times> {b. lo \<le> b \<and> b * bsz t < L}" "summary_store t' = summary_store u"
    by auto
  have "\<forall>b. is_resident t' q b \<longleftrightarrow> lo \<le> b \<and> b * bsz t < L"
    using t'(5) by (simp add: is_resident_def sm_contains_iff)
  moreover have "\<forall>b < n. ss_at (summary_store t') (layer_idx t) b =
      block_digest ops (ss_digest_mode (summary_store t)) (fst (?kv b))"
    using u(3) t'(6) t0 by (simp add: summarised_def)
  ultimately show ?thesis using ev t'(1-4) unfolding n_def lo_def t0_def by auto
qed

text \<open>
  C7. \<open>prefill_ingest_kvshare\<close> of a prompt of \<open>L\<close> tokens on a fresh tier, for a host
  pool with room for what does not fit: it returns, the tier then holds exactly the tokens of
  the prompt, the resident blocks are the last \<open>keep_n\<close> full ones and the live one, and the
  summary of every full block is the digest of its keys.
\<close>

theorem prefill_ingest_holds_prompt:
  assumes "tier_fresh q t" "stream_pool t = None" "q \<notin> trimmed t" "0 < bsz t"
    and "L \<le> length key" "L \<le> length val"
    and "\<forall>b. b * bsz t < L \<longrightarrow> res_in_range (residency t) (layer_idx t) b \<and>
      ss_in_range (summary_store t) (layer_idx t) b"
    and "(if enable_write_through t then L div bsz t else L div bsz t - keep_n t (L div bsz t))
      \<le> length (cpu_free t)"
  shows "\<exists>t'. prefill_ingest_kvshare ops t q (L div bsz t) key val (bsz t) (Some L) = Inr t' \<and>
    tier_inv q t' \<and> holds_tokens q (zip (take L key) (take L val)) t' \<and>
    (\<forall>b. is_resident t' q b \<longleftrightarrow> L div bsz t - keep_n t (L div bsz t) \<le> b \<and> b * bsz t < L) \<and>
    (\<forall>b < L div bsz t. ss_at (summary_store t') (layer_idx t) b =
       block_digest ops (ss_digest_mode (summary_store t)) (fst (prompt_block key val (bsz t) b)))"
  using ingest_prompt_ok [OF assms, of ops] by blast

definition ex_ops :: "int torch_ops" where
  "ex_ops = \<lparr>t_amax = (\<lambda>xs. foldr max xs 0), t_amin = (\<lambda>xs. foldr min xs 0),
     t_mean = (\<lambda>xs. sum_list xs div int (length xs)), t_add = (+), t_sub = (-),
     t_half = (\<lambda>x. x div 2), t_abs = abs\<rparr>"

lemma ex_new_range:
  "b < 4 \<Longrightarrow> res_in_range (residency (ex_new bord wt)) 0 b"
  "b < 4 \<Longrightarrow> ss_in_range (summary_store (ex_new bord wt)) 0 b"
  by (simp_all add: ex_new_def ss_in_range_def)

theorem prefill_ingest_holds_prompt_witness:
  "\<exists>t'. prefill_ingest_kvshare ex_ops (ex_new Lru False) 7 3 [10, 20, 30] [11, 21, 31] 1 (Some 3) = Inr t' \<and>
    tier_inv 7 t' \<and> holds_tokens 7 [(10, 11), (20, 21), (30, 31)] t'"
  using prefill_ingest_holds_prompt [OF ex_new_fresh [of 7 Lru False], of 3 "[10, 20, 30]" "[11, 21, 31]" ex_ops]
  by (auto simp: ex_new_simps ex_new_range)

section \<open>Appending a decoded token\<close>

lemma write_arena_row_ok:
  assumes "arena_ok t" "slot_of t k = Some s" "off < bsz t"
  shows "write_arena_row t s off k_tok v_tok =
    Inr (t\<lparr>gpu_k := (gpu_k t)[s := (gpu_k t ! s)[off := k_tok]],
           gpu_v := (gpu_v t)[s := (gpu_v t ! s)[off := v_tok]]\<rparr>)"
  using arena_slot_less [OF assms(1,2)] assms by (simp add: write_arena_row_def arena_ok_def)

text \<open>What happens when the token fills the block: summary, counter, durable copy.\<close>

definition append_full ::
  "'a torch_ops \<Rightarrow> 'q \<Rightarrow> nat \<Rightarrow> nat \<Rightarrow> ('q, 'a) tier \<Rightarrow> ('q, 'a) tier result" where
  "append_full ops q b slot t =
     chain (src_block t (Arena (layer_idx t) slot)) (\<lambda>(k, v).
     chain (register_prefill_summary ops t q b k) (\<lambda>t.
     let t = t\<lparr>stats := stats t\<lparr>block_filled := Suc (block_filled (stats t))\<rparr>\<rparr>
     in if enable_write_through t then mirror_to_host t q b (Arena (layer_idx t) slot) else Inr t))"

lemma append_full_ok:
  assumes inv: "tier_inv q t" and sync: "stream_pool t = None"
    and k: "slot_of t (q, b) = Some slot" and nb: "map_of (backup t) (q, b) = None"
    and ss: "ss_in_range (summary_store t) (layer_idx t) b"
    and free: "enable_write_through t \<Longrightarrow> cpu_free t \<noteq> []"
  shows "\<exists>t'. append_full ops q b slot t = Inr t' \<and> tier_inv q t' \<and> content t' = content t \<and>
    tier_frame t t' \<and> slot_map t' = slot_map t \<and>
    ss_at (summary_store t') (layer_idx t) b =
      block_digest ops (ss_digest_mode (summary_store t)) (fst (arena_at t slot))"
proof -
  note D = tier_step_invD [OF inv [unfolded tier_inv_def]]
  obtain kb vb where kv: "arena_at t slot = (kb, vb)" by force
  have l: "length kb = bsz t" "length vb = bsz t"
    using content_length [OF inv, of "(q, b)" kb vb] content_Some [OF k] kv by simp_all
  have src: "src_block t (Arena l slot) = Inr (kb, vb)" for l
    using arena_slot_less [OF D(1) k] kv by (simp add: src_block_def arena_at_def)
  from ss_filled_ok [OF ss l(1), of ops] obtain S where
    S: "ss_on_block_filled ops (summary_store t) (layer_idx t) b kb = Inr S" "ss_block_size S = bsz t"
      "ss_digest_mode S = ss_digest_mode (summary_store t)"
      "\<And>l' b'. ss_in_range S l' b' = ss_in_range (summary_store t) l' b'"
      "\<And>l' b'. ss_at S l' b' = (if l' = layer_idx t \<and> b' = b
         then block_digest ops (ss_digest_mode (summary_store t)) kb else ss_at (summary_store t) l' b')" by blast
  define u where "u = t\<lparr>summary_store := S, stats := stats t\<lparr>block_filled := Suc (block_filled (stats t))\<rparr>\<rparr>"
  have u: "tier_step_inv q {} [] u" "content u = content t" "tier_frame t u" "slot_map u = slot_map t"
    "summary_store u = S" "cpu_store u = cpu_store t" "enable_write_through u = enable_write_through t"
    "layer_idx u = layer_idx t" "stream_pool u = None" "arena_at u = arena_at t" "host_slots u = host_slots t"
    "residency u = residency t" "bsz u = bsz t"
    using inv S(2) sync by (simp_all add: u_def tier_inv_def)
  have src_u: "src_block u (Arena l slot) = Inr (kb, vb)" for l
    using src [of l] by (simp add: src_block_def u_def)
  have ev: "append_full ops q b slot t =
      (if enable_write_through t then mirror_to_host u q b (Arena (layer_idx t) slot) else Inr u)"
    using src S(1) by (simp add: append_full_def register_prefill_summary_def u_def Let_def del: chain_eq_Inr)
  show ?thesis
  proof (cases "enable_write_through t")
    case False
    then show ?thesis using ev u S(5) kv by (simp add: tier_inv_def)
  next
    case wt: True
    have "res_in_range (residency u) (layer_idx u) b" using agreeD(1) [OF D(3), of "(q, b)"] k u by auto
    moreover have "map_of (host_slots u) (q, b) = None" using nb wt u by (simp add: backup_def)
    ultimately obtain t' where "mirror_to_host u q b (Arena (layer_idx t) slot) = Inr t'"
      "tier_step_inv q {} [] t'" "content t' = content u" "tier_frame u t'" "slot_map t' = slot_map u"
      "summary_store t' = summary_store u"
      using mirror_step [OF u(1) _ u(9), of b kb vb "Arena (layer_idx t) slot"] wt u k kv l src_u free by auto
    then show ?thesis
      using ev wt u S(5) kv tier_frame_trans [OF u(3)] by (auto simp: tier_inv_def)
  qed
qed

text \<open>Claiming a slot does not touch the summaries.\<close>

lemma residency_summary: "tm_residency f t b = Inr t' \<Longrightarrow> summary_store t' = summary_store t"
  by (auto simp: tm_residency_def)

lemma store_from_summary: "store_from t c src = Inr t' \<Longrightarrow> summary_store t' = summary_store t"
  by (auto simp: store_from_def split: option.splits)

lemma spill_hook_summary: "spill_hook t v slot = Inr t' \<Longrightarrow> summary_store t' = summary_store t"
  by (auto simp: spill_hook_def drop_gpu_slot_def spill_to_cpu_def Let_def
      dest!: residency_summary store_from_summary split: if_splits)

lemma claim_slot_summary: "claim_slot t k prot = Inr (slot, t') \<Longrightarrow> summary_store t' = summary_store t"
  by (auto simp: claim_slot_def Let_def dest!: spill_hook_summary split: option.splits)

text \<open>The claimed live block with the token written: everything but the row of the token is as before.\<close>

lemma append_write:
  assumes inv: "tier_inv q t" and sync: "stream_pool t = None" and off: "off < bsz t"
    and nb: "map_of (backup t) (q, b) = None" and rg: "res_in_range (residency t) (layer_idx t) b"
    and room: "sm_free_slots (slot_map t) = [] \<Longrightarrow> evictable {(q, b)} t"
  shows "\<exists>slot u t' kb vb. claim_slot t (q, b) {} = Inr (slot, u) \<and>
    chain (write_arena_row u slot off k_tok v_tok) (\<lambda>t. tm_residency mark_on_gpu t b) = Inr t' \<and>
    tier_inv q t' \<and> content t' = (content t)((q, b) \<mapsto> (kb[off := k_tok], vb[off := v_tok])) \<and>
    length kb = bsz t \<and> length vb = bsz t \<and>
    ((q, b) \<in> dom (content t) \<longrightarrow> content t (q, b) = Some (kb, vb)) \<and>
    tier_frame t t' \<and> slot_of t' (q, b) = Some slot \<and> map_of (backup t') (q, b) = None \<and>
    summary_store t' = summary_store u \<and> cpu_store t' = cpu_store u \<and>
    (enable_write_through t \<longrightarrow> cpu_store u = cpu_store t)"
proof -
  note D = tier_step_invD [OF inv [unfolded tier_inv_def]]
  from claim_slot_any [OF inv sync nb rg evictable_victim [OF D(4) room]] obtain slot u where
    u: "claim_slot t (q, b) {} = Inr (slot, u)" "tier_step_inv q {(q, b)} [] u"
      "\<forall>j. j \<noteq> (q, b) \<longrightarrow> content u j = content t j" "tier_frame t u" "slot_of u (q, b) = Some slot"
      "map_of (backup u) (q, b) = None" "slot_of t (q, b) \<noteq> None \<longrightarrow> content u = content t"
      "enable_write_through t \<longrightarrow> host_slots u = host_slots t \<and> cpu_store u = cpu_store t" by blast
  note F = tier_frame_eqs [OF u(4)]
  have ar: "arena_ok u" using u(2) by (rule tier_step_invD)
  define kb vb where "kb = gpu_k u ! slot" and "vb = gpu_v u ! slot"
  have len: "length kb = bsz u" "length vb = bsz u"
    using ar arena_slot_less [OF ar u(5)] by (auto simp: arena_ok_def kb_def vb_def)
  then have l: "length (kb[off := k_tok]) = bsz u" "length (vb[off := v_tok]) = bsz u" by simp_all
  from write_mark_step [OF u(2,5,6) l] obtain t' where
    t': "tm_residency mark_on_gpu
        (u\<lparr>gpu_k := (gpu_k u)[slot := kb[off := k_tok]], gpu_v := (gpu_v u)[slot := vb[off := v_tok]]\<rparr>) b = Inr t'"
      "tier_step_inv q {} [] t'" "content t' = (content u)((q, b) \<mapsto> (kb[off := k_tok], vb[off := v_tok]))"
      "tier_frame u t'" "slot_map t' = slot_map u" "backup t' = backup u" "cpu_store t' = cpu_store u"
      "summary_store t' = summary_store u" by blast
  have "off < bsz u" using off F(7) by simp
  then have "chain (write_arena_row u slot off k_tok v_tok) (\<lambda>t. tm_residency mark_on_gpu t b) = Inr t'"
    using write_arena_row_ok [OF ar u(5)] t'(1) by (simp add: kb_def vb_def del: chain_eq_Inr)
  moreover have "content t (q, b) = Some (kb, vb)" if d: "(q, b) \<in> dom (content t)"
  proof -
    have "slot_of t (q, b) \<noteq> None" using d nb by (cases "slot_of t (q, b)") (auto simp: content_None)
    then have "content t (q, b) = content u (q, b)" using u(7) by simp
    then show ?thesis using content_Some [OF u(5)] by (simp add: arena_at_def kb_def vb_def)
  qed
  moreover have "content t' = (content t)((q, b) \<mapsto> (kb[off := k_tok], vb[off := v_tok]))"
    using t'(3) u(3) by (auto simp: fun_eq_iff)
  moreover have "tier_frame t t'" using u(4) t'(4) by (rule tier_frame_trans)
  ultimately show ?thesis using u(1,5,6,8) t'(2,5-8) len F(7) unfolding tier_inv_def
    by (intro exI [of _ slot] exI [of _ u] exI [of _ t'] exI [of _ kb] exI [of _ vb]) auto
qed

text \<open>Extending the token sequence by one row.\<close>

lemma holds_append:
  assumes h: "holds_tokens q toks t" and bs: "0 < bsz t" "bsz t' = bsz t"
    and b: "b = length toks div bsz t" "off = length toks mod bsz t"
    and c: "content t' = (content t)((q, b) \<mapsto> (kb[off := k_tok], vb[off := v_tok]))"
    and l: "length kb = bsz t" "length vb = bsz t"
    and old: "(q, b) \<in> dom (content t) \<longrightarrow> content t (q, b) = Some (kb, vb)"
  shows "holds_tokens q (toks @ [(k_tok, v_tok)]) t'"
proof -
  let ?n = "length toks" and ?bs = "bsz t"
  have off: "off < ?bs" using bs b by simp
  have at: "content t (q, i div ?bs) = Some (kb', vb') \<and> (kb' ! (i mod ?bs), vb' ! (i mod ?bs)) = toks ! i \<Longrightarrow>
      \<exists>kb vb. content t' (q, i div ?bs) = Some (kb, vb) \<and> (kb ! (i mod ?bs), vb ! (i mod ?bs)) = toks ! i"
    if i: "i < ?n" for i kb' vb'
  proof (cases "i div ?bs = b")
    case True
    assume a: "content t (q, i div ?bs) = Some (kb', vb') \<and> (kb' ! (i mod ?bs), vb' ! (i mod ?bs)) = toks ! i"
    then have "(kb', vb') = (kb, vb)" using old True by auto
    moreover have "i mod ?bs \<noteq> off"
      using i True b div_mult_mod_eq [of i ?bs] div_mult_mod_eq [of ?n ?bs] by auto
    ultimately show ?thesis using a True c by (auto simp: nth_list_update)
  qed (use c in auto)
  have "\<exists>kb vb. content t' (q, i div ?bs) = Some (kb, vb) \<and>
      (kb ! (i mod ?bs), vb ! (i mod ?bs)) = (toks @ [(k_tok, v_tok)]) ! i" if "i < Suc ?n" for i
  proof (cases "i = ?n")
    case True
    then show ?thesis using c b l off by (simp add: nth_append)
  next
    case False
    then have "i < ?n" using that by simp
    then show ?thesis using h at [of i] by (auto simp: holds_tokens_def nth_append)
  qed
  moreover have "dom (content t') = {q} \<times> {j. j * ?bs < Suc ?n}"
  proof -
    have "j * ?bs < Suc ?n \<longleftrightarrow> j = b \<or> j * ?bs < ?n" for j
    proof -
      have "b * ?bs \<le> ?n" by (simp add: b(1))
      moreover have "j = b" if "j * ?bs = ?n" using that b(1) bs(1) by (metis nonzero_mult_div_cancel_right less_not_refl)
      ultimately show ?thesis by (auto simp: less_Suc_eq)
    qed
    then show ?thesis using h c by (auto simp: holds_tokens_def)
  qed
  ultimately show ?thesis using bs(2) by (simp add: holds_tokens_def)
qed

lemma append_token_ok:
  assumes "tier_inv q t" "stream_pool t = None" "0 < bsz t" "holds_tokens q toks t"
    and "b = length toks div bsz t" and "map_of (backup t) (q, b) = None"
    and "res_in_range (residency t) (layer_idx t) b" "ss_in_range (summary_store t) (layer_idx t) b"
    and "sm_free_slots (slot_map t) = [] \<longrightarrow> evictable {(q, b)} t"
    and "enable_write_through t \<longrightarrow> cpu_free t \<noteq> []"
  shows "\<exists>t' kb vb. append_decode_token_kvshare ops t q (length toks) k_tok v_tok (bsz t) = Inr t' \<and>
    tier_inv q t' \<and> holds_tokens q (toks @ [(k_tok, v_tok)]) t' \<and> is_resident t' q b \<and> tier_frame t t' \<and>
    content t' (q, b) = Some (kb, vb) \<and>
    (Suc (length toks) mod bsz t = 0 \<longrightarrow> ss_at (summary_store t') (layer_idx t) b =
       block_digest ops (ss_digest_mode (summary_store t)) kb)"
proof -
  define off where "off = length toks mod bsz t"
  have off: "off < bsz t" using assms(3) by (simp add: off_def)
  from append_write [OF assms(1,2) off assms(6,7)] assms(9) obtain slot u w kb vb where
    u: "claim_slot t (q, b) {} = Inr (slot, u)"
      "chain (write_arena_row u slot off k_tok v_tok) (\<lambda>t. tm_residency mark_on_gpu t b) = Inr w"
      "tier_inv q w" "content w = (content t)((q, b) \<mapsto> (kb[off := k_tok], vb[off := v_tok]))"
      "length kb = bsz t" "length vb = bsz t" "(q, b) \<in> dom (content t) \<longrightarrow> content t (q, b) = Some (kb, vb)"
      "tier_frame t w" "slot_of w (q, b) = Some slot" "map_of (backup w) (q, b) = None"
      "cpu_store w = cpu_store u" "enable_write_through t \<longrightarrow> cpu_store u = cpu_store t"
      "summary_store w = summary_store u" by blast
  note F = tier_frame_eqs [OF u(8)]
  have S: "summary_store w = summary_store t" using claim_slot_summary [OF u(1)] u(13) by simp
  have full: "Suc (length toks) mod bsz t = 0 \<longleftrightarrow> off = bsz t - 1"
    using assms(3) by (auto simp: off_def mod_Suc)
  have ev: "append_decode_token_kvshare ops t q (length toks) k_tok v_tok (bsz t) =
      (if off = bsz t - 1 then append_full ops q b slot w else Inr w)"
    using u(1,2) assms(3,5) unfolding append_decode_token_kvshare_def
    by (auto simp: off_def append_full_def Let_def)
  have cw: "content w (q, b) = Some (kb[off := k_tok], vb[off := v_tok])" using u(4) by simp
  have hw: "holds_tokens q (toks @ [(k_tok, v_tok)]) w"
    by (rule holds_append [OF assms(4,3) F(7) assms(5) off_def u(4-7)])
  show ?thesis
  proof (cases "off = bsz t - 1")
    case False
    then show ?thesis using ev hw cw u(3,8,9) full by (auto simp: is_resident_def sm_contains_iff)
  next
    case True
    have "stream_pool w = None" "ss_in_range (summary_store w) (layer_idx w) b"
      "enable_write_through w \<Longrightarrow> cpu_free w \<noteq> []"
      using assms(2,8,10) S F u(11,12) by simp_all
    from append_full_ok [OF u(3) this(1) u(9,10) this(2,3), of ops] obtain t' where
      t': "append_full ops q b slot w = Inr t'" "tier_inv q t'" "content t' = content w" "tier_frame w t'"
        "slot_map t' = slot_map w" "ss_at (summary_store t') (layer_idx w) b =
          block_digest ops (ss_digest_mode (summary_store w)) (fst (arena_at w slot))" by blast
    have "arena_at w slot = (kb[off := k_tok], vb[off := v_tok])" using content_Some [OF u(9)] cw by simp
    moreover have "holds_tokens q (toks @ [(k_tok, v_tok)]) t'"
      using hw t'(3) tier_frame_eqs(7) [OF t'(4)] by (simp add: holds_tokens_def)
    ultimately show ?thesis
      using ev True t' cw u(9) S F(1) tier_frame_trans [OF u(8) t'(4)] by (auto simp: is_resident_def sm_contains_iff)
  qed
qed

text \<open>
  C6. \<open>append_decode_token_kvshare\<close> extends the tokens the tier holds by one: for a live
  block that is not on the host (it is resident or new) and, when a slot must be freed, an
  eviction that can be carried out, the call returns, keeps the invariant, leaves the live
  block resident, and the tier holds the old tokens followed by the new one. When the token
  fills the block, its summary is the digest of the keys the tier holds for it.
\<close>

theorem append_decode_token_extends:
  assumes "tier_inv q t" "stream_pool t = None" "0 < bsz t" "holds_tokens q toks t"
    and "b = length toks div bsz t" and "map_of (backup t) (q, b) = None"
    and "res_in_range (residency t) (layer_idx t) b" "ss_in_range (summary_store t) (layer_idx t) b"
    and "sm_free_slots (slot_map t) = [] \<longrightarrow> evictable {(q, b)} t"
    and "enable_write_through t \<longrightarrow> cpu_free t \<noteq> []"
  shows "\<exists>t' kb vb. append_decode_token_kvshare ops t q (length toks) k_tok v_tok (bsz t) = Inr t' \<and>
    tier_inv q t' \<and> holds_tokens q (toks @ [(k_tok, v_tok)]) t' \<and> is_resident t' q b \<and>
    content t' (q, b) = Some (kb, vb) \<and>
    (Suc (length toks) mod bsz t = 0 \<longrightarrow> ss_at (summary_store t') (layer_idx t) b =
       block_digest ops (ss_digest_mode (summary_store t)) kb)"
  using append_token_ok [OF assms, of ops k_tok v_tok] by (elim exE conjE) (intro exI conjI)

lemma ex_tier_ranges:
  "b < 4 \<Longrightarrow> res_in_range (residency (ex_tier bord)) 0 b" "bsz (ex_tier bord) = 1"
  "b < 4 \<Longrightarrow> ss_in_range (summary_store (ex_tier bord)) 0 b" "layer_idx (ex_tier bord) = 0"
  "map_of (backup (ex_tier bord)) (7, 3) = None" "sm_free_slots (slot_map (ex_tier bord)) = [1]"
  "enable_write_through (ex_tier bord) = False"
  by (simp_all add: ex_tier_def ex_new_def res_in_range_def ss_in_range_def backup_def)

lemma ex_tier_holds: "holds_tokens 7 [(10, 11), (20, 21), (30, 31)] (ex_tier bord)"
proof -
  have "{7 :: nat} \<times> {b. b < 3} = {(7, 0), (7, 1), (7, 2 :: nat)}" by auto
  moreover have "content (ex_tier bord) (7, 0) = Some ([10], [11])" "content (ex_tier bord) (7, 1) = Some ([20], [21])"
    "content (ex_tier bord) (7, 2) = Some ([30], [31])"
    by (simp_all add: content_def ex_tier_def ex_new_def backup_def arena_at_def cs_at_def)
  ultimately show ?thesis
    by (simp add: holds_tokens_def ex_tier_content ex_tier_ranges) (simp add: numeral_eq_Suc All_less_Suc)
qed

theorem append_decode_token_extends_witness:
  "\<exists>t'. append_decode_token_kvshare ex_ops (ex_tier Lru) 7 3 40 41 1 = Inr t' \<and> tier_inv 7 t' \<and>
    holds_tokens 7 [(10, 11), (20, 21), (30, 31), (40, 41)] t'"
  using append_decode_token_extends [OF ex_tier_inv _ _ ex_tier_holds, of Lru 3 ex_ops 40 41]
  by (simp add: ex_tier_ranges) (auto simp: numeral_eq_Suc)

end
