(* ===== verification/Tier_Release.thy ===== *)
theory Tier_Release
  imports Tier_Tokens
begin

text \<open>
  \<open>free_request\<close>: every arena slot and every host slot of the request is given back, and the
  tier is as fresh as a new one, ready for the next request.
\<close>

lemma delete_drop:
  assumes "distinct (map fst d)" "i < length d"
  shows "AList.delete (fst (d ! i)) (drop i d) = drop (Suc i) d" "map_of (drop i d) (fst (d ! i)) = Some (snd (d ! i))"
proof -
  have dr: "drop i d = d ! i # drop (Suc i) d" using assms(2) by (simp add: Cons_nth_drop_Suc)
  have "distinct (map fst (drop i d))" using assms(1) by (simp add: drop_map [symmetric])
  then have "map_of (drop (Suc i) d) (fst (d ! i)) = None" by (simp add: dr map_of_eq_None_iff)
  then show "AList.delete (fst (d ! i)) (drop i d) = drop (Suc i) d" by (simp add: dr delete_absent)
  show "map_of (drop i d) (fst (d ! i)) = Some (snd (d ! i))" by (simp add: dr)
qed

lemma keys_of_all: "(\<And>k. k \<in> dom (map_of d) \<Longrightarrow> fst k = q) \<Longrightarrow> keys_of d q = od_keys d"
  by (simp add: keys_of_def filter_id_conv set_od_keys)

lemma free_arena_loop:
  assumes "sm_inv (slot_map t)"
  shows "\<exists>m. for_each (od_keys (sm_key_to_slot (slot_map t))) free_arena_key t = Inr (t\<lparr>slot_map := m\<rparr>) \<and>
    sm_inv m \<and> sm_key_to_slot m = [] \<and> sm_capacity m = sm_capacity (slot_map t)"
proof -
  let ?d = "sm_key_to_slot (slot_map t)"
  let ?P = "\<lambda>i u. \<exists>m. u = t\<lparr>slot_map := m\<rparr> \<and> sm_inv m \<and> sm_key_to_slot m = drop i ?d \<and>
    sm_capacity m = sm_capacity (slot_map t)"
  have d: "distinct (map fst ?d)" using assms by (simp add: sm_inv_def)
  have "\<exists>u'. free_arena_key (od_keys ?d ! i) u = Inr u' \<and> ?P (Suc i) u'"
    if i: "i < length (od_keys ?d)" and P: "?P i u" for i u
  proof -
    from P obtain m where m: "u = t\<lparr>slot_map := m\<rparr>" "sm_inv m" "sm_key_to_slot m = drop i ?d"
      "sm_capacity m = sm_capacity (slot_map t)" by blast
    have i': "i < length ?d" using i by (simp add: od_keys_def)
    then have k: "od_keys ?d ! i = fst (?d ! i)" by (simp add: od_keys_def)
    note D = delete_drop [OF d i']
    from sm_free_ok [OF m(2), of "fst (?d ! i)" "snd (?d ! i)"] D m(3) obtain m' where
      "sm_free m (fst (?d ! i)) = Inr (snd (?d ! i), m')" "sm_inv m'" "sm_capacity m' = sm_capacity m"
      "sm_key_to_slot m' = drop (Suc i) ?d" by metis
    then show ?thesis using m k by (auto simp: free_arena_key_def)
  qed
  moreover have "?P 0 t" using assms by (intro exI [of _ "slot_map t"]) simp
  ultimately have "\<exists>u. for_each (od_keys ?d) free_arena_key t = Inr u \<and> ?P (length (od_keys ?d)) u"
    by (rule for_each_total [rotated])
  then show ?thesis by (auto simp: od_keys_def)
qed

text \<open>The two loops over host slots have the same body up to the dictionary.\<close>

lemma release_loop:
  assumes shape: "cs_shape bs l cs"
  shows "\<exists>cs'. for_each cl (\<lambda>c cs. cs_release cs l c) cs = Inr cs' \<and> cs_shape bs l cs' \<and>
    cs_free cs' ! l = cs_free cs ! l @ cl \<and> cs_blocks_per_layer cs' = cs_blocks_per_layer cs \<and>
    cs_at cs' l = cs_at cs l"
  using assms
proof (induction cl arbitrary: cs)
  case (Cons c cl)
  from cs_release_view [OF Cons.prems, of c] obtain u where
    u: "cs_release cs l c = Inr u" "cs_free u ! l = cs_free cs ! l @ [c]" "cs_shape bs l u"
      "cs_at u l = cs_at cs l" "cs_blocks_per_layer u = cs_blocks_per_layer cs" by blast
  from Cons.IH [OF u(3)] u show ?case by auto
qed simp

lemma free_cpu_loop:
  assumes "distinct (map fst d)" "for_each (map snd d) (\<lambda>c cs. cs_release cs (layer_idx t) c) (cpu_store t) = Inr cs'"
    and "cpu_slots t = d"
  shows "for_each (od_keys d) free_cpu_key t = Inr (t\<lparr>cpu_slots := [], cpu_store := cs'\<rparr>)"
  using assms
proof (induction d arbitrary: t)
  case (Cons kc d)
  from Cons.prems(2) obtain cs where cs: "cs_release (cpu_store t) (layer_idx t) (snd kc) = Inr cs"
    "for_each (map snd d) (\<lambda>c cs. cs_release cs (layer_idx t) c) cs = Inr cs'" by auto
  have "map_of d (fst kc) = None" using Cons.prems(1) by (simp add: map_of_eq_None_iff)
  then have "free_cpu_key (fst kc) t = Inr (t\<lparr>cpu_slots := d, cpu_store := cs\<rparr>)"
    using Cons.prems(3) cs(1) by (cases kc) (simp add: free_cpu_key_def delete_absent)
  then show ?case
    using Cons.IH [of "t\<lparr>cpu_slots := d, cpu_store := cs\<rparr>"] Cons.prems(1) cs(2)
    by (simp add: od_keys_def)
qed (simp add: od_keys_def)

lemma free_host_loop:
  assumes "distinct (map fst d)" "for_each (map snd d) (\<lambda>c cs. cs_release cs (layer_idx t) c) (cpu_store t) = Inr cs'"
    and "host_slots t = d"
  shows "for_each (od_keys d) free_host_key t = Inr (t\<lparr>host_slots := [], cpu_store := cs'\<rparr>)"
  using assms
proof (induction d arbitrary: t)
  case (Cons kc d)
  from Cons.prems(2) obtain cs where cs: "cs_release (cpu_store t) (layer_idx t) (snd kc) = Inr cs"
    "for_each (map snd d) (\<lambda>c cs. cs_release cs (layer_idx t) c) cs = Inr cs'" by auto
  have "map_of d (fst kc) = None" using Cons.prems(1) by (simp add: map_of_eq_None_iff)
  then have "free_host_key (fst kc) t = Inr (t\<lparr>host_slots := d, cpu_store := cs\<rparr>)"
    using Cons.prems(3) cs(1) by (cases kc) (simp add: free_host_key_def delete_absent)
  then show ?case
    using Cons.IH [of "t\<lparr>host_slots := d, cpu_store := cs\<rparr>"] Cons.prems(1) cs(2)
    by (simp add: od_keys_def)
qed (simp add: od_keys_def)

lemma mark_loop:
  assumes "\<forall>b \<in> set bs. res_in_range (residency t) (layer_idx t) b"
  shows "\<exists>r. for_each bs (\<lambda>b t. tm_residency mark_on_gpu t b) t = Inr (t\<lparr>residency := r\<rparr>) \<and>
    (\<forall>b. res_in_range r (layer_idx t) b = res_in_range (residency t) (layer_idx t) b) \<and>
    (\<forall>b. res_at r (layer_idx t) b = (if b \<in> set bs then ON_GPU else res_of t b))"
  using assms
proof (induction bs arbitrary: t)
  case Nil
  then show ?case by (intro exI [of _ "residency t"]) simp
next
  case (Cons b bs)
  let ?u = "t\<lparr>residency := res_write (residency t) (layer_idx t) b ON_GPU\<rparr>"
  have rg: "res_in_range (residency t) (layer_idx t) b" using Cons.prems by simp
  have "\<forall>b \<in> set bs. res_in_range (residency ?u) (layer_idx ?u) b" using Cons.prems by simp
  from Cons.IH [OF this] rg show ?case by (auto simp: tm_residency_def)
qed

lemma dom_content: "dom (content t) = dom (slot_of t) \<union> dom (map_of (backup t))"
proof (rule set_eqI)
  fix k show "k \<in> dom (content t) \<longleftrightarrow> k \<in> dom (slot_of t) \<union> dom (map_of (backup t))"
    by (cases "slot_of t k") (auto simp: content_Some content_None)
qed

text \<open>The blocks whose residency is reset are the blocks the tier held.\<close>

lemma freed_blocks:
  assumes inv: "tier_inv q t"
  shows "set (map snd (keys_of (sm_key_to_slot (slot_map t)) q @ keys_of (cpu_slots t) q
    @ keys_of (host_slots t) q)) = {b. (q, b) \<in> dom (content t)}"
proof -
  note D = tier_step_invD [OF inv [unfolded tier_inv_def]]
  have "dom (map_of (cpu_slots t)) \<union> dom (map_of (host_slots t)) = dom (map_of (backup t))"
    using D(2) by (auto simp: host_ok_def backup_def split: if_splits)
  then have "dom (content t) = dom (slot_of t) \<union> dom (map_of (cpu_slots t)) \<union> dom (map_of (host_slots t))"
    by (simp add: dom_content Un_assoc)
  then show ?thesis unfolding keys_of_def by (auto simp: set_od_keys image_iff)
qed

text \<open>The three loops together: both dictionaries and the slot map are emptied.\<close>

lemma free_loops:
  assumes inv: "tier_inv q t"
  shows "\<exists>m cs. chain (for_each (keys_of (sm_key_to_slot (slot_map t)) q) free_arena_key t) (\<lambda>t1.
      chain (for_each (keys_of (cpu_slots t) q) free_cpu_key t1) (\<lambda>t2.
      for_each (keys_of (host_slots t) q) free_host_key t2)) =
      Inr (t\<lparr>slot_map := m, cpu_slots := [], host_slots := [], cpu_store := cs\<rparr>) \<and>
    sm_inv m \<and> sm_key_to_slot m = [] \<and> sm_capacity m = sm_capacity (slot_map t) \<and>
    cs_shape (bsz t) (layer_idx t) cs \<and> cs_free cs ! layer_idx t = cpu_free t @ map snd (backup t) \<and>
    cs_blocks_per_layer cs = cs_blocks_per_layer (cpu_store t)"
proof -
  note D = tier_step_invD [OF inv [unfolded tier_inv_def]]
  note ag = agreeD(1) [OF D(3)]
  from free_arena_loop [OF D(4)] obtain m where
    m: "for_each (od_keys (sm_key_to_slot (slot_map t))) free_arena_key t = Inr (t\<lparr>slot_map := m\<rparr>)"
      "sm_inv m" "sm_key_to_slot m = []" "sm_capacity m = sm_capacity (slot_map t)" by blast
  from release_loop [OF D(6), of "map snd (backup t)"] obtain cs where
    cs: "for_each (map snd (backup t)) (\<lambda>c cs. cs_release cs (layer_idx t) c) (cpu_store t) = Inr cs"
      "cs_shape (bsz t) (layer_idx t) cs" "cs_free cs ! layer_idx t = cpu_free t @ map snd (backup t)"
      "cs_blocks_per_layer cs = cs_blocks_per_layer (cpu_store t)" by blast
  have d: "distinct (map fst (backup t))" using D(2) by (simp add: host_ok_def)
  have k: "keys_of (sm_key_to_slot (slot_map t)) q = od_keys (sm_key_to_slot (slot_map t))"
    "keys_of (backup t) q = od_keys (backup t)" by (rule keys_of_all, use ag in blast)+
  let ?t = "t\<lparr>slot_map := m, cpu_slots := [], host_slots := [], cpu_store := cs\<rparr>"
  let ?u = "t\<lparr>slot_map := m\<rparr>"
  have "chain (for_each (keys_of (cpu_slots t) q) free_cpu_key ?u) (\<lambda>t2.
      for_each (keys_of (host_slots t) q) free_host_key t2) = Inr ?t"
  proof (cases "enable_write_through t")
    case True
    then have b: "host_slots t = backup t" "cpu_slots t = []" using D(2) by (simp_all add: backup_def host_ok_def)
    have "for_each (od_keys (backup t)) free_host_key ?u = Inr (?u\<lparr>host_slots := [], cpu_store := cs\<rparr>)"
      by (rule free_host_loop [OF d]) (use cs(1) b in simp_all)
    moreover have "?u\<lparr>host_slots := [], cpu_store := cs\<rparr> = ?t" using b(2) by (intro tier.equality) simp_all
    ultimately show ?thesis using b k(2) by (simp add: keys_of_def od_keys_def)
  next
    case False
    then have b: "cpu_slots t = backup t" "host_slots t = []" using D(2) by (simp_all add: backup_def host_ok_def)
    have "for_each (od_keys (backup t)) free_cpu_key ?u = Inr (?u\<lparr>cpu_slots := [], cpu_store := cs\<rparr>)"
      by (rule free_cpu_loop [OF d]) (use cs(1) b in simp_all)
    moreover have "?u\<lparr>cpu_slots := [], cpu_store := cs\<rparr> = ?t" using b(2) by (intro tier.equality) simp_all
    ultimately show ?thesis using b k(2) by (simp add: keys_of_def od_keys_def)
  qed
  with m cs k(1) show ?thesis by (intro exI [of _ m] exI [of _ cs]) (simp del: chain_eq_Inr)
qed

text \<open>
  C9. \<open>free_request\<close> of the request a tier serves, when every block the tier does not hold is
  marked \<open>ON_GPU\<close>: it returns, all arena slots and all host slots are free again, the marks
  of the request are gone, and the tier is fresh for any next request.
\<close>

theorem free_request_releases_all:
  assumes "tier_inv q t"
    and "\<forall>b. res_in_range (residency t) (layer_idx t) b \<and> (q, b) \<notin> dom (content t) \<longrightarrow> res_of t b = ON_GPU"
  shows "\<exists>t'. free_request t q = Inr t' \<and> tier_fresh q' t' \<and>
    length (sm_free_slots (slot_map t')) = sm_capacity (slot_map t) \<and>
    length (cpu_free t') = cs_blocks_per_layer (cpu_store t) \<and>
    trimmed t' = trimmed t - {q} \<and> prev_selected t' q = None"
proof -
  note D = tier_step_invD [OF assms(1) [unfolded tier_inv_def]]
  from free_loops [OF assms(1)] obtain m cs where
    L: "chain (for_each (keys_of (sm_key_to_slot (slot_map t)) q) free_arena_key t) (\<lambda>t1.
      chain (for_each (keys_of (cpu_slots t) q) free_cpu_key t1) (\<lambda>t2.
      for_each (keys_of (host_slots t) q) free_host_key t2)) =
      Inr (t\<lparr>slot_map := m, cpu_slots := [], host_slots := [], cpu_store := cs\<rparr>)"
    and m: "sm_inv m" "sm_key_to_slot m = []" "sm_capacity m = sm_capacity (slot_map t)"
    and cs: "cs_shape (bsz t) (layer_idx t) cs" "cs_free cs ! layer_idx t = cpu_free t @ map snd (backup t)"
      "cs_blocks_per_layer cs = cs_blocks_per_layer (cpu_store t)" by blast
  define u where "u = t\<lparr>slot_map := m, cpu_slots := [], host_slots := [], cpu_store := cs,
    trimmed := trimmed t - {q}, prev_selected := (prev_selected t)(q := None)\<rparr>"
  define bs where "bs = map snd (keys_of (sm_key_to_slot (slot_map t)) q @ keys_of (cpu_slots t) q
    @ keys_of (host_slots t) q)"
  have u: "layer_idx u = layer_idx t" "residency u = residency t" by (simp_all add: u_def)
  have bs: "set bs = {b. (q, b) \<in> dom (content t)}" unfolding bs_def by (rule freed_blocks [OF assms(1)])
  have "\<forall>b \<in> set bs. res_in_range (residency u) (layer_idx u) b"
    using agreeD(1) [OF D(3)] unfolding bs u dom_content by fastforce
  from mark_loop [OF this] obtain r where
    r: "for_each bs (\<lambda>b t. tm_residency mark_on_gpu t b) u = Inr (u\<lparr>residency := r\<rparr>)"
      "\<forall>b. res_in_range r (layer_idx u) b = res_in_range (residency u) (layer_idx u) b"
      "\<forall>b. res_at r (layer_idx u) b = (if b \<in> set bs then ON_GPU else res_of u b)" by blast
  define t' where "t' = u\<lparr>residency := r\<rparr>"
  have "free_request t q = Inr t'"
    using L r(1) by (auto simp: free_request_def Let_def bs_def t'_def u_def)
  moreover have e: "slot_of t' = Map.empty" "backup t' = []" "content t' = Map.empty"
    using m(2) by (auto simp: t'_def u_def backup_def content_def fun_eq_iff)
  moreover have "tier_inv q' t'"
    unfolding tier_inv_def tier_step_inv_def
  proof (intro conjI)
    show "arena_ok t'" using D(1) m by (simp add: arena_ok_def t'_def u_def)
    show "host_ok [] t'" using D(2) cs unfolding host_ok_def e(2) by (auto simp: t'_def u_def)
    show "agree q' {} t'" by (rule agreeI) (simp_all add: e)
  qed
  moreover have "\<forall>b. res_in_range (residency t') (layer_idx t') b \<longrightarrow> res_of t' b = ON_GPU"
    using r(2,3) assms(2) bs u by (simp add: t'_def)
  moreover have "length (sm_free_slots (slot_map t')) = sm_capacity (slot_map t)"
    using sm_inv_length [OF m(1)] m(2,3) by (simp add: t'_def u_def)
  moreover have "length (cpu_free t') = cs_blocks_per_layer (cpu_store t)"
  proof -
    have "distinct (cpu_free t @ map snd (backup t))"
      "set (cpu_free t @ map snd (backup t)) = {0..<cs_blocks_per_layer (cpu_store t)}"
      using D(2) by (auto simp: host_ok_def)
    from distinct_card [OF this(1)] this(2) show ?thesis using cs(2) by (simp add: t'_def u_def)
  qed
  ultimately show ?thesis by (auto simp: tier_fresh_def t'_def u_def)
qed

lemma ex_tier_rest:
  "cs_blocks_per_layer (cpu_store (ex_tier bord)) = 3"
  "\<forall>b. res_in_range (residency (ex_tier bord)) (layer_idx (ex_tier bord)) b \<and> 0 < b \<and> b \<noteq> Suc 0 \<and> b \<noteq> 2 \<longrightarrow>
     res_of (ex_tier bord) b = ON_GPU"
  by (auto simp: ex_tier_def ex_new_def res_in_range_def res_at_def less_Suc_eq numeral_eq_Suc)

theorem free_request_releases_all_witness:
  "\<exists>t'. free_request (ex_tier Lru) 7 = Inr t' \<and> tier_fresh 8 t' \<and> length (cpu_free t') = 3"
  using free_request_releases_all [OF ex_tier_inv, of Lru 8] ex_tier_rest
  by (auto simp: ex_tier_content)

end
