(* ===== verification/Tier_Write.thy ===== *)
theory Tier_Write
  imports Tier_Tokens
begin

text \<open>
  Whole-block writes, \<open>on_block_filled\<close> and \<open>write_live_block\<close>, and two behaviours at the
  edge of \<open>ensure_resident\<close>: the full host pool, and the \<open>mixture\<close> ordering.
\<close>

section \<open>Whole-block writes\<close>

text \<open>The claim, the write and the mark, shared by both methods.\<close>

lemma write_live_block_ok:
  assumes inv: "tier_inv q t" and sync: "stream_pool t = None"
    and nb: "map_of (backup t) (q, b) = None" and rg: "res_in_range (residency t) (layer_idx t) b"
    and room: "sm_free_slots (slot_map t) = [] \<Longrightarrow> evictable {(q, b)} t"
    and l: "length kb = bsz t" "length vb = bsz t"
  shows "\<exists>slot t'. write_live_block t q b kb vb = Inr (slot, t') \<and> tier_inv q t' \<and>
    content t' = (content t)((q, b) \<mapsto> (kb, vb)) \<and> tier_frame t t' \<and> slot_of t' (q, b) = Some slot \<and>
    arena_at t' slot = (kb, vb) \<and> map_of (backup t') (q, b) = None \<and>
    summary_store t' = summary_store t \<and> (enable_write_through t \<longrightarrow> cpu_store t' = cpu_store t)"
proof -
  note D = tier_step_invD [OF inv [unfolded tier_inv_def]]
  from claim_slot_any [OF inv sync nb rg evictable_victim [OF D(4) room]] obtain slot u where
    u: "claim_slot t (q, b) {} = Inr (slot, u)" "tier_step_inv q {(q, b)} [] u"
      "\<forall>j. j \<noteq> (q, b) \<longrightarrow> content u j = content t j" "tier_frame t u" "slot_of u (q, b) = Some slot"
      "map_of (backup u) (q, b) = None"
      "enable_write_through t \<longrightarrow> host_slots u = host_slots t \<and> cpu_store u = cpu_store t" by blast
  have l': "length kb = bsz u" "length vb = bsz u" using l tier_frame_eqs(7) [OF u(4)] by simp_all
  from write_mark_step [OF u(2,5,6) l'] obtain t' where
    t': "tm_residency mark_on_gpu (u\<lparr>gpu_k := (gpu_k u)[slot := kb], gpu_v := (gpu_v u)[slot := vb]\<rparr>) b = Inr t'"
      "tier_step_inv q {} [] t'" "content t' = (content u)((q, b) \<mapsto> (kb, vb))" "tier_frame u t'"
      "slot_map t' = slot_map u" "backup t' = backup u" "cpu_store t' = cpu_store u"
      "summary_store t' = summary_store u" "arena_at t' slot = (kb, vb)" by blast
  have "write_live_block t q b kb vb = Inr (slot, t')"
    using u(1) write_arena_ok [OF tier_step_invD(1) [OF u(2)] u(5) l'] t'(1)
    by (simp add: write_live_block_def del: chain_eq_Inr)
  moreover have "content t' = (content t)((q, b) \<mapsto> (kb, vb))" using t'(3) u(3) by (auto simp: fun_eq_iff)
  moreover have "tier_frame t t'" using u(4) t'(4) by (rule tier_frame_trans)
  moreover have "summary_store t' = summary_store t" using claim_slot_summary [OF u(1)] t'(8) by simp
  ultimately show ?thesis using u(5,6,7) t'(2,5,6,7,9) unfolding tier_inv_def by auto
qed

text \<open>
  \<open>write_live_block\<close> is an update of the content at the live block, which is resident
  afterwards, and changes nothing else; the block must not be on the host and an eviction,
  when one is needed, must be possible.
\<close>

theorem write_live_block_updates:
  assumes "tier_inv q t" "stream_pool t = None" "map_of (backup t) (q, b) = None"
    and "res_in_range (residency t) (layer_idx t) b"
    and "sm_free_slots (slot_map t) = [] \<longrightarrow> evictable {(q, b)} t"
    and "length kb = bsz t" "length vb = bsz t"
  shows "\<exists>slot t'. write_live_block t q b kb vb = Inr (slot, t') \<and> tier_inv q t' \<and>
    content t' = (content t)((q, b) \<mapsto> (kb, vb)) \<and> is_resident t' q b \<and>
    (gpu_k t' ! slot, gpu_v t' ! slot) = (kb, vb)"
  using write_live_block_ok [of q t b kb vb] assms
  by (auto simp: is_resident_def sm_contains_iff arena_at_def)

theorem write_live_block_updates_witness:
  "\<exists>slot t'. write_live_block (ex_tier Lru) 7 3 [40] [41] = Inr (slot, t') \<and> tier_inv 7 t' \<and>
    content t' = (content (ex_tier Lru))((7, 3) \<mapsto> ([40], [41])) \<and> is_resident t' 7 3 \<and>
    (gpu_k t' ! slot, gpu_v t' ! slot) = ([40], [41])"
  using write_live_block_updates [OF ex_tier_inv, of Lru 3 "[40]" "[41]"] by (simp add: ex_tier_ranges)

text \<open>
  C11. \<open>on_block_filled\<close> is an update of the content at the filled block: the block is
  resident, its summary is the digest of its keys, and under write-through it has a durable
  host copy from now on.
\<close>

theorem on_block_filled_updates:
  assumes "tier_inv q t" "stream_pool t = None" "map_of (backup t) (q, b) = None"
    and "res_in_range (residency t) (layer_idx t) b" "ss_in_range (summary_store t) (layer_idx t) b"
    and "sm_free_slots (slot_map t) = [] \<longrightarrow> evictable {(q, b)} t"
    and "length kb = bsz t" "length vb = bsz t" "enable_write_through t \<longrightarrow> cpu_free t \<noteq> []"
  shows "\<exists>slot t'. tm_on_block_filled ops t q b kb vb = Inr (slot, t') \<and> tier_inv q t' \<and>
    content t' = (content t)((q, b) \<mapsto> (kb, vb)) \<and> is_resident t' q b \<and>
    ss_at (summary_store t') (layer_idx t) b = block_digest ops (ss_digest_mode (summary_store t)) kb \<and>
    (enable_write_through t \<longrightarrow> (q, b) \<in> dom (map_of (host_slots t')))"
proof -
  from ss_filled_ok [OF assms(5,7), of ops] obtain S where
    S: "ss_on_block_filled ops (summary_store t) (layer_idx t) b kb = Inr S" "ss_block_size S = bsz t"
      "ss_digest_mode S = ss_digest_mode (summary_store t)"
      "\<And>l' b'. ss_in_range S l' b' = ss_in_range (summary_store t) l' b'"
      "\<And>l' b'. ss_at S l' b' = (if l' = layer_idx t \<and> b' = b
         then block_digest ops (ss_digest_mode (summary_store t)) kb else ss_at (summary_store t) l' b')" by blast
  define u where "u = t\<lparr>summary_store := S\<rparr>"
  have u: "tier_inv q u" "content u = content t" "stream_pool u = None" "map_of (backup u) (q, b) = None"
    "res_in_range (residency u) (layer_idx u) b" "sm_free_slots (slot_map u) = [] \<Longrightarrow> evictable {(q, b)} u"
    "bsz u = bsz t" "layer_idx u = layer_idx t" "cpu_store u = cpu_store t" "summary_store u = S"
    "enable_write_through u = enable_write_through t"
    using assms S(2) by (simp_all add: u_def tier_inv_def evictable_def)
  from write_live_block_ok [OF u(1,3,4,5,6), of kb vb] assms(7,8) u(7) obtain slot w where
    w: "write_live_block u q b kb vb = Inr (slot, w)" "tier_inv q w"
      "content w = (content t)((q, b) \<mapsto> (kb, vb))" "tier_frame u w" "slot_of w (q, b) = Some slot"
      "arena_at w slot = (kb, vb)" "map_of (backup w) (q, b) = None" "summary_store w = S"
      "enable_write_through t \<Longrightarrow> cpu_store w = cpu_store t"
    using u(2,9,10,11) by auto
  note F = tier_frame_eqs [OF w(4)]
  define x where "x = w\<lparr>stats := stats w\<lparr>block_filled := Suc (block_filled (stats w))\<rparr>\<rparr>"
  have ev: "tm_on_block_filled ops t q b kb vb = (if enable_write_through t
      then chain (mirror_to_host x q b (Ext kb vb)) (\<lambda>t. Inr (slot, t)) else Inr (slot, x))"
    using w(1) S(1) F(3) u(11)
    by (auto simp: tm_on_block_filled_def write_live_block_def register_prefill_summary_def u_def x_def Let_def)
  have x: "tier_step_inv q {} [] x" "content x = content w" "slot_map x = slot_map w" "arena_at x = arena_at w"
    "host_slots x = host_slots w" "enable_write_through x = enable_write_through t" "stream_pool x = None"
    "residency x = residency w" "layer_idx x = layer_idx t" "bsz x = bsz t" "cpu_store x = cpu_store w"
    "summary_store x = S" using w(2,8) F u by (simp_all add: x_def tier_inv_def)
  show ?thesis
  proof (cases "enable_write_through t")
    case False
    then show ?thesis
      using ev x w(3,5) S(5) by (auto simp: tier_inv_def is_resident_def sm_contains_iff)
  next
    case wt: True
    have "res_in_range (residency x) (layer_idx x) b" "map_of (host_slots x) (q, b) = None"
      using u(5,8) F(1,10) w(7) wt x F(3) u(11) by (simp_all add: backup_def)
    then obtain t' c where "mirror_to_host x q b (Ext kb vb) = Inr t'" "tier_step_inv q {} [] t'"
      "content t' = content x" "tier_frame x t'" "slot_map t' = slot_map x"
      "map_of (backup t') = (map_of (backup x))((q, b) \<mapsto> c)" "summary_store t' = summary_store x"
      using mirror_step [OF x(1) _ x(7), of b kb vb "Ext kb vb"] wt x w(5,6,9) assms(7,8,9)
      by (auto simp: src_block_def)
    then show ?thesis
      using ev wt x w(3,5) S(5) by (auto simp: tier_inv_def is_resident_def sm_contains_iff backup_def tier_frame_eqs)
  qed
qed

theorem on_block_filled_updates_witness:
  "\<exists>slot t'. tm_on_block_filled ex_ops (ex_tier Lru) 7 3 [40] [41] = Inr (slot, t') \<and> tier_inv 7 t' \<and>
    content t' = (content (ex_tier Lru))((7, 3) \<mapsto> ([40], [41])) \<and> is_resident t' 7 3"
  using on_block_filled_updates [OF ex_tier_inv, of Lru 3 "[40]" "[41]" ex_ops] by (auto simp: ex_tier_ranges)

section \<open>Edges of \<open>ensure_resident\<close>\<close>

text \<open>
  C15. Loading a spilled block needs a free host slot even though it gives one back: under
  write-back, with the arena full and the host pool of the layer full, \<open>ensure_resident\<close> of a
  block that is on the host raises \<open>RuntimeError\<close>. The victim's slot is allocated before
  the slot of the loaded block is freed.
\<close>

theorem ensure_resident_full_pool:
  assumes "tier_inv q t" "stream_pool t = None" "\<not> enable_write_through t"
    and "(q, b) \<in> dom (content t)" "\<not> is_resident t q b"
    and "sm_free_slots (slot_map t) = []" "cpu_free t = []"
  shows "ensure_resident t q [b] [] = Inl RuntimeError"
proof -
  note D = tier_step_invD [OF assms(1) [unfolded tier_inv_def]]
  have new: "slot_of t (q, b) = None" using assms(5) by (simp add: is_resident_def sm_contains_iff domIff)
  obtain c where c: "map_of (cpu_slots t) (q, b) = Some c"
    using assms(3,4) new by (auto simp: content_None backup_def)
  from sm_add_new [OF D(4,5) new, of "protected_keys t q"] obtain slot ev m where
    m: "sm_add (slot_map t) (q, b) (protected_keys t q) = Inr (slot, ev, m)"
      "sm_added (slot_map t) (q, b) (protected_keys t q) slot ev m" by blast
  obtain v where v: "ev = Some v" using m(2) assms(6) by (cases rule: sm_added.cases) auto
  have prot: "protected_keys (t\<lparr>cpu_slots := d\<rparr>) q = protected_keys t q" for d
    by (simp add: protected_keys_def cong: option.case_cong)
  have "cs_alloc (cpu_store t) (layer_idx t) = Inl RuntimeError"
    using D(6) assms(7) by (simp add: cs_alloc_def cs_shape_def)
  then have "ensure_one_sync q b t = Inl RuntimeError"
    using new c m(1) v assms(3)
    by (simp add: ensure_one_sync_def ensure_one_def sm_contains_iff domIff take_backup_def claim_slot_def
        prot spill_hook_def spill_to_cpu_def Let_def)
  moreover have "touch_resident t q [b] [] = Inr t"
    using new by (simp add: touch_resident_def touch_one_def sm_contains_iff domIff)
  ultimately show ?thesis
    using assms(2) by (simp add: ensure_resident_def timed_ensure_sync_def)
qed

text \<open>The example tier with a host pool of one slot: both slots of the arena and the pool in use.\<close>

definition ex_full :: "(nat, int) tier" where
  "ex_full = (ex_new Lru False)
     \<lparr>residency := \<lparr>res_num_layers = 1, res_max_blocks = 4,
        res_states = [[ON_CPU, ON_GPU, ON_GPU, ON_GPU]]\<rparr>,
      cpu_store := \<lparr>cs_k = [[[10]]], cs_v = [[[11]]], cs_num_layers = 1, cs_blocks_per_layer = 1,
        cs_free = [[]], cs_stats = \<lparr>alloc_count = 1, free_count = 0, store_calls = 1, load_calls = 0\<rparr>\<rparr>,
      slot_map := \<lparr>sm_capacity = 2, sm_key_to_slot = [((7, 1), 0), ((7, 2), 1)], sm_free_slots = []\<rparr>,
      cpu_slots := [((7, 0), 0)], trimmed := {7}\<rparr>"

lemma ex_full_inv: "tier_inv 7 ex_full"
  by (auto simp: ex_simps ex_full_def ex_new_def less_Suc_eq numeral_eq_Suc nth_Cons' atLeast0_lessThan_Suc)

theorem ensure_resident_full_pool_witness: "ensure_resident ex_full 7 [0] [] = Inl RuntimeError"
  using ensure_resident_full_pool [OF ex_full_inv, of 0]
  by (simp add: ex_full_def ex_new_def content_def backup_def is_resident_def sm_contains_def od_has_def
      od_keys_def domIff)







end
