(* ===== verification/Cache_Policy.thy ===== *)
theory Cache_Policy
  imports Py_Prelude
begin

text \<open>
  The replacement policies of \<^verbatim>\<open>kv_offload/cpu/policies\<close>: the interface
  \<open>CachePolicy\<close> as a record of operations (the dispatch table of a policy object), the
  contract its clients rely on as a locale, and \<open>LRUCachePolicy\<close> and \<open>ARCCachePolicy\<close> as
  its two instances.

  A \<open>BlockStatus\<close> is a mutable object that the policy's dictionaries share with the manager:
  \<open>p_set_ref\<close> is the assignment \<open>policy.get(key).ref_cnt = r\<close>, an update in place that does
  not move the key. Floats occur only in ARC's target size; their arithmetic is an argument.
\<close>

section \<open>Block status\<close>

text \<open>\<open>ctypes.c_int32\<close> wraps on assignment; \<open>block_id\<close> is a \<open>c_int64\<close> that only ever holds pool indices.\<close>

definition c_int32 :: "int \<Rightarrow> int" where
  "c_int32 x = (x + 2 ^ 31) mod 2 ^ 32 - 2 ^ 31"

record block_status =
  ref_cnt :: int
  block_id :: nat

definition new_block_status :: "nat \<Rightarrow> block_status" where
  "new_block_status i = \<lparr>ref_cnt = -1, block_id = i\<rparr>"

definition is_ready :: "block_status \<Rightarrow> bool" where
  "is_ready b \<longleftrightarrow> 0 \<le> ref_cnt b"

lemma c_int32_id [simp]: "- (2 ^ 31) \<le> x \<Longrightarrow> x < 2 ^ 31 \<Longrightarrow> c_int32 x = x"
  by (simp add: c_int32_def)

lemma c_int32_range: "- (2 ^ 31) \<le> c_int32 x \<and> c_int32 x < 2 ^ 31"
  by (simp add: c_int32_def)

section \<open>The interface\<close>

record ('k, 'p) policy_ops =
  p_get :: "'p \<Rightarrow> 'k \<Rightarrow> block_status option"
  p_insert :: "'p \<Rightarrow> 'k \<Rightarrow> block_status \<Rightarrow> 'p"
  p_remove :: "'p \<Rightarrow> 'k \<Rightarrow> 'p result"
  p_touch :: "'p \<Rightarrow> 'k list \<Rightarrow> 'p"
  p_evict :: "'p \<Rightarrow> nat \<Rightarrow> 'k set \<Rightarrow> ((('k \<times> block_status) list \<times> 'p) option)"
  p_clear :: "'p \<Rightarrow> 'p"
  p_set_ref :: "'p \<Rightarrow> 'k \<Rightarrow> int \<Rightarrow> 'p"

text \<open>
  What a client may rely on. \<open>p_get\<close> is the abstraction: the blocks of the policy as a map.
  An eviction is atomic, removes exactly what it returns, and returns idle, unprotected
  blocks; it may fail.
\<close>

locale cache_policy =
  fixes P :: "('k, 'p) policy_ops" and inv :: "'p \<Rightarrow> bool"
  assumes finite_get: "inv p \<Longrightarrow> finite (dom (p_get P p))"
    and insert_get: "inv p \<Longrightarrow> p_get P p k = None \<Longrightarrow> p_get P (p_insert P p k b) = (p_get P p)(k \<mapsto> b)"
    and insert_inv: "inv p \<Longrightarrow> p_get P p k = None \<Longrightarrow> inv (p_insert P p k b)"
    and remove_get: "inv p \<Longrightarrow> p_get P p k = Some b \<Longrightarrow>
      \<exists>p'. p_remove P p k = Inr p' \<and> inv p' \<and> p_get P p' = (p_get P p)(k := None)"
    and touch_get: "inv p \<Longrightarrow> p_get P (p_touch P p ks) = p_get P p"
    and touch_inv: "inv p \<Longrightarrow> inv (p_touch P p ks)"
    and evict_length: "inv p \<Longrightarrow> p_evict P p n prot = Some (ev, p') \<Longrightarrow> length ev = n"
    and evict_distinct: "inv p \<Longrightarrow> p_evict P p n prot = Some (ev, p') \<Longrightarrow> distinct (map fst ev)"
    and evict_idle: "inv p \<Longrightarrow> p_evict P p n prot = Some (ev, p') \<Longrightarrow> (k, b) \<in> set ev \<Longrightarrow>
      p_get P p k = Some b \<and> ref_cnt b = 0 \<and> k \<notin> prot"
    and evict_get: "inv p \<Longrightarrow> p_evict P p n prot = Some (ev, p') \<Longrightarrow>
      p_get P p' = (\<lambda>k. if k \<in> fst ` set ev then None else p_get P p k)"
    and evict_inv: "inv p \<Longrightarrow> p_evict P p n prot = Some (ev, p') \<Longrightarrow> inv p'"
    and clear_get: "p_get P (p_clear P p) = Map.empty"
    and clear_inv: "inv (p_clear P p)"
    and set_ref_get: "inv p \<Longrightarrow> p_get P p k = Some b \<Longrightarrow>
      p_get P (p_set_ref P p k r) = (p_get P p)(k \<mapsto> b\<lparr>ref_cnt := r\<rparr>)"
    and set_ref_inv: "inv p \<Longrightarrow> inv (p_set_ref P p k r)"

section \<open>Dictionaries of blocks\<close>

text \<open>An update of the value of a key, in place.\<close>

definition od_map_value :: "'k \<Rightarrow> ('v \<Rightarrow> 'v) \<Rightarrow> ('k, 'v) odict \<Rightarrow> ('k, 'v) odict" where
  "od_map_value k f d = map (\<lambda>(k', v). (k', if k' = k then f v else v)) d"

lemma od_map_value_keys [simp]: "map fst (od_map_value k f d) = map fst d"
  by (simp add: od_map_value_def split_def comp_def)

lemma od_map_value_dom [simp]: "dom (map_of (od_map_value k f d)) = dom (map_of d)"
  by (metis dom_map_of_conv_image_fst list.set_map od_map_value_keys)

lemma map_of_od_map_value:
  "map_of (od_map_value k f d) = (\<lambda>j. if j = k then map_option f (map_of d j) else map_of d j)"
  by (induction d) (auto simp: od_map_value_def fun_eq_iff)

text \<open>Idle and unprotected: what both policies may evict.\<close>

definition evictable_block :: "'k set \<Rightarrow> 'k \<times> block_status \<Rightarrow> bool" where
  "evictable_block prot kb \<longleftrightarrow> ref_cnt (snd kb) = 0 \<and> fst kb \<notin> prot"

lemma map_of_filter_notin:
  "distinct (map fst d) \<Longrightarrow> map_of (filter (\<lambda>kb. fst kb \<notin> K) d) = (\<lambda>k. if k \<in> K then None else map_of d k)"
  by (induction d) (auto simp: fun_eq_iff)

section \<open>LRU\<close>

record 'k lru_policy =
  lru_blocks :: "('k, block_status) odict"

definition lru_init :: "'k lru_policy" where
  "lru_init = \<lparr>lru_blocks = []\<rparr>"

definition lru_get :: "'k lru_policy \<Rightarrow> 'k \<Rightarrow> block_status option" where
  "lru_get p k = map_of (lru_blocks p) k"

definition lru_insert :: "'k lru_policy \<Rightarrow> 'k \<Rightarrow> block_status \<Rightarrow> 'k lru_policy" where
  "lru_insert p k b = p\<lparr>lru_blocks := AList.update k b (lru_blocks p)\<rparr>"

definition lru_remove :: "'k lru_policy \<Rightarrow> 'k \<Rightarrow> 'k lru_policy result" where
  "lru_remove p k =
     (if od_has (lru_blocks p) k then Inr (p\<lparr>lru_blocks := AList.delete k (lru_blocks p)\<rparr>)
      else Inl KeyError)"

definition lru_touch :: "'k lru_policy \<Rightarrow> 'k list \<Rightarrow> 'k lru_policy" where
  "lru_touch p keys =
     fold (\<lambda>k p. if od_has (lru_blocks p) k
                 then p\<lparr>lru_blocks := od_move_to_end (lru_blocks p) k\<rparr> else p) (rev keys) p"

definition lru_clear :: "'k lru_policy \<Rightarrow> 'k lru_policy" where
  "lru_clear p = p\<lparr>lru_blocks := []\<rparr>"

text \<open>The scan collects the first \<open>n\<close> evictable blocks in access order.\<close>

definition lru_evict ::
  "'k lru_policy \<Rightarrow> nat \<Rightarrow> 'k set \<Rightarrow> (('k \<times> block_status) list \<times> 'k lru_policy) option" where
  "lru_evict p n protected =
     (if n = 0 then Some ([], p)
      else
        (let candidates = take n (filter (evictable_block protected) (lru_blocks p))
         in if length candidates < n then None
            else Some (candidates,
              p\<lparr>lru_blocks := filter (\<lambda>kb. fst kb \<notin> fst ` set candidates) (lru_blocks p)\<rparr>)))"

definition lru_set_ref :: "'k lru_policy \<Rightarrow> 'k \<Rightarrow> int \<Rightarrow> 'k lru_policy" where
  "lru_set_ref p k r = p\<lparr>lru_blocks := od_map_value k (\<lambda>b. b\<lparr>ref_cnt := r\<rparr>) (lru_blocks p)\<rparr>"

definition lru_ops :: "('k, 'k lru_policy) policy_ops" where
  "lru_ops = \<lparr>p_get = lru_get, p_insert = lru_insert, p_remove = lru_remove, p_touch = lru_touch,
     p_evict = lru_evict, p_clear = lru_clear, p_set_ref = lru_set_ref\<rparr>"

definition lru_inv :: "'k lru_policy \<Rightarrow> bool" where
  "lru_inv p \<longleftrightarrow> distinct (map fst (lru_blocks p))"

lemmas lru_defs = lru_get_def lru_insert_def lru_remove_def lru_clear_def lru_set_ref_def lru_inv_def

lemma lru_touch_keeps:
  assumes "lru_inv p"
  shows "lru_inv (lru_touch p ks) \<and> lru_get (lru_touch p ks) = lru_get p"
proof -
  let ?f = "\<lambda>k p. if od_has (lru_blocks p) k then p\<lparr>lru_blocks := od_move_to_end (lru_blocks p) k\<rparr> else p"
  have "lru_inv (fold ?f xs u) \<and> lru_get (fold ?f xs u) = lru_get u" if "lru_inv u" for xs u
    using that
  proof (induction xs arbitrary: u)
    case (Cons x xs)
    have "lru_inv (?f x u)" "lru_get (?f x u) = lru_get u"
      using Cons.prems set_move_to_end(2) [of "lru_blocks u" x]
      by (auto simp: lru_inv_def lru_get_def od_simps fun_eq_iff)
    then show ?case using Cons.IH [of "?f x u"] by simp
  qed simp
  from this [OF assms, of "rev ks"] show ?thesis by (simp add: lru_touch_def)
qed

lemma lru_evict_facts:
  assumes "lru_inv p" "lru_evict p n prot = Some (ev, p')"
  shows "length ev = n" "distinct (map fst ev)" "set ev \<subseteq> {kb \<in> set (lru_blocks p). evictable_block prot kb}"
    "lru_blocks p' = filter (\<lambda>kb. fst kb \<notin> fst ` set ev) (lru_blocks p)"
proof -
  have "length ev = n \<and> distinct (map fst ev) \<and> set ev \<subseteq> {kb \<in> set (lru_blocks p). evictable_block prot kb} \<and>
    lru_blocks p' = filter (\<lambda>kb. fst kb \<notin> fst ` set ev) (lru_blocks p)"
  proof (cases "n = 0")
    case True
    then show ?thesis using assms(2) by (simp add: lru_evict_def)
  next
    case False
    let ?c = "take n (filter (evictable_block prot) (lru_blocks p))"
    have ev: "ev = ?c" "\<not> length ?c < n"
      "p' = p\<lparr>lru_blocks := filter (\<lambda>kb. fst kb \<notin> fst ` set ?c) (lru_blocks p)\<rparr>"
      using assms(2) False by (auto simp: lru_evict_def Let_def split: if_splits)
    have "length ev = n" using ev(1,2) by simp
    moreover have "distinct (map fst ev)"
      using assms(1) unfolding ev(1) lru_inv_def take_map [symmetric] by (simp add: distinct_map_filter)
    moreover have "set ev \<subseteq> {kb \<in> set (lru_blocks p). evictable_block prot kb}"
      unfolding ev(1) using set_take_subset [of n] by fastforce
    ultimately show ?thesis using ev(1,3) by simp
  qed
  then show "length ev = n" "distinct (map fst ev)" "set ev \<subseteq> {kb \<in> set (lru_blocks p). evictable_block prot kb}"
    "lru_blocks p' = filter (\<lambda>kb. fst kb \<notin> fst ` set ev) (lru_blocks p)" by auto
qed

interpretation lru: cache_policy lru_ops lru_inv
proof
  fix p :: "'a lru_policy" and k :: 'a and b r n prot ev p' ks
  show "lru_inv p \<Longrightarrow> finite (dom (p_get lru_ops p))"
    by (simp add: lru_ops_def lru_get_def [abs_def] finite_dom_map_of)
  show "p_get lru_ops (p_insert lru_ops p k b) = (p_get lru_ops p)(k \<mapsto> b)"
    by (simp add: lru_ops_def lru_defs od_simps fun_eq_iff)
  show "lru_inv p \<Longrightarrow> lru_inv (p_insert lru_ops p k b)"
    by (simp add: lru_ops_def lru_defs distinct_update)
  show "lru_inv p \<Longrightarrow> p_get lru_ops p k = Some b \<Longrightarrow>
      \<exists>p'. p_remove lru_ops p k = Inr p' \<and> lru_inv p' \<and> p_get lru_ops p' = (p_get lru_ops p)(k := None)"
    by (auto simp: lru_ops_def lru_defs od_has_iff od_simps fun_eq_iff distinct_delete)
  show "lru_inv p \<Longrightarrow> p_get lru_ops (p_touch lru_ops p ks) = p_get lru_ops p"
    "lru_inv p \<Longrightarrow> lru_inv (p_touch lru_ops p ks)"
    by (simp_all add: lru_ops_def lru_touch_keeps)
  show "p_get lru_ops (p_clear lru_ops p) = Map.empty" "lru_inv (p_clear lru_ops p)"
    by (auto simp: lru_ops_def lru_defs fun_eq_iff)
  show "lru_inv p \<Longrightarrow> p_get lru_ops p k = Some b \<Longrightarrow>
      p_get lru_ops (p_set_ref lru_ops p k r) = (p_get lru_ops p)(k \<mapsto> b\<lparr>ref_cnt := r\<rparr>)"
    "lru_inv p \<Longrightarrow> lru_inv (p_set_ref lru_ops p k r)"
    by (auto simp: lru_ops_def lru_defs map_of_od_map_value fun_eq_iff)
  assume "lru_inv p" "p_evict lru_ops p n prot = Some (ev, p')"
  then have inv: "lru_inv p" "lru_evict p n prot = Some (ev, p')" by (simp_all add: lru_ops_def)
  note E = lru_evict_facts [OF inv]
  have d: "distinct (map fst (lru_blocks p))" using inv(1) by (simp add: lru_inv_def)
  show "length ev = n" "distinct (map fst ev)" using E by simp_all
  show "lru_inv p'" using d E(4) by (simp add: lru_inv_def distinct_map_filter)
  show "p_get lru_ops p' = (\<lambda>k. if k \<in> fst ` set ev then None else p_get lru_ops p k)"
    using map_of_filter_notin [OF d, of "fst ` set ev"] E(4) by (simp add: lru_ops_def lru_get_def fun_eq_iff)
  show "(k, b) \<in> set ev \<Longrightarrow> p_get lru_ops p k = Some b \<and> ref_cnt b = 0 \<and> k \<notin> prot"
    using E(3) d by (auto simp: lru_ops_def lru_get_def evictable_block_def intro: map_of_is_SomeI)
qed

section \<open>ARC\<close>

record 'f float_ops =
  f_int :: "int \<Rightarrow> 'f"
  f_ratio :: "nat \<Rightarrow> nat \<Rightarrow> 'f"
  f_add :: "'f \<Rightarrow> 'f \<Rightarrow> 'f"
  f_sub :: "'f \<Rightarrow> 'f \<Rightarrow> 'f"
  f_max :: "'f \<Rightarrow> 'f \<Rightarrow> 'f"
  f_min :: "'f \<Rightarrow> 'f \<Rightarrow> 'f"
  f_trunc :: "'f \<Rightarrow> int"

record ('k, 'f) arc_policy =
  cache_capacity :: nat
  target_t1_size :: 'f
  arc_t1 :: "('k, block_status) odict"
  arc_t2 :: "('k, block_status) odict"
  arc_b1 :: "('k, unit) odict"
  arc_b2 :: "('k, unit) odict"

definition arc_init :: "'f float_ops \<Rightarrow> nat \<Rightarrow> ('k, 'f) arc_policy" where
  "arc_init F capacity =
     \<lparr>cache_capacity = capacity, target_t1_size = f_int F 0, arc_t1 = [], arc_t2 = [], arc_b1 = [], arc_b2 = []\<rparr>"

definition arc_get :: "('k, 'f) arc_policy \<Rightarrow> 'k \<Rightarrow> block_status option" where
  "arc_get p k = (case map_of (arc_t1 p) k of Some b \<Rightarrow> Some b | None \<Rightarrow> map_of (arc_t2 p) k)"

definition arc_insert :: "('k, 'f) arc_policy \<Rightarrow> 'k \<Rightarrow> block_status \<Rightarrow> ('k, 'f) arc_policy" where
  "arc_insert p k b =
     p\<lparr>arc_t1 := AList.update k b (arc_t1 p), arc_b1 := AList.delete k (arc_b1 p),
       arc_b2 := AList.delete k (arc_b2 p)\<rparr>"

definition arc_remove :: "('k, 'f) arc_policy \<Rightarrow> 'k \<Rightarrow> ('k, 'f) arc_policy result" where
  "arc_remove p k =
     (if od_has (arc_t1 p) k then Inr (p\<lparr>arc_t1 := AList.delete k (arc_t1 p)\<rparr>)
      else Inr (p\<lparr>arc_t2 := AList.delete k (arc_t2 p)\<rparr>))"

definition arc_touch_one :: "'f float_ops \<Rightarrow> 'k \<Rightarrow> ('k, 'f) arc_policy \<Rightarrow> ('k, 'f) arc_policy" where
  "arc_touch_one F k p =
     (case map_of (arc_t1 p) k of
        Some b \<Rightarrow>
          (let p = p\<lparr>arc_t1 := AList.delete k (arc_t1 p)\<rparr>
           in if \<not> is_ready b then p\<lparr>arc_t1 := AList.update k b (arc_t1 p)\<rparr>
              else p\<lparr>arc_t2 := AList.update k b (arc_t2 p)\<rparr>)
      | None \<Rightarrow>
          if od_has (arc_t2 p) k then p\<lparr>arc_t2 := od_move_to_end (arc_t2 p) k\<rparr>
          else if od_has (arc_b1 p) k then
            (let delta = f_max F (f_int F 1) (f_ratio F (length (arc_b2 p)) (length (arc_b1 p)))
             in p\<lparr>target_t1_size :=
                    f_min F (f_add F (target_t1_size p) delta) (f_int F (int (cache_capacity p))),
                  arc_b1 := od_move_to_end (arc_b1 p) k\<rparr>)
          else if od_has (arc_b2 p) k then
            (let delta = f_max F (f_int F 1) (f_ratio F (length (arc_b1 p)) (length (arc_b2 p)))
             in p\<lparr>target_t1_size := f_max F (f_sub F (target_t1_size p) delta) (f_int F 0),
                  arc_b2 := od_move_to_end (arc_b2 p) k\<rparr>)
          else p)"

definition arc_touch :: "'f float_ops \<Rightarrow> ('k, 'f) arc_policy \<Rightarrow> 'k list \<Rightarrow> ('k, 'f) arc_policy" where
  "arc_touch F p keys = fold (arc_touch_one F) (rev keys) p"

definition arc_clear :: "'f float_ops \<Rightarrow> ('k, 'f) arc_policy \<Rightarrow> ('k, 'f) arc_policy" where
  "arc_clear F p = p\<lparr>arc_t1 := [], arc_t2 := [], arc_b1 := [], arc_b2 := [], target_t1_size := f_int F 0\<rparr>"

text \<open>
  One round of the selection: from T1 while its simulated size is at least the target, else,
  or if T1 has no candidate, from T2. The flag says whether the candidate is from T1.
\<close>

definition arc_pick ::
  "('k, 'f) arc_policy \<Rightarrow> 'k set \<Rightarrow> int \<Rightarrow> int \<Rightarrow> 'k set \<Rightarrow> (('k \<times> block_status) \<times> bool) option" where
  "arc_pick p protected target virtual_t1_size already_selected =
     (let ok = (\<lambda>kb. evictable_block protected kb \<and> fst kb \<notin> already_selected)
      in case (if target \<le> virtual_t1_size then find ok (arc_t1 p) else None) of
           Some kb \<Rightarrow> Some (kb, True)
         | None \<Rightarrow> map_option (\<lambda>kb. (kb, False)) (find ok (arc_t2 p)))"

fun arc_select ::
  "('k, 'f) arc_policy \<Rightarrow> 'k set \<Rightarrow> int \<Rightarrow> nat \<Rightarrow> int \<Rightarrow> 'k set \<Rightarrow> (('k \<times> block_status) \<times> bool) list option"
where
  "arc_select p protected target 0 virtual_t1_size already_selected = Some []"
| "arc_select p protected target (Suc n) virtual_t1_size already_selected =
     (case arc_pick p protected target virtual_t1_size already_selected of
        None \<Rightarrow> None
      | Some (kb, from_t1) \<Rightarrow>
          map_option ((#) (kb, from_t1))
            (arc_select p protected target n (if from_t1 then virtual_t1_size - 1 else virtual_t1_size)
               (insert (fst kb) already_selected)))"

definition arc_apply :: "('k \<times> block_status) \<times> bool \<Rightarrow> ('k, 'f) arc_policy \<Rightarrow> ('k, 'f) arc_policy" where
  "arc_apply c p =
     (let k = fst (fst c)
      in if snd c then p\<lparr>arc_t1 := AList.delete k (arc_t1 p), arc_b1 := AList.update k () (arc_b1 p)\<rparr>
         else p\<lparr>arc_t2 := AList.delete k (arc_t2 p), arc_b2 := AList.update k () (arc_b2 p)\<rparr>)"

definition arc_trim :: "('k, 'f) arc_policy \<Rightarrow> ('k, 'f) arc_policy" where
  "arc_trim p =
     p\<lparr>arc_b1 := drop (length (arc_b1 p) - cache_capacity p) (arc_b1 p),
       arc_b2 := drop (length (arc_b2 p) - cache_capacity p) (arc_b2 p)\<rparr>"

definition arc_evict ::
  "'f float_ops \<Rightarrow> ('k, 'f) arc_policy \<Rightarrow> nat \<Rightarrow> 'k set \<Rightarrow>
   (('k \<times> block_status) list \<times> ('k, 'f) arc_policy) option" where
  "arc_evict F p n protected =
     (if n = 0 then Some ([], p)
      else
        (case arc_select p protected (f_trunc F (target_t1_size p)) n (int (length (arc_t1 p))) {} of
           None \<Rightarrow> None
         | Some candidates \<Rightarrow> Some (map fst candidates, arc_trim (fold arc_apply candidates p))))"

definition arc_set_ref :: "('k, 'f) arc_policy \<Rightarrow> 'k \<Rightarrow> int \<Rightarrow> ('k, 'f) arc_policy" where
  "arc_set_ref p k r =
     (if od_has (arc_t1 p) k
      then p\<lparr>arc_t1 := od_map_value k (\<lambda>b. b\<lparr>ref_cnt := r\<rparr>) (arc_t1 p)\<rparr>
      else p\<lparr>arc_t2 := od_map_value k (\<lambda>b. b\<lparr>ref_cnt := r\<rparr>) (arc_t2 p)\<rparr>)"

definition arc_ops :: "'f float_ops \<Rightarrow> ('k, ('k, 'f) arc_policy) policy_ops" where
  "arc_ops F = \<lparr>p_get = arc_get, p_insert = arc_insert, p_remove = arc_remove, p_touch = arc_touch F,
     p_evict = arc_evict F, p_clear = arc_clear F, p_set_ref = arc_set_ref\<rparr>"

text \<open>
  The four lists are duplicate-free and pairwise disjoint, and the ghost lists are no longer
  than the cache.
\<close>

definition arc_disjoint :: "('k, 'f) arc_policy \<Rightarrow> bool" where
  "arc_disjoint p \<longleftrightarrow>
     distinct (map fst (arc_t1 p)) \<and> distinct (map fst (arc_t2 p)) \<and>
     distinct (map fst (arc_b1 p)) \<and> distinct (map fst (arc_b2 p)) \<and>
     dom (map_of (arc_t1 p)) \<inter> dom (map_of (arc_t2 p)) = {} \<and>
     dom (map_of (arc_b1 p)) \<inter> dom (map_of (arc_b2 p)) = {} \<and>
     (dom (map_of (arc_t1 p)) \<union> dom (map_of (arc_t2 p))) \<inter>
     (dom (map_of (arc_b1 p)) \<union> dom (map_of (arc_b2 p))) = {}"

definition arc_inv :: "('k, 'f) arc_policy \<Rightarrow> bool" where
  "arc_inv p \<longleftrightarrow> arc_disjoint p \<and> length (arc_b1 p) \<le> cache_capacity p \<and> length (arc_b2 p) \<le> cache_capacity p"

lemma arc_get_alt: "arc_get p = map_of (arc_t2 p) ++ map_of (arc_t1 p)"
  by (rule ext) (simp add: arc_get_def map_add_def)

lemma arc_get_if: "arc_get p k = (if map_of (arc_t1 p) k = None then map_of (arc_t2 p) k else map_of (arc_t1 p) k)"
  by (auto simp: arc_get_def)

lemma arc_disjoint_t2: "arc_disjoint p \<Longrightarrow> map_of (arc_t1 p) k = Some b \<Longrightarrow> map_of (arc_t2 p) k = None"
  unfolding arc_disjoint_def by blast

lemma length_delete_le: "length (AList.delete k d) \<le> length d"
  by (simp add: AList.delete_eq)

lemma arc_touch_one_keeps:
  assumes inv: "arc_inv p"
  shows "arc_inv (arc_touch_one F k p) \<and> arc_get (arc_touch_one F k p) = arc_get p"
proof -
  note d = inv [unfolded arc_inv_def arc_disjoint_def]
  consider (t1) b where "map_of (arc_t1 p) k = Some b" "map_of (arc_t2 p) k = None"
    | (t2) "map_of (arc_t1 p) k = None" "od_has (arc_t2 p) k"
    | (ghost) "map_of (arc_t1 p) k = None" "\<not> od_has (arc_t2 p) k"
    using arc_disjoint_t2 [of p k] inv by (cases "map_of (arc_t1 p) k") (auto simp: arc_inv_def)
  then show ?thesis
  proof cases
    case t1
    have "arc_inv (arc_touch_one F k p)"
      using d t1 by (cases "is_ready b") (auto simp: arc_inv_def arc_disjoint_def arc_touch_one_def Let_def od_simps
          distinct_update distinct_delete simp del: map_of_eq_Some_iff Some_eq_map_of_iff)
    moreover have "arc_get (arc_touch_one F k p) j = arc_get p j" for j
      using t1 by (auto simp: arc_get_if arc_touch_one_def Let_def od_simps)
    ultimately show ?thesis by blast
  next
    case t2
    then show ?thesis
      using d set_move_to_end(2) [of "arc_t2 p" k]
      by (simp add: arc_inv_def arc_disjoint_def arc_touch_one_def Let_def od_simps arc_get_alt)
  next
    case ghost
    then show ?thesis
      using d set_move_to_end(2,4) [of "arc_b1 p" k] set_move_to_end(2,4) [of "arc_b2 p" k]
      by (simp add: arc_inv_def arc_disjoint_def arc_touch_one_def Let_def od_simps arc_get_alt)
  qed
qed

lemma arc_touch_keeps:
  assumes "arc_inv p"
  shows "arc_inv (arc_touch F p ks) \<and> arc_get (arc_touch F p ks) = arc_get p"
proof -
  have "arc_inv (fold (arc_touch_one F) xs u) \<and> arc_get (fold (arc_touch_one F) xs u) = arc_get u"
    if "arc_inv u" for xs and u :: "('a, 'b) arc_policy"
    using that
  proof (induction xs arbitrary: u)
    case (Cons x xs)
    then show ?case using arc_touch_one_keeps [OF Cons.prems, of F x] by simp
  qed simp
  from this [OF assms, of "rev ks"] show ?thesis by (simp add: arc_touch_def)
qed

text \<open>A selected candidate is still in the list its flag names.\<close>

definition located :: "('k \<times> block_status) \<times> bool \<Rightarrow> ('k, 'f) arc_policy \<Rightarrow> bool" where
  "located c p \<longleftrightarrow> map_of (if snd c then arc_t1 p else arc_t2 p) (fst (fst c)) = Some (snd (fst c))"

lemma arc_pick_located:
  assumes "arc_disjoint p" "arc_pick p prot tg v S = Some c"
  shows "located c p \<and> evictable_block prot (fst c) \<and> fst (fst c) \<notin> S"
proof -
  obtain kb t where c: "c = (kb, t)" by (cases c)
  let ?ok = "\<lambda>kb. evictable_block prot kb \<and> fst kb \<notin> S"
  have "find ?ok (if t then arc_t1 p else arc_t2 p) = Some kb"
    using assms(2) by (auto simp: c arc_pick_def Let_def split: option.splits if_splits)
  then have "kb \<in> set (if t then arc_t1 p else arc_t2 p) \<and> ?ok kb"
    by (auto simp: find_Some_iff)
  then show ?thesis
    using assms(1) by (cases kb) (auto simp: c located_def arc_disjoint_def intro!: map_of_is_SomeI)
qed

lemma arc_select_facts:
  assumes "arc_disjoint p" "arc_select p prot tg n v S = Some cs"
  shows "length cs = n \<and> distinct (map (\<lambda>c. fst (fst c)) cs) \<and>
    (\<forall>c \<in> set cs. located c p \<and> evictable_block prot (fst c) \<and> fst (fst c) \<notin> S)"
  using assms(2)
proof (induction n arbitrary: v S cs)
  case (Suc n)
  from Suc.prems obtain kb t ds where pick: "arc_pick p prot tg v S = Some (kb, t)"
    and ds: "arc_select p prot tg n (if t then v - 1 else v) (insert (fst kb) S) = Some ds"
    and cs: "cs = (kb, t) # ds"
    by (auto split: option.splits)
  show ?case using Suc.IH [OF ds] arc_pick_located [OF assms(1) pick] by (auto simp: cs)
qed simp

lemma arc_apply_step:
  assumes "arc_disjoint p" "located c p"
  shows "arc_disjoint (arc_apply c p)" "arc_get (arc_apply c p) = (arc_get p)(fst (fst c) := None)"
    "cache_capacity (arc_apply c p) = cache_capacity p"
proof -
  obtain k b t where c: "c = ((k, b), t)" by (metis surj_pair)
  show "arc_disjoint (arc_apply c p)"
    using assms by (cases t) (auto simp: c arc_apply_def located_def arc_disjoint_def od_simps distinct_update
        distinct_delete simp del: map_of_eq_Some_iff Some_eq_map_of_iff)
  show "arc_get (arc_apply c p) = (arc_get p)(fst (fst c) := None)"
    using assms arc_disjoint_t2 [OF assms(1), of k]
    by (cases t; cases "map_of (arc_t1 p) k")
      (auto simp: c arc_apply_def located_def arc_get_if od_simps fun_eq_iff)
  show "cache_capacity (arc_apply c p) = cache_capacity p"
    by (simp add: arc_apply_def Let_def)
qed

lemma arc_apply_located:
  "located d p \<Longrightarrow> fst (fst d) \<noteq> fst (fst c) \<Longrightarrow> located d (arc_apply c p)"
  by (cases "snd d") (auto simp: located_def arc_apply_def Let_def od_simps)

lemma arc_apply_all:
  assumes "arc_disjoint p" "distinct (map (\<lambda>c. fst (fst c)) cs)" "\<forall>c \<in> set cs. located c p"
  shows "arc_disjoint (fold arc_apply cs p) \<and> cache_capacity (fold arc_apply cs p) = cache_capacity p \<and>
    arc_get (fold arc_apply cs p) = (\<lambda>k. if k \<in> fst ` fst ` set cs then None else arc_get p k)"
  using assms
proof (induction cs arbitrary: p)
  case (Cons c cs)
  note step = arc_apply_step [OF Cons.prems(1), of c]
  have loc: "located c p" "\<And>d. d \<in> set cs \<Longrightarrow> located d p" using Cons.prems(3) by simp_all
  have "fst (fst d) \<noteq> fst (fst c)" if "d \<in> set cs" for d
    using that Cons.prems(2) by (force simp: image_iff)
  then have "\<forall>d \<in> set cs. located d (arc_apply c p)"
    using loc(2) by (blast intro: arc_apply_located)
  moreover have "distinct (map (\<lambda>c. fst (fst c)) cs)" using Cons.prems(2) by simp
  ultimately show ?case
    using Cons.IH [OF step(1) [OF loc(1)]] step(2,3) [OF loc(1)] by (simp add: fun_eq_iff)
qed simp

lemma dom_drop_subset: "dom (map_of (drop n d)) \<subseteq> dom (map_of d)"
  by (auto simp: dom_map_of_conv_image_fst dest!: in_set_dropD)

lemma disjoint_mono: "A \<subseteq> B \<Longrightarrow> C \<subseteq> D \<Longrightarrow> B \<inter> D = {} \<Longrightarrow> A \<inter> C = {}"
  by blast

lemma disjoint_shrink: "T \<inter> (B \<union> D) = {} \<Longrightarrow> A \<subseteq> B \<Longrightarrow> C \<subseteq> D \<Longrightarrow> T \<inter> (A \<union> C) = {}"
  by blast

lemma arc_trim_facts:
  assumes "arc_disjoint p"
  shows "arc_inv (arc_trim p)" "arc_get (arc_trim p) = arc_get p"
proof -
  have "distinct (map fst (drop n d))" if "distinct (map fst d)" for n and d :: "('a, unit) odict"
    using that by (metis distinct_drop drop_map)
  moreover have "dom (map_of (drop i (arc_b1 p))) \<inter> dom (map_of (drop j (arc_b2 p))) = {}" for i j
    by (rule disjoint_mono [OF dom_drop_subset dom_drop_subset])
      (use assms in \<open>simp add: arc_disjoint_def\<close>)
  moreover have "T \<inter> (dom (map_of (drop i (arc_b1 p))) \<union> dom (map_of (drop j (arc_b2 p)))) = {}"
    if "T \<inter> (dom (map_of (arc_b1 p)) \<union> dom (map_of (arc_b2 p))) = {}" for i j T
    using that dom_drop_subset [of i "arc_b1 p"] dom_drop_subset [of j "arc_b2 p"] by (rule disjoint_shrink)
  moreover have "n - (n - m) \<le> m" for n m :: nat by simp
  ultimately show "arc_inv (arc_trim p)"
    using assms unfolding arc_inv_def arc_disjoint_def arc_trim_def by simp
  show "arc_get (arc_trim p) = arc_get p" by (simp add: arc_trim_def arc_get_alt)
qed

lemma arc_evict_facts:
  assumes "arc_inv p" "arc_evict F p n prot = Some (ev, p')"
  shows "length ev = n \<and> distinct (map fst ev) \<and>
    (\<forall>kb \<in> set ev. arc_get p (fst kb) = Some (snd kb) \<and> evictable_block prot kb) \<and>
    arc_inv p' \<and> arc_get p' = (\<lambda>k. if k \<in> fst ` set ev then None else arc_get p k)"
proof (cases "n = 0")
  case True
  then show ?thesis using assms by (auto simp: arc_evict_def)
next
  case False
  have d: "arc_disjoint p" using assms(1) by (simp add: arc_inv_def)
  from False assms(2) obtain cs
    where cs: "arc_select p prot (f_trunc F (target_t1_size p)) n (int (length (arc_t1 p))) {} = Some cs"
      and ev: "ev = map fst cs" "p' = arc_trim (fold arc_apply cs p)"
    by (auto simp: arc_evict_def split: option.splits)
  note S = arc_select_facts [OF d cs]
  have A: "arc_disjoint (fold arc_apply cs p)"
    "arc_get (fold arc_apply cs p) = (\<lambda>k. if k \<in> fst ` fst ` set cs then None else arc_get p k)"
    using arc_apply_all [OF d, of cs] S by blast+
  have G: "arc_get p (fst (fst c)) = Some (snd (fst c))" if "located c p" for c
    using that d arc_disjoint_t2 [OF d, of "fst (fst c)"]
    by (cases "map_of (arc_t1 p) (fst (fst c))") (auto simp: located_def arc_get_if split: if_splits)
  show ?thesis
    using S A G arc_trim_facts [OF A(1)] by (auto simp: ev comp_def)
qed

interpretation arc: cache_policy "arc_ops F" arc_inv for F :: "'f float_ops"
proof
  fix p :: "('a, 'f) arc_policy" and k :: 'a and b r n prot ev p' ks
  note arc_defs = arc_ops_def arc_inv_def arc_disjoint_def arc_insert_def arc_remove_def arc_clear_def arc_set_ref_def
  show "finite (dom (p_get (arc_ops F) p))"
    by (simp add: arc_ops_def arc_get_alt finite_dom_map_of)
  show "p_get (arc_ops F) (p_insert (arc_ops F) p k b) = (p_get (arc_ops F) p)(k \<mapsto> b)"
    by (simp add: arc_ops_def arc_insert_def arc_get_alt od_simps)
  show "arc_inv p \<Longrightarrow> p_get (arc_ops F) p k = None \<Longrightarrow> arc_inv (p_insert (arc_ops F) p k b)"
    using length_delete_le [of k "arc_b1 p"] length_delete_le [of k "arc_b2 p"]
    by (cases "map_of (arc_t1 p) k")
      (auto simp: arc_defs arc_get_if od_simps distinct_update distinct_delete simp del: map_of_eq_Some_iff Some_eq_map_of_iff)
  show "arc_inv p \<Longrightarrow> p_get (arc_ops F) p k = Some b \<Longrightarrow>
      \<exists>p'. p_remove (arc_ops F) p k = Inr p' \<and> arc_inv p' \<and> p_get (arc_ops F) p' = (p_get (arc_ops F) p)(k := None)"
    using arc_disjoint_t2 [of p k]
    by (cases "map_of (arc_t1 p) k")
      (auto simp: arc_defs arc_get_if od_has_iff od_simps fun_eq_iff distinct_delete simp del: map_of_eq_Some_iff Some_eq_map_of_iff)
  show "arc_inv p \<Longrightarrow> p_get (arc_ops F) (p_touch (arc_ops F) p ks) = p_get (arc_ops F) p"
    "arc_inv p \<Longrightarrow> arc_inv (p_touch (arc_ops F) p ks)"
    by (simp_all add: arc_ops_def arc_touch_keeps)
  show "p_get (arc_ops F) (p_clear (arc_ops F) p) = Map.empty" "arc_inv (p_clear (arc_ops F) p)"
    by (auto simp: arc_defs arc_get_if fun_eq_iff)
  show "arc_inv p \<Longrightarrow> p_get (arc_ops F) p k = Some b \<Longrightarrow>
      p_get (arc_ops F) (p_set_ref (arc_ops F) p k r) = (p_get (arc_ops F) p)(k \<mapsto> b\<lparr>ref_cnt := r\<rparr>)"
    by (cases "map_of (arc_t1 p) k")
      (auto simp: arc_ops_def arc_set_ref_def arc_get_if od_has_iff map_of_od_map_value fun_eq_iff)
  show "arc_inv p \<Longrightarrow> arc_inv (p_set_ref (arc_ops F) p k r)"
    by (simp add: arc_defs)
  assume "arc_inv p" "p_evict (arc_ops F) p n prot = Some (ev, p')"
  then have E: "length ev = n" "distinct (map fst ev)" "arc_inv p'"
      "\<forall>kb \<in> set ev. arc_get p (fst kb) = Some (snd kb) \<and> evictable_block prot kb"
      "arc_get p' = (\<lambda>k. if k \<in> fst ` set ev then None else arc_get p k)"
    using arc_evict_facts [of p F n prot ev p'] by (auto simp: arc_ops_def)
  show "length ev = n" "distinct (map fst ev)" "arc_inv p'" using E by simp_all
  show "p_get (arc_ops F) p' = (\<lambda>k. if k \<in> fst ` set ev then None else p_get (arc_ops F) p k)"
    using E(5) unfolding arc_ops_def policy_ops.simps by simp
  show "(k, b) \<in> set ev \<Longrightarrow> p_get (arc_ops F) p k = Some b \<and> ref_cnt b = 0 \<and> k \<notin> prot"
    using E(4) by (auto simp: arc_ops_def evictable_block_def)
qed

section \<open>A policy object\<close>

text \<open>
  The manager holds a policy chosen by name when it is built; a call on it is dispatched on
  its class.
\<close>

datatype ('k, 'f) policy_obj = LRU_obj "'k lru_policy" | ARC_obj "('k, 'f) arc_policy"

definition policy_table :: "'f float_ops \<Rightarrow> string \<Rightarrow> (nat \<Rightarrow> ('k, 'f) policy_obj) option" where
  "policy_table F name =
     (if name = ''lru'' then Some (\<lambda>_. LRU_obj lru_init)
      else if name = ''arc'' then Some (\<lambda>capacity. ARC_obj (arc_init F capacity))
      else None)"

definition any_ops :: "'f float_ops \<Rightarrow> ('k, ('k, 'f) policy_obj) policy_ops" where
  "any_ops F =
     \<lparr>p_get = (\<lambda>q k. case q of LRU_obj p \<Rightarrow> lru_get p k | ARC_obj p \<Rightarrow> arc_get p k),
      p_insert = (\<lambda>q k b. case q of LRU_obj p \<Rightarrow> LRU_obj (lru_insert p k b) | ARC_obj p \<Rightarrow> ARC_obj (arc_insert p k b)),
      p_remove = (\<lambda>q k. case q of
          LRU_obj p \<Rightarrow> map_sum id LRU_obj (lru_remove p k)
        | ARC_obj p \<Rightarrow> map_sum id ARC_obj (arc_remove p k)),
      p_touch = (\<lambda>q ks. case q of LRU_obj p \<Rightarrow> LRU_obj (lru_touch p ks) | ARC_obj p \<Rightarrow> ARC_obj (arc_touch F p ks)),
      p_evict = (\<lambda>q n prot. case q of
          LRU_obj p \<Rightarrow> map_option (map_prod id LRU_obj) (lru_evict p n prot)
        | ARC_obj p \<Rightarrow> map_option (map_prod id ARC_obj) (arc_evict F p n prot)),
      p_clear = (\<lambda>q. case q of LRU_obj p \<Rightarrow> LRU_obj (lru_clear p) | ARC_obj p \<Rightarrow> ARC_obj (arc_clear F p)),
      p_set_ref = (\<lambda>q k r. case q of LRU_obj p \<Rightarrow> LRU_obj (lru_set_ref p k r) | ARC_obj p \<Rightarrow> ARC_obj (arc_set_ref p k r))\<rparr>"

definition any_inv :: "('k, 'f) policy_obj \<Rightarrow> bool" where
  "any_inv q = (case q of LRU_obj p \<Rightarrow> lru_inv p | ARC_obj p \<Rightarrow> arc_inv p)"

lemma any_ops_simps [simp]:
  "p_get (any_ops F) (LRU_obj l) = p_get lru_ops l" "p_get (any_ops F) (ARC_obj a) = p_get (arc_ops F) a"
  "p_insert (any_ops F) (LRU_obj l) k b = LRU_obj (p_insert lru_ops l k b)"
  "p_insert (any_ops F) (ARC_obj a) k b = ARC_obj (p_insert (arc_ops F) a k b)"
  "p_remove (any_ops F) (LRU_obj l) k = map_sum id LRU_obj (p_remove lru_ops l k)"
  "p_remove (any_ops F) (ARC_obj a) k = map_sum id ARC_obj (p_remove (arc_ops F) a k)"
  "p_touch (any_ops F) (LRU_obj l) ks = LRU_obj (p_touch lru_ops l ks)"
  "p_touch (any_ops F) (ARC_obj a) ks = ARC_obj (p_touch (arc_ops F) a ks)"
  "p_evict (any_ops F) (LRU_obj l) n prot = map_option (map_prod id LRU_obj) (p_evict lru_ops l n prot)"
  "p_evict (any_ops F) (ARC_obj a) n prot = map_option (map_prod id ARC_obj) (p_evict (arc_ops F) a n prot)"
  "p_clear (any_ops F) (LRU_obj l) = LRU_obj (p_clear lru_ops l)"
  "p_clear (any_ops F) (ARC_obj a) = ARC_obj (p_clear (arc_ops F) a)"
  "p_set_ref (any_ops F) (LRU_obj l) k r = LRU_obj (p_set_ref lru_ops l k r)"
  "p_set_ref (any_ops F) (ARC_obj a) k r = ARC_obj (p_set_ref (arc_ops F) a k r)"
  "any_inv (LRU_obj l) = lru_inv l" "any_inv (ARC_obj a) = arc_inv a"
  by (simp_all add: any_ops_def lru_ops_def arc_ops_def any_inv_def fun_eq_iff)

interpretation any: cache_policy "any_ops F :: ('k, ('k, 'f) policy_obj) policy_ops" any_inv for F :: "'f float_ops"
proof
  fix q :: "('k, 'f) policy_obj" and k :: 'k and b :: block_status and r :: int and n prot ev q' ks
  show "any_inv q \<Longrightarrow> finite (dom (p_get (any_ops F) q))"
    by (cases q) (simp_all add: lru.finite_get arc.finite_get)
  show "any_inv q \<Longrightarrow> p_get (any_ops F) q k = None \<Longrightarrow>
      p_get (any_ops F) (p_insert (any_ops F) q k b) = (p_get (any_ops F) q)(k \<mapsto> b)"
    by (cases q) (simp_all add: lru.insert_get arc.insert_get)
  show "any_inv q \<Longrightarrow> p_get (any_ops F) q k = None \<Longrightarrow> any_inv (p_insert (any_ops F) q k b)"
    by (cases q) (simp_all add: lru.insert_inv arc.insert_inv [where F = F])
  show "any_inv q \<Longrightarrow> p_get (any_ops F) q k = Some b \<Longrightarrow>
      \<exists>q'. p_remove (any_ops F) q k = Inr q' \<and> any_inv q' \<and> p_get (any_ops F) q' = (p_get (any_ops F) q)(k := None)"
  proof (cases q)
    case (LRU_obj l)
    assume "any_inv q" "p_get (any_ops F) q k = Some b"
    then show ?thesis using lru.remove_get [of l k b] by (auto simp: LRU_obj)
  next
    case (ARC_obj a)
    assume "any_inv q" "p_get (any_ops F) q k = Some b"
    then show ?thesis using arc.remove_get [of a F k b] by (auto simp: ARC_obj)
  qed
  show "any_inv q \<Longrightarrow> p_get (any_ops F) (p_touch (any_ops F) q ks) = p_get (any_ops F) q"
    "any_inv q \<Longrightarrow> any_inv (p_touch (any_ops F) q ks)"
    by (cases q; simp add: lru.touch_get arc.touch_get lru.touch_inv arc.touch_inv)+
  show "p_get (any_ops F) (p_clear (any_ops F) q) = Map.empty" "any_inv (p_clear (any_ops F) q)"
    by (cases q; simp add: lru.clear_get arc.clear_get lru.clear_inv arc.clear_inv)+
  show "any_inv q \<Longrightarrow> p_get (any_ops F) q k = Some b \<Longrightarrow>
      p_get (any_ops F) (p_set_ref (any_ops F) q k r) = (p_get (any_ops F) q)(k \<mapsto> b\<lparr>ref_cnt := r\<rparr>)"
    "any_inv q \<Longrightarrow> any_inv (p_set_ref (any_ops F) q k r)"
    by (cases q; simp add: lru.set_ref_get arc.set_ref_get lru.set_ref_inv arc.set_ref_inv)+
  assume inv: "any_inv q" and ev: "p_evict (any_ops F) q n prot = Some (ev, q')"
  have "length ev = n \<and> distinct (map fst ev) \<and> any_inv q' \<and>
    p_get (any_ops F) q' = (\<lambda>k. if k \<in> fst ` set ev then None else p_get (any_ops F) q k) \<and>
    ((k, b) \<in> set ev \<longrightarrow> p_get (any_ops F) q k = Some b \<and> ref_cnt b = 0 \<and> k \<notin> prot)"
  proof (cases q)
    case (LRU_obj l)
    with ev obtain l' where l': "p_evict lru_ops l n prot = Some (ev, l')" "q' = LRU_obj l'" by auto
    have l: "lru_inv l" using inv by (simp add: LRU_obj)
    show ?thesis
      using lru.evict_length [OF l l'(1)] lru.evict_distinct [OF l l'(1)] lru.evict_inv [OF l l'(1)]
        lru.evict_get [OF l l'(1)] lru.evict_idle [OF l l'(1), of k b] by (simp add: LRU_obj l'(2) cong: if_cong)
  next
    case (ARC_obj a)
    with ev obtain a' where a': "p_evict (arc_ops F) a n prot = Some (ev, a')" "q' = ARC_obj a'" by auto
    have a: "arc_inv a" using inv by (simp add: ARC_obj)
    show ?thesis
      using arc.evict_length [OF a a'(1)] arc.evict_distinct [OF a a'(1)] arc.evict_inv [OF a a'(1)]
        arc.evict_get [OF a a'(1)] arc.evict_idle [OF a a'(1), of k b] by (simp add: ARC_obj a'(2) cong: if_cong)
  qed
  then show "length ev = n" "distinct (map fst ev)" "any_inv q'"
    "p_get (any_ops F) q' = (\<lambda>k. if k \<in> fst ` set ev then None else p_get (any_ops F) q k)"
    "(k, b) \<in> set ev \<Longrightarrow> p_get (any_ops F) q k = Some b \<and> ref_cnt b = 0 \<and> k \<notin> prot"
    by blast+
qed

end
