(* ===== verification/Cpu_Manager.thy ===== *)
theory Cpu_Manager
  imports Cache_Policy "HOL-Library.Multiset"
begin

text \<open>
  \<open>CPUOffloadingManager\<close> of \<^verbatim>\<open>kv_offload/cpu/manager.py\<close>: reference counts, the pool
  of CPU block ids and the store/load protocol over a replacement policy. Every operation takes
  the dispatch table of the policy; what holds for every policy is proved in the locale
  \<open>cache_policy\<close> and stated for the policy objects the constructor builds.
\<close>

section \<open>State\<close>

record 'k offloading_event =
  ev_keys :: "'k list"
  ev_medium :: string
  ev_removed :: bool

record 'k prepare_store_output =
  keys_to_store :: "'k list"
  store_spec :: "nat list"
  evicted_keys :: "'k list"

record ('k, 'p) cpu_manager =
  cm_medium :: string
  cm_num_blocks :: nat
  cm_num_allocated :: nat
  cm_free_list :: "nat list"
  cm_events :: "'k offloading_event list option"
  cm_policy :: 'p
  cm_store_threshold :: int
  cm_max_tracker_size :: int
  cm_counts :: "('k, int) odict option"

definition cm_init ::
  "'f float_ops \<Rightarrow> nat \<Rightarrow> string \<Rightarrow> bool \<Rightarrow> int \<Rightarrow> int \<Rightarrow> ('k, ('k, 'f) policy_obj) cpu_manager result"
where
  "cm_init F num_blocks policy_name enable_events store_threshold max_tracker_size =
     (case policy_table F policy_name of
        None \<Rightarrow> Inl ValueError
      | Some policy_cls \<Rightarrow> Inr
          \<lparr>cm_medium = ''CPU'', cm_num_blocks = num_blocks, cm_num_allocated = 0, cm_free_list = [],
           cm_events = (if enable_events then Some [] else None), cm_policy = policy_cls num_blocks,
           cm_store_threshold = store_threshold, cm_max_tracker_size = max_tracker_size,
           cm_counts = (if 2 \<le> store_threshold then Some [] else None)\<rparr>)"

section \<open>The block pool\<close>

definition get_num_free_blocks :: "('k, 'p) cpu_manager \<Rightarrow> int" where
  "get_num_free_blocks m =
     int (length (cm_free_list m)) + int (cm_num_blocks m) - int (cm_num_allocated m)"

text \<open>Fresh ids first, then ids popped from the end of the free list.\<close>

definition allocate_blocks ::
  "'k list \<Rightarrow> ('k, 'p) cpu_manager \<Rightarrow> (block_status list \<times> ('k, 'p) cpu_manager) result" where
  "allocate_blocks keys m =
     (let num_fresh = min (int (length keys)) (int (cm_num_blocks m) - int (cm_num_allocated m));
          num_reused = int (length keys) - num_fresh
      in chain (guard (num_reused \<le> int (length (cm_free_list m))) AssertionError) (\<lambda>_.
         Inr (map new_block_status
                ([cm_num_allocated m ..< cm_num_allocated m + nat num_fresh] @
                 take (nat num_reused) (rev (cm_free_list m))),
              m\<lparr>cm_num_allocated := cm_num_allocated m + nat num_fresh,
                cm_free_list := rev (drop (nat num_reused) (rev (cm_free_list m)))\<rparr>)))"

definition free_block :: "block_status \<Rightarrow> ('k, 'p) cpu_manager \<Rightarrow> ('k, 'p) cpu_manager" where
  "free_block b m = m\<lparr>cm_free_list := cm_free_list m @ [block_id b]\<rparr>"

section \<open>The manager's interface\<close>

definition track_lookup :: "'k \<Rightarrow> int \<Rightarrow> ('k, int) odict \<Rightarrow> ('k, int) odict" where
  "track_lookup key max_size counts =
     (case map_of counts key of
        Some n \<Rightarrow> AList.update key (n + 1) (od_move_to_end counts key)
      | None \<Rightarrow>
          AList.update key 1 (if max_size \<le> int (length counts) then tl counts else counts))"

text \<open>\<open>popitem\<close> on the empty tracker, which a non-positive bound reaches, raises.\<close>

definition cm_lookup ::
  "('k, 'p) policy_ops \<Rightarrow> 'k \<Rightarrow> ('k, 'p) cpu_manager \<Rightarrow> (bool option \<times> ('k, 'p) cpu_manager) result" where
  "cm_lookup P key m =
     chain (case cm_counts m of
              None \<Rightarrow> Inr m
            | Some counts \<Rightarrow>
                if \<not> od_has counts key \<and> cm_max_tracker_size m \<le> int (length counts) \<and> counts = []
                then Inl KeyError
                else Inr (m\<lparr>cm_counts := Some (track_lookup key (cm_max_tracker_size m) counts)\<rparr>))
       (\<lambda>m. Inr (case p_get P (cm_policy m) key of
                   None \<Rightarrow> Some False
                 | Some block \<Rightarrow> if is_ready block then Some True else None, m))"

definition set_ref_cnt :: "('k, 'p) policy_ops \<Rightarrow> 'k \<Rightarrow> int \<Rightarrow> ('k, 'p) cpu_manager \<Rightarrow> ('k, 'p) cpu_manager" where
  "set_ref_cnt P key r m = m\<lparr>cm_policy := p_set_ref P (cm_policy m) key (c_int32 r)\<rparr>"

definition cm_prepare_load ::
  "('k, 'p) policy_ops \<Rightarrow> 'k list \<Rightarrow> ('k, 'p) cpu_manager \<Rightarrow> (nat list \<times> ('k, 'p) cpu_manager) result" where
  "cm_prepare_load P keys m =
     for_each keys (\<lambda>key (blocks, m).
       case p_get P (cm_policy m) key of
         None \<Rightarrow> Inl AssertionError
       | Some block \<Rightarrow>
           chain (guard (is_ready block) AssertionError) (\<lambda>_.
             Inr (blocks @ [block_id block], set_ref_cnt P key (ref_cnt block + 1) m)))
       ([], m)"

definition cm_touch :: "('k, 'p) policy_ops \<Rightarrow> 'k list \<Rightarrow> ('k, 'p) cpu_manager \<Rightarrow> ('k, 'p) cpu_manager" where
  "cm_touch P keys m = m\<lparr>cm_policy := p_touch P (cm_policy m) keys\<rparr>"

definition cm_complete_load ::
  "('k, 'p) policy_ops \<Rightarrow> 'k list \<Rightarrow> ('k, 'p) cpu_manager \<Rightarrow> ('k, 'p) cpu_manager result" where
  "cm_complete_load P keys m =
     for_each keys (\<lambda>key m.
       case p_get P (cm_policy m) key of
         None \<Rightarrow> Inl AssertionError
       | Some block \<Rightarrow>
           chain (guard (0 < ref_cnt block) AssertionError) (\<lambda>_.
             Inr (set_ref_cnt P key (ref_cnt block - 1) m)))
       m"

definition append_event :: "'k list \<Rightarrow> bool \<Rightarrow> ('k, 'p) cpu_manager \<Rightarrow> ('k, 'p) cpu_manager" where
  "append_event keys removed m =
     (case cm_events m of
        Some es \<Rightarrow>
          if keys = [] then m
          else m\<lparr>cm_events := Some (es @ [\<lparr>ev_keys = keys, ev_medium = cm_medium m, ev_removed = removed\<rparr>])\<rparr>
      | None \<Rightarrow> m)"

definition insert_blocks ::
  "('k, 'p) policy_ops \<Rightarrow> ('k \<times> block_status) list \<Rightarrow> ('k, 'p) cpu_manager \<Rightarrow> ('k, 'p) cpu_manager" where
  "insert_blocks P kbs m =
     fold (\<lambda>(key, block) m. m\<lparr>cm_policy := p_insert P (cm_policy m) key block\<rparr>) kbs m"

definition cm_store_keys :: "'k list \<Rightarrow> ('k, 'p) cpu_manager \<Rightarrow> 'k list" where
  "cm_store_keys keys m =
     (case cm_counts m of
        None \<Rightarrow> keys
      | Some counts \<Rightarrow>
          filter (\<lambda>k. cm_store_threshold m \<le> (case map_of counts k of None \<Rightarrow> 0 | Some n \<Rightarrow> n)) keys)"

definition cm_evict ::
  "('k, 'p) policy_ops \<Rightarrow> int \<Rightarrow> 'k set \<Rightarrow> ('k, 'p) cpu_manager \<Rightarrow> ('k list \<times> ('k, 'p) cpu_manager) option" where
  "cm_evict P num_blocks_to_evict protected m =
     (if 0 < num_blocks_to_evict then
        (case p_evict P (cm_policy m) (nat num_blocks_to_evict) protected of
           None \<Rightarrow> None
         | Some (evicted, policy) \<Rightarrow>
             Some (map fst evicted, fold (\<lambda>(key, block). free_block block) evicted (m\<lparr>cm_policy := policy\<rparr>)))
      else Some ([], m))"

definition cm_prepare_store ::
  "('k, 'p) policy_ops \<Rightarrow> 'k list \<Rightarrow> ('k, 'p) cpu_manager \<Rightarrow>
   ('k prepare_store_output option \<times> ('k, 'p) cpu_manager) result" where
  "cm_prepare_store P keys m =
     (let keys = cm_store_keys keys m;
          to_store = filter (\<lambda>k. p_get P (cm_policy m) k = None) keys
      in if to_store = [] then Inr (Some \<lparr>keys_to_store = [], store_spec = [], evicted_keys = []\<rparr>, m)
         else case cm_evict P (int (length to_store) - get_num_free_blocks m) (set keys) m of
                None \<Rightarrow> Inr (None, m)
              | Some (to_evict, m) \<Rightarrow>
                  chain (allocate_blocks to_store (append_event to_evict True m)) (\<lambda>(blocks, m).
                  chain (guard (length blocks = length to_store) AssertionError) (\<lambda>_.
                    Inr (Some \<lparr>keys_to_store = to_store, store_spec = map block_id blocks, evicted_keys = to_evict\<rparr>,
                         insert_blocks P (zip to_store blocks) m))))"

definition cm_complete_store ::
  "('k, 'p) policy_ops \<Rightarrow> 'k list \<Rightarrow> bool \<Rightarrow> ('k, 'p) cpu_manager \<Rightarrow> ('k, 'p) cpu_manager result" where
  "cm_complete_store P keys success m =
     (if success then
        chain (for_each keys (\<lambda>key (stored, m).
            case p_get P (cm_policy m) key of
              None \<Rightarrow> Inr (stored, m)
            | Some block \<Rightarrow>
                if is_ready block then Inr (stored, m) else Inr (stored @ [key], set_ref_cnt P key 0 m)) ([], m))
          (\<lambda>(stored, m). Inr (append_event stored False m))
      else
        for_each keys (\<lambda>key m.
          case p_get P (cm_policy m) key of
            None \<Rightarrow> Inr m
          | Some block \<Rightarrow>
              if is_ready block then Inr m
              else chain (p_remove P (cm_policy m) key) (\<lambda>policy. Inr (free_block block (m\<lparr>cm_policy := policy\<rparr>)))) m)"

definition cm_reset_cache :: "('k, 'p) policy_ops \<Rightarrow> ('k, 'p) cpu_manager \<Rightarrow> ('k, 'p) cpu_manager" where
  "cm_reset_cache P m =
     m\<lparr>cm_policy := p_clear P (cm_policy m), cm_free_list := [], cm_num_allocated := 0\<rparr>"

definition cm_take_events :: "('k, 'p) cpu_manager \<Rightarrow> 'k offloading_event list \<times> ('k, 'p) cpu_manager" where
  "cm_take_events m =
     (case cm_events m of None \<Rightarrow> ([], m) | Some es \<Rightarrow> (es, m\<lparr>cm_events := Some []\<rparr>))"

section \<open>The pool as a partition\<close>

text \<open>
  The ids below \<open>A\<close> are split between the list \<open>xs\<close> and the blocks of \<open>G\<close>, each id in one
  place only.
\<close>

definition owns :: "('k \<rightharpoonup> block_status) \<Rightarrow> 'k \<Rightarrow> nat \<Rightarrow> bool" where
  "owns G k i \<longleftrightarrow> map_option block_id (G k) = Some i"

definition pool_ok :: "nat \<Rightarrow> nat list \<Rightarrow> ('k \<rightharpoonup> block_status) \<Rightarrow> bool" where
  "pool_ok A xs G \<longleftrightarrow>
     distinct xs \<and> (\<forall>i. i < A \<longleftrightarrow> i \<in> set xs \<or> (\<exists>k. owns G k i)) \<and>
     (\<forall>k i. owns G k i \<longrightarrow> i \<notin> set xs) \<and> (\<forall>k k' i. owns G k i \<longrightarrow> owns G k' i \<longrightarrow> k = k')"

lemma owns_Some: "G k = Some b \<Longrightarrow> owns G k i \<longleftrightarrow> i = block_id b"
  by (auto simp: owns_def)

lemma owns_upd [simp]:
  "owns (G(k := None)) j i \<longleftrightarrow> j \<noteq> k \<and> owns G j i"
  "owns (G(k \<mapsto> b)) j i \<longleftrightarrow> (if j = k then i = block_id b else owns G j i)"
  by (auto simp: owns_def)

lemma pool_ok_perm:
  assumes "mset xs = mset ys"
  shows "pool_ok A xs G = pool_ok A ys G"
  using mset_eq_setD [OF assms] mset_eq_imp_distinct_iff [OF assms] by (simp add: pool_ok_def)

lemma pool_ok_give:
  assumes "pool_ok A xs G" "G k = Some b"
  shows "pool_ok A (xs @ [block_id b]) (G(k := None))"
proof -
  have "owns G k i \<longleftrightarrow> i = block_id b" for i using assms(2) by (rule owns_Some)
  then show ?thesis using assms(1) unfolding pool_ok_def by simp (intro conjI allI; metis)
qed

lemma pool_ok_fresh:
  assumes "pool_ok A xs G"
  shows "pool_ok (A + n) (xs @ [A ..< A + n]) G"
proof -
  have f: "i \<in> set xs \<Longrightarrow> i < A" "owns G k i \<Longrightarrow> i < A" "i < A \<Longrightarrow> i \<in> set xs \<or> (\<exists>k. owns G k i)"
      "owns G k i \<Longrightarrow> i \<notin> set xs" "owns G k i \<Longrightarrow> owns G k' i \<Longrightarrow> k = k'" for i k k'
    using assms unfolding pool_ok_def by blast+
  have "i < A + n \<longleftrightarrow> i \<in> set (xs @ [A ..< A + n]) \<or> (\<exists>k. owns G k i)" for i
    using f(1) [of i] f(2) [where i = i] f(3) [of i] by (cases "i < A") auto
  moreover have "distinct xs" using assms by (simp add: pool_ok_def)
  then have "distinct (xs @ [A ..< A + n])" using f(1) by force
  moreover have "i \<notin> set (xs @ [A ..< A + n])" if "owns G k i" for k i
    using f(2,4) [OF that] by simp
  ultimately show ?thesis using f(5) unfolding pool_ok_def by blast
qed

lemma pool_ok_take:
  assumes "pool_ok A (i # xs) G" "G k = None" "block_id b = i"
  shows "pool_ok A xs (G(k \<mapsto> b))"
proof -
  have "\<not> owns G k j" for j using assms(2) by (simp add: owns_def)
  then show ?thesis using assms(1,3) unfolding pool_ok_def by simp metis
qed

lemma pool_ok_same_ids:
  assumes "pool_ok A xs G" "\<And>k. map_option block_id (G' k) = map_option block_id (G k)"
  shows "pool_ok A xs G'"
  using assms by (simp add: pool_ok_def owns_def)

lemma pool_ok_card:
  assumes "pool_ok A xs G"
  shows "length xs + card (dom G) = A"
proof -
  let ?f = "\<lambda>k. block_id (the (G k))"
  have f: "owns G k i \<longleftrightarrow> k \<in> dom G \<and> i = ?f k" for k i
    by (auto simp: owns_def)
  have "inj_on ?f (dom G)" using assms unfolding pool_ok_def inj_on_def f by metis
  moreover have "?f ` dom G = {..<A} - set xs"
    using assms unfolding pool_ok_def f by (auto simp: image_iff Bex_def)
  ultimately have "card (dom G) = card ({..<A} - set xs)" by (metis card_image)
  moreover have "set xs \<subseteq> {..<A}" "distinct xs" using assms unfolding pool_ok_def by auto
  ultimately show ?thesis
    using card_mono [of "{..<A}" "set xs"] by (simp add: card_Diff_subset distinct_card)
qed

lemma pool_ok_empty [simp]: "pool_ok 0 [] Map.empty"
  by (simp add: pool_ok_def owns_def)

abbreviation cm_get :: "('k, 'p) policy_ops \<Rightarrow> ('k, 'p) cpu_manager \<Rightarrow> 'k \<Rightarrow> block_status option" where
  "cm_get P m \<equiv> p_get P (cm_policy m)"

definition cm_inv :: "('k, 'p) policy_ops \<Rightarrow> ('p \<Rightarrow> bool) \<Rightarrow> ('k, 'p) cpu_manager \<Rightarrow> bool" where
  "cm_inv P I m \<longleftrightarrow>
     I (cm_policy m) \<and> cm_num_allocated m \<le> cm_num_blocks m \<and>
     pool_ok (cm_num_allocated m) (cm_free_list m) (cm_get P m)"

lemma free_blocks_eq:
  assumes "cm_inv P I m"
  shows "get_num_free_blocks m = int (cm_num_blocks m) - int (card (dom (cm_get P m)))"
proof -
  have "length (cm_free_list m) + card (dom (cm_get P m)) = cm_num_allocated m"
    using assms by (simp add: cm_inv_def pool_ok_card)
  then show ?thesis by (simp add: get_num_free_blocks_def)
qed

text \<open>Reference counts shifted key by key.\<close>

definition bump :: "('k \<Rightarrow> int) \<Rightarrow> ('k \<rightharpoonup> block_status) \<Rightarrow> 'k \<rightharpoonup> block_status" where
  "bump c G = (\<lambda>k. map_option (\<lambda>b. b\<lparr>ref_cnt := ref_cnt b + c k\<rparr>) (G k))"

lemma bump_bump: "bump c (bump d G) = bump (\<lambda>k. d k + c k) G"
  by (simp add: bump_def option.map_comp comp_def add.assoc)

lemma bump_0 [simp]: "bump (\<lambda>_. 0) G = G"
  by (simp add: bump_def option.map_ident)

lemma bump_upd: "G k = Some b \<Longrightarrow> G(k \<mapsto> b\<lparr>ref_cnt := ref_cnt b + x\<rparr>) = bump (\<lambda>j. if j = k then x else 0) G"
  by (auto simp: bump_def fun_eq_iff option.map_ident)

lemma bump_dom [simp]: "dom (bump c G) = dom G"
  by (auto simp: bump_def)

lemma free_all:
  "fold (\<lambda>(key, block). free_block block) ev m =
     m\<lparr>cm_free_list := cm_free_list m @ map (\<lambda>kb. block_id (snd kb)) ev\<rparr>"
  by (induction ev arbitrary: m) (auto simp: free_block_def)

lemma pool_ok_give_all:
  assumes "pool_ok A xs G" "distinct (map fst ev)" "\<forall>kb \<in> set ev. G (fst kb) = Some (snd kb)"
  shows "pool_ok A (xs @ map (\<lambda>kb. block_id (snd kb)) ev) (\<lambda>k. if k \<in> fst ` set ev then None else G k)"
  using assms
proof (induction ev arbitrary: xs G)
  case (Cons e ev)
  obtain k b where e: "e = (k, b)" by (cases e)
  have "G k = Some b" using Cons.prems(3) by (simp add: e)
  from pool_ok_give [OF Cons.prems(1) this] have step: "pool_ok A (xs @ [block_id b]) (G(k := None))" .
  have k: "k \<notin> fst ` set ev" using Cons.prems(2) by (simp add: e)
  then have "\<forall>kb \<in> set ev. (G(k := None)) (fst kb) = Some (snd kb)" using Cons.prems(3) by force
  moreover have "(\<lambda>j. if j \<in> fst ` set ev then None else (G(k := None)) j) =
      (\<lambda>j. if j \<in> fst ` set (e # ev) then None else G j)"
    by (auto simp: e fun_eq_iff)
  ultimately show ?case using Cons.IH [OF step] Cons.prems(2) by (simp add: e)
qed simp

lemma allocate_blocks_ok:
  assumes "pool_ok (cm_num_allocated m) (cm_free_list m) G" "cm_num_allocated m \<le> cm_num_blocks m"
    and "int (length keys) \<le> get_num_free_blocks m"
  shows "\<exists>ids m'. allocate_blocks keys m = Inr (map new_block_status ids, m') \<and> length ids = length keys \<and>
    pool_ok (cm_num_allocated m') (ids @ cm_free_list m') G \<and> cm_num_allocated m' \<le> cm_num_blocks m \<and>
    m' = m\<lparr>cm_num_allocated := cm_num_allocated m', cm_free_list := cm_free_list m'\<rparr>"
proof -
  define f where "f = nat (min (int (length keys)) (int (cm_num_blocks m) - int (cm_num_allocated m)))"
  define r where "r = length keys - f"
  have f: "min (int (length keys)) (int (cm_num_blocks m) - int (cm_num_allocated m)) = int f"
    "cm_num_allocated m + f \<le> cm_num_blocks m" "f \<le> length keys"
    using assms(2) by (auto simp: f_def)
  have r: "int (length keys) - int f = int r" using f(3) by (simp add: r_def)
  have len: "r \<le> length (cm_free_list m)"
    using assms(3) f r by (auto simp: get_num_free_blocks_def min_def split: if_splits)
  define ids where "ids = [cm_num_allocated m ..< cm_num_allocated m + f] @ take r (rev (cm_free_list m))"
  define m' where "m' = m\<lparr>cm_num_allocated := cm_num_allocated m + f,
     cm_free_list := rev (drop r (rev (cm_free_list m)))\<rparr>"
  have "allocate_blocks keys m = Inr (map new_block_status ids, m')"
    using len by (simp add: allocate_blocks_def Let_def f(1) r ids_def m'_def)
  moreover have "length ids = length keys" using len f(3) by (simp add: ids_def r_def)
  moreover have "mset (take r (rev (cm_free_list m))) + mset (drop r (rev (cm_free_list m))) = mset (cm_free_list m)"
    by (metis append_take_drop_id mset_append mset_rev)
  then have "mset (ids @ cm_free_list m') = mset (cm_free_list m @ [cm_num_allocated m ..< cm_num_allocated m + f])"
    by (simp add: ids_def m'_def del: mset_upt)
  from pool_ok_perm [OF this, where G = G] have "pool_ok (cm_num_allocated m') (ids @ cm_free_list m') G"
    using pool_ok_fresh [OF assms(1), of f] by (simp add: m'_def)
  moreover have "m' = m\<lparr>cm_num_allocated := cm_num_allocated m', cm_free_list := cm_free_list m'\<rparr>"
    "cm_num_allocated m' \<le> cm_num_blocks m"
    using f(2) by (simp_all add: m'_def)
  ultimately show ?thesis by blast
qed

lemma append_event_simps [simp]:
  "cm_policy (append_event ks r m) = cm_policy m" "cm_num_allocated (append_event ks r m) = cm_num_allocated m"
  "cm_num_blocks (append_event ks r m) = cm_num_blocks m" "cm_free_list (append_event ks r m) = cm_free_list m"
  "cm_counts (append_event ks r m) = cm_counts m" "get_num_free_blocks (append_event ks r m) = get_num_free_blocks m"
  by (simp_all add: append_event_def get_num_free_blocks_def split: option.split)

text \<open>A block whose store is in flight.\<close>

definition pending :: "('k \<rightharpoonup> block_status) \<Rightarrow> 'k \<Rightarrow> bool" where
  "pending G k \<longleftrightarrow> (case G k of None \<Rightarrow> False | Some b \<Rightarrow> \<not> is_ready b)"

definition publish :: "'k set \<Rightarrow> ('k \<rightharpoonup> block_status) \<Rightarrow> 'k \<rightharpoonup> block_status" where
  "publish S G = (\<lambda>k. if k \<in> S \<and> pending G k then map_option (ref_cnt_update (\<lambda>_. 0)) (G k) else G k)"

definition withdraw :: "'k set \<Rightarrow> ('k \<rightharpoonup> block_status) \<Rightarrow> 'k \<rightharpoonup> block_status" where
  "withdraw S G = (\<lambda>k. if k \<in> S \<and> pending G k then None else G k)"

section \<open>Calls\<close>

datatype 'k cm_call =
    Lookup 'k
  | Prepare_load "'k list"
  | Touch "'k list"
  | Complete_load "'k list"
  | Prepare_store "'k list"
  | Complete_store "'k list" bool
  | Reset_cache
  | Take_events

definition cm_step :: "('k, 'p) policy_ops \<Rightarrow> 'k cm_call \<Rightarrow> ('k, 'p) cpu_manager \<Rightarrow> ('k, 'p) cpu_manager result" where
  "cm_step P c m =
     (case c of
        Lookup k \<Rightarrow> chain (cm_lookup P k m) (\<lambda>(_, m). Inr m)
      | Prepare_load ks \<Rightarrow> chain (cm_prepare_load P ks m) (\<lambda>(_, m). Inr m)
      | Touch ks \<Rightarrow> Inr (cm_touch P ks m)
      | Complete_load ks \<Rightarrow> cm_complete_load P ks m
      | Prepare_store ks \<Rightarrow> chain (cm_prepare_store P ks m) (\<lambda>(_, m). Inr m)
      | Complete_store ks ok \<Rightarrow> cm_complete_store P ks ok m
      | Reset_cache \<Rightarrow> Inr (cm_reset_cache P m)
      | Take_events \<Rightarrow> Inr (snd (cm_take_events m)))"

fun call_ok :: "'k cm_call \<Rightarrow> bool" where
  "call_ok (Prepare_store ks) = distinct ks"
| "call_ok _ = True"

section \<open>What holds for every policy\<close>

context cache_policy
begin

lemma set_ref_cnt_get:
  assumes "cm_inv P inv m" "cm_get P m k = Some b"
  shows "cm_get P (set_ref_cnt P k r m) = (cm_get P m)(k \<mapsto> b\<lparr>ref_cnt := c_int32 r\<rparr>)"
    "cm_inv P inv (set_ref_cnt P k r m)"
proof -
  show g: "cm_get P (set_ref_cnt P k r m) = (cm_get P m)(k \<mapsto> b\<lparr>ref_cnt := c_int32 r\<rparr>)"
    using assms by (simp add: set_ref_cnt_def cm_inv_def set_ref_get)
  have "pool_ok (cm_num_allocated m) (cm_free_list m) ((cm_get P m)(k \<mapsto> b\<lparr>ref_cnt := c_int32 r\<rparr>))"
    by (rule pool_ok_same_ids [of _ _ "cm_get P m"]) (use assms in \<open>auto simp: cm_inv_def\<close>)
  then show "cm_inv P inv (set_ref_cnt P k r m)"
    using assms g by (simp add: cm_inv_def set_ref_cnt_def set_ref_inv)
qed

lemma prepare_load_from:
  assumes "cm_inv P inv m"
    and "\<forall>k \<in> set keys. \<exists>b. cm_get P m k = Some b \<and> 0 \<le> ref_cnt b \<and> ref_cnt b + int (length keys) < 2 ^ 31"
  shows "\<exists>m'. for_each keys (\<lambda>key (blocks, m).
       case cm_get P m key of
         None \<Rightarrow> Inl AssertionError
       | Some block \<Rightarrow>
           chain (guard (is_ready block) AssertionError) (\<lambda>_.
             Inr (blocks @ [block_id block], set_ref_cnt P key (ref_cnt block + 1) m))) (bs, m) =
       Inr (bs @ map (\<lambda>k. block_id (the (cm_get P m k))) keys, m') \<and> cm_inv P inv m' \<and>
     cm_get P m' = bump (\<lambda>k. int (count_list keys k)) (cm_get P m) \<and> m' = m\<lparr>cm_policy := cm_policy m'\<rparr>"
  using assms
proof (induction keys arbitrary: m bs)
  case (Cons k ks)
  let ?f = "\<lambda>key (blocks, m). case cm_get P m key of None \<Rightarrow> Inl AssertionError
       | Some block \<Rightarrow> chain (guard (is_ready block) AssertionError) (\<lambda>_.
             Inr (blocks @ [block_id block], set_ref_cnt P key (ref_cnt block + 1) m))"
  from Cons.prems(2) obtain b where b: "cm_get P m k = Some b" "0 \<le> ref_cnt b"
    "ref_cnt b + int (length (k # ks)) < 2 ^ 31" by auto
  define u where "u = set_ref_cnt P k (ref_cnt b + 1) m"
  have c: "c_int32 (ref_cnt b + 1) = ref_cnt b + 1" using b by simp
  have u: "cm_get P u = bump (\<lambda>j. if j = k then 1 else 0) (cm_get P m)" "cm_inv P inv u"
    using set_ref_cnt_get [OF Cons.prems(1) b(1), of "ref_cnt b + 1"] bump_upd [of "cm_get P m" k b 1, OF b(1)]
    by (simp_all add: u_def c)
  have ids: "block_id (the (cm_get P u j)) = block_id (the (cm_get P m j))" if "j \<in> set ks" for j
    using that Cons.prems(2) by (auto simp: u(1) bump_def)
  have "\<forall>j \<in> set ks. \<exists>b. cm_get P u j = Some b \<and> 0 \<le> ref_cnt b \<and> ref_cnt b + int (length ks) < 2 ^ 31"
    using Cons.prems(2) by (fastforce simp: u(1) bump_def)
  from Cons.IH [OF u(2) this, of "bs @ [block_id b]"] obtain m'
    where m': "for_each ks ?f (bs @ [block_id b], u) =
        Inr ((bs @ [block_id b]) @ map (\<lambda>k. block_id (the (cm_get P u k))) ks, m')"
      "cm_inv P inv m'" "cm_get P m' = bump (\<lambda>k. int (count_list ks k)) (cm_get P u)"
      "m' = u\<lparr>cm_policy := cm_policy m'\<rparr>" by blast
  have "map (\<lambda>k. block_id (the (cm_get P u k))) ks = map (\<lambda>k. block_id (the (cm_get P m k))) ks"
    using ids by simp
  then have "for_each (k # ks) ?f (bs, m) = Inr (bs @ map (\<lambda>k. block_id (the (cm_get P m k))) (k # ks), m')"
    using m'(1) b by (simp add: is_ready_def u_def)
  moreover have "cm_get P m' = bump (\<lambda>j. int (count_list (k # ks) j)) (cm_get P m)"
    unfolding m'(3) u(1) bump_bump by (rule arg_cong2 [where f = bump]) auto
  moreover have "m' = m\<lparr>cm_policy := cm_policy m'\<rparr>"
    using m'(4) by (cases m, cases m') (simp add: u_def set_ref_cnt_def)
  ultimately show ?case using m'(2) by blast
qed simp

lemma complete_load_from:
  assumes "cm_inv P inv m"
    and "\<forall>k \<in> set keys. \<exists>b. cm_get P m k = Some b \<and> int (count_list keys k) \<le> ref_cnt b \<and> ref_cnt b < 2 ^ 31"
  shows "\<exists>m'. cm_complete_load P keys m = Inr m' \<and> cm_inv P inv m' \<and>
     cm_get P m' = bump (\<lambda>k. - int (count_list keys k)) (cm_get P m) \<and> m' = m\<lparr>cm_policy := cm_policy m'\<rparr>"
  using assms
proof (induction keys arbitrary: m)
  case (Cons k ks)
  from Cons.prems(2) obtain b where b: "cm_get P m k = Some b" "int (count_list (k # ks) k) \<le> ref_cnt b"
    "ref_cnt b < 2 ^ 31" by auto
  define u where "u = set_ref_cnt P k (ref_cnt b - 1) m"
  have c: "c_int32 (ref_cnt b - 1) = ref_cnt b + - 1" using b by simp
  have u: "cm_get P u = bump (\<lambda>j. if j = k then - 1 else 0) (cm_get P m)" "cm_inv P inv u"
    using set_ref_cnt_get [OF Cons.prems(1) b(1), of "ref_cnt b - 1"] bump_upd [of "cm_get P m" k b "- 1", OF b(1)]
    by (simp_all add: u_def c)
  have "\<forall>j \<in> set ks. \<exists>b. cm_get P u j = Some b \<and> int (count_list ks j) \<le> ref_cnt b \<and> ref_cnt b < 2 ^ 31"
  proof
    fix j
    assume "j \<in> set ks"
    then obtain d where "cm_get P m j = Some d" "int (count_list (k # ks) j) \<le> ref_cnt d" "ref_cnt d < 2 ^ 31"
      using Cons.prems(2) by auto
    then show "\<exists>b. cm_get P u j = Some b \<and> int (count_list ks j) \<le> ref_cnt b \<and> ref_cnt b < 2 ^ 31"
      by (auto simp: u(1) bump_def split: if_splits)
  qed
  from Cons.IH [OF u(2) this] obtain m' where m': "cm_complete_load P ks u = Inr m'" "cm_inv P inv m'"
      "cm_get P m' = bump (\<lambda>k. - int (count_list ks k)) (cm_get P u)" "m' = u\<lparr>cm_policy := cm_policy m'\<rparr>" by blast
  have "cm_complete_load P (k # ks) m = Inr m'"
    using m'(1) b by (simp add: cm_complete_load_def u_def)
  moreover have "cm_get P m' = bump (\<lambda>j. - int (count_list (k # ks) j)) (cm_get P m)"
    unfolding m'(3) u(1) bump_bump by (rule arg_cong2 [where f = bump]) auto
  moreover have "m' = m\<lparr>cm_policy := cm_policy m'\<rparr>"
    using m'(4) by (cases m, cases m') (simp add: u_def set_ref_cnt_def)
  ultimately show ?case using m'(2) by blast
qed (simp add: cm_complete_load_def)

lemma cm_load_cycle:
  assumes "cm_inv P inv m"
    and "\<forall>k \<in> set keys. \<exists>b. cm_get P m k = Some b \<and> 0 \<le> ref_cnt b \<and> ref_cnt b + int (length keys) < 2 ^ 31"
  shows "\<exists>m' m''. cm_prepare_load P keys m = Inr (map (\<lambda>k. block_id (the (cm_get P m k))) keys, m') \<and>
    (\<forall>k \<in> set keys. \<exists>b. cm_get P m' k = Some b \<and> 0 < ref_cnt b) \<and>
    cm_complete_load P keys m' = Inr m'' \<and> cm_get P m'' = cm_get P m \<and> cm_inv P inv m'' \<and>
    m'' = m\<lparr>cm_policy := cm_policy m''\<rparr>"
proof -
  from prepare_load_from [OF assms, of "[]"] obtain m'
    where m': "cm_prepare_load P keys m = Inr (map (\<lambda>k. block_id (the (cm_get P m k))) keys, m')"
      "cm_inv P inv m'" "cm_get P m' = bump (\<lambda>k. int (count_list keys k)) (cm_get P m)"
      "m' = m\<lparr>cm_policy := cm_policy m'\<rparr>"
    unfolding cm_prepare_load_def by auto
  have pos: "\<exists>b. cm_get P m' k = Some b \<and> 0 < ref_cnt b \<and> int (count_list keys k) \<le> ref_cnt b \<and> ref_cnt b < 2 ^ 31"
    if k: "k \<in> set keys" for k
  proof -
    obtain b where b: "cm_get P m k = Some b" "0 \<le> ref_cnt b" "ref_cnt b + int (length keys) < 2 ^ 31"
      using assms(2) k by blast
    have "count_list keys k \<noteq> 0" "count_list keys k \<le> length keys"
      using k by (simp_all add: count_list_0_iff count_le_length)
    then show ?thesis using b by (simp add: m'(3) bump_def)
  qed
  then have "\<forall>k \<in> set keys. \<exists>b. cm_get P m' k = Some b \<and> int (count_list keys k) \<le> ref_cnt b \<and> ref_cnt b < 2 ^ 31"
    by blast
  from complete_load_from [OF m'(2) this] obtain m''
    where m'': "cm_complete_load P keys m' = Inr m''" "cm_inv P inv m''"
      "cm_get P m'' = bump (\<lambda>k. - int (count_list keys k)) (cm_get P m')" "m'' = m'\<lparr>cm_policy := cm_policy m''\<rparr>"
    by blast
  have "cm_get P m'' = cm_get P m" by (simp add: m''(3) m'(3) bump_bump)
  moreover have "m'' = m\<lparr>cm_policy := cm_policy m''\<rparr>"
    using m'(4) m''(4) by (cases m, cases m', cases m'') simp
  ultimately show ?thesis using m'(1) m''(1,2) pos by blast
qed

lemma insert_blocks_ok:
  assumes "inv (cm_policy m)" "pool_ok A (ids @ xs) (cm_get P m)" "length ids = length ks" "distinct ks"
    and "\<forall>k \<in> set ks. cm_get P m k = None"
  shows "inv (cm_policy (insert_blocks P (zip ks (map new_block_status ids)) m)) \<and>
    pool_ok A xs (cm_get P (insert_blocks P (zip ks (map new_block_status ids)) m)) \<and>
    cm_get P (insert_blocks P (zip ks (map new_block_status ids)) m) =
      cm_get P m ++ map_of (zip ks (map new_block_status ids)) \<and>
    insert_blocks P (zip ks (map new_block_status ids)) m =
      m\<lparr>cm_policy := cm_policy (insert_blocks P (zip ks (map new_block_status ids)) m)\<rparr>"
  using assms
proof (induction ks arbitrary: m ids)
  case (Cons k ks)
  then obtain i js where ids: "ids = i # js" by (cases ids) auto
  define u where "u = m\<lparr>cm_policy := p_insert P (cm_policy m) k (new_block_status i)\<rparr>"
  have k: "cm_get P m k = None" using Cons.prems(5) by simp
  have u: "cm_get P u = (cm_get P m)(k \<mapsto> new_block_status i)" "inv (cm_policy u)"
    using insert_get [OF Cons.prems(1) k] insert_inv [OF Cons.prems(1) k] by (simp_all add: u_def)
  have "pool_ok A (js @ xs) (cm_get P u)"
    using pool_ok_take [of A i "js @ xs" "cm_get P m" k "new_block_status i"] Cons.prems(2) k
    by (simp add: ids u(1) new_block_status_def)
  moreover have "\<forall>j \<in> set ks. cm_get P u j = None" using Cons.prems(4,5) by (auto simp: u(1))
  moreover have "length js = length ks" "distinct ks" using Cons.prems(3,4) by (simp_all add: ids)
  moreover define w where "w = insert_blocks P (zip ks (map new_block_status js)) u"
  ultimately have w: "inv (cm_policy w)" "pool_ok A xs (cm_get P w)"
      "cm_get P w = cm_get P u ++ map_of (zip ks (map new_block_status js))" "w = u\<lparr>cm_policy := cm_policy w\<rparr>"
    using Cons.IH [of u js] u(2) unfolding w_def by blast+
  have eq: "insert_blocks P (zip (k # ks) (map new_block_status ids)) m = w"
    by (simp add: insert_blocks_def ids u_def w_def)
  have "k \<notin> dom (map_of (zip ks (map new_block_status js)))"
    using Cons.prems(4) by (auto dest: map_of_SomeD set_zip_leftD)
  then have "cm_get P w = cm_get P m ++ map_of (zip (k # ks) (map new_block_status ids))"
    by (auto simp: w(3) u(1) ids map_add_def fun_eq_iff split: option.split)
  moreover have "w = m\<lparr>cm_policy := cm_policy w\<rparr>" using w(4) by (cases w, cases m) (simp add: u_def)
  ultimately show ?case using w(1,2) unfolding eq by blast
qed (simp add: insert_blocks_def)

lemma cm_evict_ok:
  assumes "cm_inv P inv m" "cm_evict P n prot m = Some (ks, m')"
  shows "cm_inv P inv m' \<and> length ks = nat n \<and> cm_get P m' = (\<lambda>k. if k \<in> set ks then None else cm_get P m k) \<and>
    (\<forall>k \<in> set ks. \<exists>b. cm_get P m k = Some b \<and> ref_cnt b = 0 \<and> k \<notin> prot) \<and>
    get_num_free_blocks m' = get_num_free_blocks m + int (nat n) \<and> cm_num_blocks m' = cm_num_blocks m"
proof (cases "0 < n")
  case False
  then show ?thesis using assms by (simp add: cm_evict_def)
next
  case True
  with assms(2) obtain ev p' where ev: "p_evict P (cm_policy m) (nat n) prot = Some (ev, p')" "ks = map fst ev"
      "m' = fold (\<lambda>(key, block). free_block block) ev (m\<lparr>cm_policy := p'\<rparr>)"
    by (auto simp: cm_evict_def split: option.splits)
  have i: "inv (cm_policy m)" using assms(1) by (simp add: cm_inv_def)
  note E = evict_length [OF i ev(1)] evict_distinct [OF i ev(1)] evict_get [OF i ev(1)] evict_inv [OF i ev(1)]
  have idle: "cm_get P m (fst kb) = Some (snd kb) \<and> ref_cnt (snd kb) = 0 \<and> fst kb \<notin> prot" if "kb \<in> set ev" for kb
    using evict_idle [OF i ev(1), of "fst kb" "snd kb"] that by simp
  have "pool_ok (cm_num_allocated m) (cm_free_list m @ map (\<lambda>kb. block_id (snd kb)) ev) (p_get P p')"
    using pool_ok_give_all [of "cm_num_allocated m" "cm_free_list m" "cm_get P m" ev] assms(1) E(2,3) idle
    by (simp add: cm_inv_def)
  then show ?thesis using assms(1) E idle True
    by (auto simp: ev(2,3) free_all cm_inv_def get_num_free_blocks_def)
qed

lemma cm_prepare_store_ok:
  assumes inv: "cm_inv P inv m" and dist: "distinct keys"
  shows "(cm_prepare_store P keys m = Inr (None, m) \<and>
      get_num_free_blocks m < int (length (filter (\<lambda>k. cm_get P m k = None) (cm_store_keys keys m)))) \<or>
    (\<exists>out m'. cm_prepare_store P keys m = Inr (Some out, m') \<and> cm_inv P inv m' \<and>
      keys_to_store out = filter (\<lambda>k. cm_get P m k = None) (cm_store_keys keys m) \<and>
      length (store_spec out) = length (keys_to_store out) \<and>
      (\<forall>k \<in> set (evicted_keys out). \<exists>b. cm_get P m k = Some b \<and> ref_cnt b = 0 \<and> k \<notin> set (cm_store_keys keys m)) \<and>
      cm_get P m' = (\<lambda>k. if k \<in> set (evicted_keys out) then None else cm_get P m k) ++
        map_of (zip (keys_to_store out) (map new_block_status (store_spec out))))"
proof -
  define ks where "ks = cm_store_keys keys m"
  define st where "st = filter (\<lambda>k. cm_get P m k = None) ks"
  define n where "n = int (length st) - get_num_free_blocks m"
  have dst: "distinct st" using dist by (simp add: st_def ks_def cm_store_keys_def split: option.split)
  consider (none) "st = []" | (fail) "st \<noteq> []" "cm_evict P n (set ks) m = None"
    | (ok) ev u where "st \<noteq> []" "cm_evict P n (set ks) m = Some (ev, u)"
    by (cases "cm_evict P n (set ks) m") auto
  then show ?thesis
  proof cases
    case none
    then have "cm_prepare_store P keys m = Inr (Some \<lparr>keys_to_store = [], store_spec = [], evicted_keys = []\<rparr>, m)"
      by (simp add: cm_prepare_store_def ks_def [symmetric] st_def [symmetric] Let_def)
    then show ?thesis using inv none by (simp add: ks_def [symmetric] st_def [symmetric])
  next
    case fail
    then have "0 < n" by (auto simp: cm_evict_def split: if_splits)
    then show ?thesis using fail
      by (simp add: cm_prepare_store_def ks_def [symmetric] st_def [symmetric] n_def [symmetric] Let_def) (simp add: n_def)
  next
    case ok
    define v where "v = append_event ev True u"
    note E = cm_evict_ok [OF inv ok(2)]
    have v: "pool_ok (cm_num_allocated v) (cm_free_list v) (cm_get P v)" "cm_num_allocated v \<le> cm_num_blocks v"
      "inv (cm_policy v)" "int (length st) \<le> get_num_free_blocks v"
      using E by (auto simp: v_def cm_inv_def n_def)
    from allocate_blocks_ok [OF v(1,2,4)] obtain ids w
      where w: "allocate_blocks st v = Inr (map new_block_status ids, w)" "length ids = length st"
        "pool_ok (cm_num_allocated w) (ids @ cm_free_list w) (cm_get P v)" "cm_num_allocated w \<le> cm_num_blocks v"
        "w = v\<lparr>cm_num_allocated := cm_num_allocated w, cm_free_list := cm_free_list w\<rparr>" by blast
    have pw: "cm_policy w = cm_policy v" "cm_num_blocks w = cm_num_blocks v"
      by (subst w(5), simp)+
    define m' where "m' = insert_blocks P (zip st (map new_block_status ids)) w"
    have G: "cm_get P w = (\<lambda>k. if k \<in> set ev then None else cm_get P m k)" using E by (simp add: pw v_def)
    have "\<forall>k \<in> set st. cm_get P w k = None" by (simp add: G st_def)
    then have I: "inv (cm_policy m')" "pool_ok (cm_num_allocated w) (cm_free_list w) (cm_get P m')"
      "cm_get P m' = cm_get P w ++ map_of (zip st (map new_block_status ids))" "m' = w\<lparr>cm_policy := cm_policy m'\<rparr>"
      using insert_blocks_ok [of w _ ids _ st] v(3) w(2,3) dst unfolding m'_def pw by blast+
    have mw: "cm_num_allocated m' = cm_num_allocated w" "cm_free_list m' = cm_free_list w" "cm_num_blocks m' = cm_num_blocks w"
      by (subst I(4), simp)+
    have "cm_inv P inv m'"
      using I(1,2) w(4) pw(2) mw by (simp add: cm_inv_def)
    moreover have "cm_prepare_store P keys m =
        Inr (Some \<lparr>keys_to_store = st, store_spec = ids, evicted_keys = ev\<rparr>, m')"
      using ok w(1,2) by (simp add: cm_prepare_store_def ks_def [symmetric] st_def [symmetric] n_def [symmetric] Let_def
          v_def [symmetric] m'_def new_block_status_def comp_def del: chain_eq_Inr)
    moreover have "cm_get P m' = (\<lambda>k. if k \<in> set ev then None else cm_get P m k) ++ map_of (zip st (map new_block_status ids))"
      using I(3) G by simp
    ultimately show ?thesis
      using w(2) E unfolding ks_def [symmetric] st_def [symmetric]
      by (intro disjI2 exI [of _ "\<lparr>keys_to_store = st, store_spec = ids, evicted_keys = ev\<rparr>"] exI [of _ m']) simp
  qed
qed

lemma cm_inv_append_event [simp]: "cm_inv P inv (append_event ks r m) = cm_inv P inv m"
  by (simp add: cm_inv_def)

lemma complete_store_success:
  assumes "cm_inv P inv m"
  shows "\<exists>m'. cm_complete_store P keys True m = Inr m' \<and> cm_inv P inv m' \<and>
    cm_get P m' = publish (set keys) (cm_get P m)"
proof -
  let ?f = "\<lambda>key (stored, m). case cm_get P m key of None \<Rightarrow> (Inr (stored, m) :: _ result)
    | Some block \<Rightarrow> if is_ready block then Inr (stored, m) else Inr (stored @ [key], set_ref_cnt P key 0 m)"
  have "\<exists>ks m'. for_each keys ?f (st, m) = Inr (ks, m') \<and> cm_inv P inv m' \<and>
      cm_get P m' = publish (set keys) (cm_get P m)" for st
    using assms
  proof (induction keys arbitrary: st m)
    case (Cons k ks)
    obtain st' u where u: "?f k (st, m) = Inr (st', u)" "cm_inv P inv u" "cm_get P u = publish {k} (cm_get P m)"
    proof (cases "pending (cm_get P m) k")
      case True
      then obtain b where b: "cm_get P m k = Some b" "\<not> is_ready b" by (auto simp: pending_def split: option.splits)
      then show ?thesis
        using that [of "st @ [k]" "set_ref_cnt P k 0 m"] set_ref_cnt_get [OF Cons.prems b(1), of 0] True
        by (auto simp: publish_def fun_eq_iff)
    next
      case False
      then show ?thesis
        using that [of st m] Cons.prems by (auto simp: publish_def pending_def fun_eq_iff split: option.splits)
    qed
    have "publish (set ks) (publish {k} G) = publish (set (k # ks)) G" for G :: "'k \<rightharpoonup> block_status"
      by (auto simp: publish_def pending_def is_ready_def fun_eq_iff split: option.splits)
    moreover have "for_each (k # ks) ?f (st, m) = for_each ks ?f (st', u)"
      by (simp only: for_each.simps u(1) chain_Inr)
    ultimately show ?case using Cons.IH [OF u(2), of st'] u(3) by metis
  qed (simp add: publish_def)
  then obtain ks m' where m': "for_each keys ?f ([], m) = Inr (ks, m')" "cm_inv P inv m'"
      "cm_get P m' = publish (set keys) (cm_get P m)" by blast
  then show ?thesis by (simp add: cm_complete_store_def del: chain_eq_Inr)
qed

lemma complete_store_failure:
  assumes "cm_inv P inv m"
  shows "\<exists>m'. cm_complete_store P keys False m = Inr m' \<and> cm_inv P inv m' \<and>
    cm_get P m' = withdraw (set keys) (cm_get P m)"
  using assms
proof (induction keys arbitrary: m)
  case (Cons k ks)
  show ?case
  proof (cases "pending (cm_get P m) k")
    case True
    then obtain b where b: "cm_get P m k = Some b" "\<not> is_ready b" by (auto simp: pending_def split: option.splits)
    have i: "inv (cm_policy m)" using Cons.prems by (simp add: cm_inv_def)
    from remove_get [OF i b(1)] obtain p' where p': "p_remove P (cm_policy m) k = Inr p'" "inv p'"
      "p_get P p' = (cm_get P m)(k := None)" by blast
    define u where "u = free_block b (m\<lparr>cm_policy := p'\<rparr>)"
    have u: "cm_get P u = (cm_get P m)(k := None)" "cm_inv P inv u"
      using p' Cons.prems pool_ok_give [of _ _ "cm_get P m", OF _ b(1)]
      by (simp_all add: u_def free_block_def cm_inv_def)
    from Cons.IH [OF u(2)] obtain m' where m': "cm_complete_store P ks False u = Inr m'" "cm_inv P inv m'"
      "cm_get P m' = withdraw (set ks) (cm_get P u)" by blast
    have "cm_complete_store P (k # ks) False m = Inr m'"
      using m'(1) b p'(1) by (simp add: cm_complete_store_def u_def del: chain_eq_Inr)
    moreover have "withdraw (set ks) ((cm_get P m)(k := None)) = withdraw (set (k # ks)) (cm_get P m)"
      using True by (auto simp: withdraw_def pending_def fun_eq_iff)
    ultimately show ?thesis using m'(2,3) u(1) by auto
  next
    case False
    then have "cm_complete_store P (k # ks) False m = cm_complete_store P ks False m"
      by (auto simp: cm_complete_store_def pending_def split: option.splits)
    moreover have "withdraw (set (k # ks)) (cm_get P m) = withdraw (set ks) (cm_get P m)"
      using False by (auto simp: withdraw_def fun_eq_iff)
    ultimately show ?thesis using Cons.IH [OF Cons.prems] by simp
  qed
qed (simp add: cm_complete_store_def withdraw_def)

lemma cm_policy_frame: "cm_inv P inv (m\<lparr>cm_counts := c, cm_events := e\<rparr>) = cm_inv P inv m"
  by (simp add: cm_inv_def)

lemma cm_lookup_inv:
  assumes "cm_inv P inv m" "cm_lookup P k m = Inr (r, m')"
  shows "cm_inv P inv m' \<and> cm_get P m' = cm_get P m"
  using assms by (auto simp: cm_lookup_def cm_inv_def split: option.splits if_splits)

lemma cm_prepare_load_inv:
  assumes "cm_inv P inv m" "cm_prepare_load P keys m = Inr (ids, m')"
  shows "cm_inv P inv m'"
proof -
  have "cm_inv P inv (snd (ids, m'))"
    using assms(2) [unfolded cm_prepare_load_def]
  proof (rule for_each_inv)
    show "cm_inv P inv (snd ([], m))" using assms(1) by simp
  next
    fix x s s'
    assume "cm_inv P inv (snd s)" "(case s of (blocks, m) \<Rightarrow>
        case cm_get P m x of None \<Rightarrow> Inl AssertionError
        | Some block \<Rightarrow> chain (guard (is_ready block) AssertionError)
            (\<lambda>_. Inr (blocks @ [block_id block], set_ref_cnt P x (ref_cnt block + 1) m))) = Inr s'"
    then show "cm_inv P inv (snd s')"
      by (cases s) (auto simp: set_ref_cnt_get split: option.splits)
  qed
  then show ?thesis by simp
qed

lemma cm_complete_load_inv:
  assumes "cm_inv P inv m" "cm_complete_load P keys m = Inr m'"
  shows "cm_inv P inv m'"
  using assms(2) [unfolded cm_complete_load_def] assms(1)
  by (rule for_each_inv) (auto simp: set_ref_cnt_get split: option.splits)

lemma cm_reset_cache_inv: "cm_inv P inv (cm_reset_cache P m)" "cm_get P (cm_reset_cache P m) = Map.empty"
  by (simp_all add: cm_inv_def cm_reset_cache_def clear_get clear_inv)

lemma cm_step_inv:
  assumes "cm_inv P inv m" "call_ok c" "cm_step P c m = Inr m'"
  shows "cm_inv P inv m'"
proof (cases c)
  case (Prepare_store ks)
  then have d: "distinct ks" using assms(2) by simp
  show ?thesis
    using cm_prepare_store_ok [OF assms(1) d] assms(1,3) by (auto simp: Prepare_store cm_step_def)
next
  case (Complete_store ks ok)
  then show ?thesis
    using complete_store_success [OF assms(1), of ks] complete_store_failure [OF assms(1), of ks] assms(3)
    by (cases ok) (auto simp: cm_step_def)
next
  case (Touch ks)
  then show ?thesis using assms by (auto simp: cm_step_def cm_touch_def cm_inv_def touch_inv touch_get)
next
  case Reset_cache
  then show ?thesis using assms(3) cm_reset_cache_inv(1) by (auto simp: cm_step_def)
next
  case Take_events
  then show ?thesis using assms by (auto simp: cm_step_def cm_take_events_def cm_inv_def split: option.splits)
next
  case (Lookup k)
  then obtain r where "cm_lookup P k m = Inr (r, m')" using assms(3) by (auto simp: cm_step_def)
  then show ?thesis using cm_lookup_inv assms(1) by blast
next
  case (Prepare_load ks)
  then obtain r where "cm_prepare_load P ks m = Inr (r, m')" using assms(3) by (auto simp: cm_step_def)
  then show ?thesis using cm_prepare_load_inv assms(1) by blast
next
  case (Complete_load ks)
  then show ?thesis using cm_complete_load_inv [of m ks m'] assms by (simp add: cm_step_def)
qed

lemma cm_run_inv:
  assumes "cm_inv P inv m" "list_all call_ok cs" "for_each cs (cm_step P) m = Inr m'"
  shows "cm_inv P inv m'"
  using assms(3,1) by (rule for_each_inv) (use assms(2) cm_step_inv in \<open>auto simp: list_all_iff\<close>)

lemma cm_store_cycle:
  assumes inv: "cm_inv P inv m" and dist: "distinct keys"
    and prep: "cm_prepare_store P keys m = Inr (Some out, m')"
  shows "(\<exists>m''. cm_complete_store P (keys_to_store out) True m' = Inr m'' \<and> cm_inv P inv m'' \<and>
      (\<forall>k \<in> set (keys_to_store out). \<exists>b. cm_get P m'' k = Some b \<and> ref_cnt b = 0) \<and>
      (\<forall>k. k \<notin> set (keys_to_store out) \<longrightarrow> cm_get P m'' k = cm_get P m' k)) \<and>
    (\<exists>m''. cm_complete_store P (keys_to_store out) False m' = Inr m'' \<and> cm_inv P inv m'' \<and>
      cm_get P m'' = (\<lambda>k. if k \<in> set (evicted_keys out) then None else cm_get P m k))"
proof -
  let ?E = "\<lambda>k. if k \<in> set (evicted_keys out) then None else cm_get P m k"
  let ?N = "map_of (zip (keys_to_store out) (map new_block_status (store_spec out)))"
  have m': "cm_inv P inv m'" "cm_get P m' = ?E ++ ?N"
    and ks: "keys_to_store out = filter (\<lambda>k. cm_get P m k = None) (cm_store_keys keys m)"
    and len: "length (store_spec out) = length (keys_to_store out)"
    using cm_prepare_store_ok [OF inv dist] prep by auto
  have new: "\<exists>i. ?N k = Some (new_block_status i)" if k: "k \<in> set (keys_to_store out)" for k
  proof -
    have "k \<in> dom ?N" using k len by (simp add: dom_map_of_zip)
    then obtain b where b: "?N k = Some b" by blast
    then have "b \<in> set (map new_block_status (store_spec out))" by (meson map_of_SomeD set_zip_rightD)
    then show ?thesis using b by auto
  qed
  have old: "?N k = None" if "k \<notin> set (keys_to_store out)" for k
    using that by (auto simp: map_of_eq_None_iff dest: set_zip_leftD)
  have pend: "pending (cm_get P m') k" "\<exists>i. cm_get P m' k = Some (new_block_status i)"
    if "k \<in> set (keys_to_store out)" for k
    using new [OF that] by (auto simp: m'(2) pending_def is_ready_def new_block_status_def)
  obtain a where a: "cm_complete_store P (keys_to_store out) True m' = Inr a" "cm_inv P inv a"
    "cm_get P a = publish (set (keys_to_store out)) (cm_get P m')"
    using complete_store_success [OF m'(1)] by blast
  obtain b where b: "cm_complete_store P (keys_to_store out) False m' = Inr b" "cm_inv P inv b"
    "cm_get P b = withdraw (set (keys_to_store out)) (cm_get P m')"
    using complete_store_failure [OF m'(1)] by blast
  have "\<exists>b. cm_get P a k = Some b \<and> ref_cnt b = 0" if "k \<in> set (keys_to_store out)" for k
    using pend [OF that] that by (auto simp: a(3) publish_def)
  moreover have "cm_get P a k = cm_get P m' k" if "k \<notin> set (keys_to_store out)" for k
    using that by (simp add: a(3) publish_def)
  moreover have "cm_get P b k = ?E k" for k
    using pend(1) [of k] old [of k] ks by (cases "k \<in> set (keys_to_store out)") (auto simp: b(3) withdraw_def m'(2) map_add_def)
  ultimately show ?thesis using a(1,2) b(1,2) by blast
qed

end

end
