(* ===== verification/Cpu_Protocol.thy ===== *)
theory Cpu_Protocol
  imports Cpu_Manager
begin

text \<open>
  What \<open>CPUOffloadingManager\<close> promises with the policies it can be built with: the protocol of
  stores and loads, the pool of ids, the bound on the lookup tracker, and when a store is
  refused.
\<close>

section \<open>Examples\<close>

text \<open>Integer arithmetic in the place of floats, and a manager with two blocks under LRU.\<close>

definition int_floats :: "int float_ops" where
  "int_floats = \<lparr>f_int = (\<lambda>i. i), f_ratio = (\<lambda>a b. int (a div b)), f_add = (+), f_sub = (-), f_max = max,
     f_min = min, f_trunc = (\<lambda>i. i)\<rparr>"

definition ex_mgr :: "(nat, (nat, int) policy_obj) cpu_manager" where
  "ex_mgr =
     \<lparr>cm_medium = ''CPU'', cm_num_blocks = 2, cm_num_allocated = 2, cm_free_list = [],
      cm_events = Some [],
      cm_policy = LRU_obj \<lparr>lru_blocks = [(7, \<lparr>ref_cnt = 0, block_id = 1\<rparr>), (8, \<lparr>ref_cnt = 0, block_id = 0\<rparr>)]\<rparr>,
      cm_store_threshold = 1, cm_max_tracker_size = 10, cm_counts = None\<rparr>"

lemmas policy_evaluate = lru_ops_def lru_get_def lru_insert_def lru_remove_def lru_evict_def lru_set_ref_def lru_touch_def

lemma ex_mgr_get: "cm_get (any_ops F) ex_mgr =
    [7 \<mapsto> \<lparr>ref_cnt = 0, block_id = 1\<rparr>, 8 \<mapsto> \<lparr>ref_cnt = 0, block_id = 0\<rparr>]"
  by (auto simp: ex_mgr_def lru_ops_def lru_get_def fun_eq_iff)

lemma ex_mgr_inv: "cm_inv (any_ops F) any_inv ex_mgr"
proof -
  have "owns (cm_get (any_ops F) ex_mgr) k i \<longleftrightarrow> k = 7 \<and> i = 1 \<or> k = 8 \<and> i = 0" for k i
    by (auto simp: ex_mgr_get owns_def)
  then have "pool_ok 2 [] (cm_get (any_ops F) ex_mgr)" by (force simp: pool_ok_def less_2_cases_iff)
  then show ?thesis by (simp add: cm_inv_def) (simp add: ex_mgr_def lru_inv_def)
qed

section \<open>Stores\<close>

text \<open>
  C29. \<open>prepare_store\<close> of distinct keys never raises. Either it returns \<open>None\<close>, leaves the manager
  as it was, and the pool has fewer free blocks than there are keys to store; or the keys to
  store are those asked for, frequent enough and not cached, each is given a block of the pool
  that no other key has, marked as being written, the evicted blocks were idle and not among
  the keys frequent enough to be stored (the whole request when no lookups are counted), and
  every other block is as before.
\<close>

theorem prepare_store_correct:
  assumes "cm_inv (any_ops F) any_inv m" "distinct keys"
  shows "(cm_prepare_store (any_ops F) keys m = Inr (None, m) \<and>
      get_num_free_blocks m < int (length (filter (\<lambda>k. cm_get (any_ops F) m k = None) (cm_store_keys keys m)))) \<or>
    (\<exists>out m'. cm_prepare_store (any_ops F) keys m = Inr (Some out, m') \<and> cm_inv (any_ops F) any_inv m' \<and>
      keys_to_store out = filter (\<lambda>k. cm_get (any_ops F) m k = None) (cm_store_keys keys m) \<and>
      length (store_spec out) = length (keys_to_store out) \<and>
      (\<forall>k \<in> set (evicted_keys out).
         \<exists>b. cm_get (any_ops F) m k = Some b \<and> ref_cnt b = 0 \<and> k \<notin> set (cm_store_keys keys m)) \<and>
      cm_get (any_ops F) m' = (\<lambda>k. if k \<in> set (evicted_keys out) then None else cm_get (any_ops F) m k) ++
        map_of (zip (keys_to_store out) (map new_block_status (store_spec out))))"
  using assms by (rule any.cm_prepare_store_ok)

theorem prepare_store_correct_witness:
  "\<exists>out m'. cm_prepare_store (any_ops int_floats) [8, 9] ex_mgr = Inr (Some out, m') \<and> keys_to_store out = [9] \<and>
    length (store_spec out) = 1 \<and> (\<forall>k \<in> set (evicted_keys out). k \<noteq> 8)"
proof -
  have "cm_prepare_store (any_ops int_floats) [8, 9] ex_mgr \<noteq> Inr (None, ex_mgr)"
    by (simp add: cm_prepare_store_def cm_store_keys_def ex_mgr_def policy_evaluate evictable_block_def cm_evict_def
        get_num_free_blocks_def append_event_def allocate_blocks_def free_block_def new_block_status_def
        del: chain_eq_Inr)
  then show ?thesis
    using prepare_store_correct [OF ex_mgr_inv, of "[8, 9]" int_floats]
    by (auto simp: cm_store_keys_def ex_mgr_get) (auto simp: ex_mgr_def)
qed

text \<open>
  C30. A store that completes makes its keys readable and changes nothing else; a store that
  fails gives its blocks back, and the cache is what it was before, less the evicted keys.
\<close>

theorem store_completes:
  assumes "cm_inv (any_ops F) any_inv m" "distinct keys"
    and "cm_prepare_store (any_ops F) keys m = Inr (Some out, m')"
  shows "(\<exists>m''. cm_complete_store (any_ops F) (keys_to_store out) True m' = Inr m'' \<and> cm_inv (any_ops F) any_inv m'' \<and>
      (\<forall>k \<in> set (keys_to_store out). \<exists>b. cm_get (any_ops F) m'' k = Some b \<and> ref_cnt b = 0) \<and>
      (\<forall>k. k \<notin> set (keys_to_store out) \<longrightarrow> cm_get (any_ops F) m'' k = cm_get (any_ops F) m' k)) \<and>
    (\<exists>m''. cm_complete_store (any_ops F) (keys_to_store out) False m' = Inr m'' \<and> cm_inv (any_ops F) any_inv m'' \<and>
      cm_get (any_ops F) m'' = (\<lambda>k. if k \<in> set (evicted_keys out) then None else cm_get (any_ops F) m k))"
  using assms by (rule any.cm_store_cycle)

theorem store_completes_witness:
  "\<exists>out m' m''. cm_prepare_store (any_ops int_floats) [9] ex_mgr = Inr (Some out, m') \<and>
     cm_complete_store (any_ops int_floats) (keys_to_store out) True m' = Inr m'' \<and>
     (\<exists>b. cm_get (any_ops int_floats) m'' 9 = Some b \<and> ref_cnt b = 0)"
proof -
  obtain out m' where p: "cm_prepare_store (any_ops int_floats) [9] ex_mgr = Inr (Some out, m')" "keys_to_store out = [9]"
    by (simp add: cm_prepare_store_def cm_store_keys_def ex_mgr_def policy_evaluate evictable_block_def cm_evict_def
        get_num_free_blocks_def append_event_def allocate_blocks_def free_block_def new_block_status_def
        del: chain_eq_Inr)
  show ?thesis using store_completes [OF ex_mgr_inv _ p(1)] p by auto
qed

section \<open>Loads\<close>

text \<open>
  C31. Loading: \<open>prepare_load\<close> of cached, readable keys returns the block id of each key and pins
  the blocks; \<open>complete_load\<close> of the same keys unpins them and gives every reference count back.
  The counts are 32-bit; the hypothesis bounds them by the number of keys of the call.
\<close>

theorem load_roundtrip:
  assumes "cm_inv (any_ops F) any_inv m"
    and "\<forall>k \<in> set keys. \<exists>b. cm_get (any_ops F) m k = Some b \<and> 0 \<le> ref_cnt b \<and> ref_cnt b + int (length keys) < 2 ^ 31"
  shows "\<exists>m' m''. cm_prepare_load (any_ops F) keys m =
      Inr (map (\<lambda>k. block_id (the (cm_get (any_ops F) m k))) keys, m') \<and>
    (\<forall>k \<in> set keys. \<exists>b. cm_get (any_ops F) m' k = Some b \<and> 0 < ref_cnt b) \<and>
    cm_complete_load (any_ops F) keys m' = Inr m'' \<and> cm_get (any_ops F) m'' = cm_get (any_ops F) m \<and>
    cm_inv (any_ops F) any_inv m'' \<and> m'' = m\<lparr>cm_policy := cm_policy m''\<rparr>"
  using assms by (rule any.cm_load_cycle)

theorem load_roundtrip_witness:
  "\<exists>m' m''. cm_prepare_load (any_ops int_floats) [8, 7, 8] ex_mgr = Inr ([0, 1, 0], m') \<and>
    cm_complete_load (any_ops int_floats) [8, 7, 8] m' = Inr m'' \<and>
    cm_get (any_ops int_floats) m'' = cm_get (any_ops int_floats) ex_mgr"
  using load_roundtrip [OF ex_mgr_inv, of "[8, 7, 8]" int_floats] by (auto simp: ex_mgr_get)

section \<open>Every sequence of calls\<close>

lemma cm_init_inv: "cm_init F n name ev thr mx = Inr m \<Longrightarrow> cm_inv (any_ops F) any_inv m"
  by (auto simp: cm_init_def policy_table_def cm_inv_def lru_inv_def lru_init_def lru_ops_def lru_get_def [abs_def]
      arc_inv_def arc_init_def arc_disjoint_def arc_ops_def arc_get_alt split: if_splits)

text \<open>
  C32. After any sequence of calls on a new manager that does not raise, with no key twice in one
  \<open>prepare_store\<close>, the ids handed out so far are split between the free list and the cached
  blocks, no two keys share a block, and the free-block count is the capacity less the number
  of cached keys.
\<close>

theorem manager_runs_keep_pool:
  assumes "cm_init F num_blocks name enable_events thr mx = Inr m"
    and "list_all call_ok cs" "for_each cs (cm_step (any_ops F)) m = Inr m'"
  shows "pool_ok (cm_num_allocated m') (cm_free_list m') (cm_get (any_ops F) m') \<and>
    cm_num_allocated m' \<le> cm_num_blocks m' \<and>
    get_num_free_blocks m' = int (cm_num_blocks m') - int (card (dom (cm_get (any_ops F) m')))"
proof -
  have "cm_inv (any_ops F) any_inv m'"
    using cm_init_inv [OF assms(1)] assms(2,3) by (rule any.cm_run_inv)
  then show ?thesis using free_blocks_eq by (auto simp: cm_inv_def)
qed

theorem manager_runs_keep_pool_witness:
  "\<exists>m m'. cm_init int_floats 2 ''arc'' False 1 10 = Inr m \<and>
     for_each [Prepare_store [5, 6 :: nat], Complete_store [5, 6] True, Touch [5], Lookup 6] (cm_step (any_ops int_floats)) m = Inr m' \<and>
     pool_ok (cm_num_allocated m') (cm_free_list m') (cm_get (any_ops int_floats) m')"
proof -
  define m :: "(nat, (nat, int) policy_obj) cpu_manager" where "m = projr (cm_init int_floats 2 ''arc'' False 1 10)"
  have m: "cm_init int_floats 2 ''arc'' False 1 10 = Inr m" by (simp add: m_def cm_init_def policy_table_def)
  have upt: "[0 ..< 2] = [0, Suc 0]" by (simp add: upt_rec)
  obtain m' where m': "for_each [Prepare_store [5, 6 :: nat], Complete_store [5, 6] True, Touch [5], Lookup 6]
      (cm_step (any_ops int_floats)) m = Inr m'"
    by (simp add: m_def cm_init_def policy_table_def cm_step_def cm_prepare_store_def cm_store_keys_def cm_evict_def
        get_num_free_blocks_def append_event_def allocate_blocks_def new_block_status_def insert_blocks_def
        cm_complete_store_def cm_touch_def cm_lookup_def arc_ops_def arc_get_def arc_insert_def arc_init_def
        set_ref_cnt_def arc_set_ref_def od_has_def od_keys_def is_ready_def od_map_value_def upt Let_def
        del: chain_eq_Inr)
  show ?thesis using manager_runs_keep_pool [OF m _ m'] m m' by auto
qed

section \<open>Refused stores\<close>

definition idle_keys :: "('k \<rightharpoonup> block_status) \<Rightarrow> 'k set \<Rightarrow> 'k set" where
  "idle_keys G prot = {k. \<exists>b. G k = Some b \<and> ref_cnt b = 0 \<and> k \<notin> prot}"

lemma lru_idle_card:
  assumes "lru_inv p"
  shows "card (idle_keys (lru_get p) prot) = length (filter (evictable_block prot) (lru_blocks p))"
proof -
  have d: "distinct (map fst (lru_blocks p))" using assms by (simp add: lru_inv_def)
  have "idle_keys (lru_get p) prot = set (map fst (filter (evictable_block prot) (lru_blocks p)))"
    using d by (force simp: idle_keys_def lru_get_def evictable_block_def image_iff)
  moreover have "distinct (map fst (filter (evictable_block prot) (lru_blocks p)))"
    using d by (rule distinct_map_filter)
  ultimately show ?thesis by (metis distinct_card length_map)
qed

lemma lru_evict_None_iff:
  assumes "lru_inv p"
  shows "lru_evict p n prot = None \<longleftrightarrow> card (idle_keys (lru_get p) prot) < n"
  unfolding lru_idle_card [OF assms] by (auto simp: lru_evict_def Let_def)

lemma prepare_store_refused_iff:
  assumes "cm_inv P I m"
  shows "(\<exists>m'. cm_prepare_store P keys m = Inr (None, m')) \<longleftrightarrow>
    cm_evict P (int (length (filter (\<lambda>k. cm_get P m k = None) (cm_store_keys keys m))) - get_num_free_blocks m)
      (set (cm_store_keys keys m)) m = None"
proof -
  have "0 \<le> get_num_free_blocks m" using assms by (simp add: cm_inv_def get_num_free_blocks_def)
  then show ?thesis by (auto simp: cm_prepare_store_def Let_def cm_evict_def split: option.splits)
qed



text \<open>While the virtual size of T1 is below the target, the selection reads T2 alone.\<close>

lemma arc_select_t2:
  assumes "distinct (map fst (arc_t2 p))" "v < tg"
  shows "arc_select p prot tg n v S = None \<longleftrightarrow>
    length (filter (\<lambda>kb. evictable_block prot kb \<and> fst kb \<notin> S) (arc_t2 p)) < n"
proof (induction n arbitrary: S)
  case (Suc n)
  let ?ok = "\<lambda>S kb. evictable_block prot kb \<and> fst kb \<notin> S"
  show ?case
  proof (cases "find (?ok S) (arc_t2 p)")
    case None
    then have "filter (?ok S) (arc_t2 p) = []" by (auto simp: find_None_iff filter_empty_conv)
    then show ?thesis using None assms(2) by (simp only: arc_select.simps arc_pick_def Let_def) simp
  next
    case (Some kb)
    then obtain xs ys where t2: "arc_t2 p = xs @ kb # ys" and kb: "?ok S kb"
      by (metis find_Some_iff nth_mem split_list)
    have neq: "fst x \<noteq> fst kb" if "x \<in> set xs \<union> set ys" for x
      using assms(1) that by (auto simp: t2) (metis fst_conv image_eqI)+
    then have "filter (?ok (insert (fst kb) S)) ys = filter (?ok S) ys" "filter (?ok (insert (fst kb) S)) xs = filter (?ok S) xs"
      by (auto intro!: filter_cong)
    then have "length (filter (?ok S) (arc_t2 p)) = Suc (length (filter (?ok (insert (fst kb) S)) (arc_t2 p)))"
      using kb by (simp add: t2)
    moreover have "arc_select p prot tg (Suc n) v S = None \<longleftrightarrow> arc_select p prot tg n v (insert (fst kb) S) = None"
      using Some assms(2) by (simp add: arc_pick_def Let_def)
    ultimately show ?thesis using Suc.IH [of "insert (fst kb) S"] by simp
  qed
qed simp

lemma idle_keys_card:
  assumes "distinct (map fst xs)"
  shows "card (idle_keys (map_of xs) prot) = length (filter (evictable_block prot) xs)"
  using lru_idle_card [of "\<lparr>lru_blocks = xs\<rparr>" prot] assms by (simp add: lru_inv_def lru_get_def [abs_def])

text \<open>
  C34. Under ARC a store can be refused although idle blocks are there to evict: while the target
  size of T1 is above its length, \<open>prepare_store\<close> returns \<open>None\<close> exactly when the idle blocks of
  T2, less those of the keys asked for that pass the store threshold, are fewer than the blocks
  it lacks, however many idle blocks T1 holds. Calls on a new manager lead to such a refusal.
\<close>

theorem arc_store_refused_with_idle_block:
  assumes "cm_inv (any_ops F) any_inv m" "cm_policy m = ARC_obj p" "int (length (arc_t1 p)) < f_trunc F (target_t1_size p)"
  shows "(\<exists>m'. cm_prepare_store (any_ops F) keys m = Inr (None, m')) \<longleftrightarrow>
    int (card (idle_keys (map_of (arc_t2 p)) (set (cm_store_keys keys m)))) <
    int (length (filter (\<lambda>k. cm_get (any_ops F) m k = None) (cm_store_keys keys m))) - get_num_free_blocks m"
proof -
  have d: "distinct (map fst (arc_t2 p))" using assms(1,2) by (simp add: cm_inv_def arc_inv_def arc_disjoint_def)
  have "cm_evict (any_ops F) n prot m = None \<longleftrightarrow> int (card (idle_keys (map_of (arc_t2 p)) prot)) < n" for n prot
    using arc_select_t2 [OF d assms(3), of prot "nat n" "{}"]
    by (auto simp: cm_evict_def assms(2) arc_ops_def arc_evict_def idle_keys_card [OF d] split: option.splits)
  then show ?thesis by (simp only: prepare_store_refused_iff [OF assms(1)])
qed

lemmas manager_evaluate = cm_init_def policy_table_def cm_step_def cm_prepare_store_def cm_store_keys_def cm_evict_def
  get_num_free_blocks_def append_event_def allocate_blocks_def new_block_status_def insert_blocks_def free_block_def
  cm_complete_store_def cm_prepare_load_def cm_touch_def cm_lookup_def set_ref_cnt_def od_has_def od_keys_def is_ready_def
  od_map_value_def evictable_block_def Let_def

lemmas arc_evaluate = arc_ops_def arc_get_def arc_insert_def arc_init_def arc_set_ref_def arc_evict_def arc_pick_def
  arc_apply_def arc_trim_def arc_touch_def arc_touch_one_def od_move_to_end_def

definition arc_calls :: "nat cm_call list" where
  "arc_calls = [Prepare_store [5, 6], Complete_store [5, 6] True, Prepare_store [7], Complete_store [7] True, Touch [5],
     Touch [5], Touch [6], Prepare_load [6]]"

lemma arc_calls_run:
  "\<exists>m m' p. cm_init int_floats 2 ''arc'' False 1 10 = Inr m \<and> for_each arc_calls (cm_step (any_ops int_floats)) m = Inr m' \<and>
     cm_policy m' = ARC_obj p \<and> arc_t1 p = [(7, \<lparr>ref_cnt = 0, block_id = 0\<rparr>)] \<and>
     arc_t2 p = [(6, \<lparr>ref_cnt = 1, block_id = 1\<rparr>)] \<and> target_t1_size p = 2 \<and> cm_counts m' = None \<and> get_num_free_blocks m' = 0"
  by (simp add: manager_evaluate arc_evaluate arc_calls_def int_floats_def upt_rec del: chain_eq_Inr)

theorem arc_store_refused_with_idle_block_witness:
  "\<exists>m m' m''. cm_init int_floats 2 ''arc'' False 1 10 = Inr m \<and> for_each arc_calls (cm_step (any_ops int_floats)) m = Inr m' \<and>
     7 \<in> idle_keys (cm_get (any_ops int_floats) m') {9} \<and> cm_prepare_store (any_ops int_floats) [9] m' = Inr (None, m'')"
proof -
  from arc_calls_run obtain m m' p where m: "cm_init int_floats 2 ''arc'' False 1 10 = Inr m"
    "for_each arc_calls (cm_step (any_ops int_floats)) m = Inr m'" and p: "cm_policy m' = ARC_obj p"
    and l: "arc_t1 p = [(7, \<lparr>ref_cnt = 0, block_id = 0\<rparr>)]" "arc_t2 p = [(6, \<lparr>ref_cnt = 1, block_id = 1\<rparr>)]"
      "target_t1_size p = 2" "cm_counts m' = None" "get_num_free_blocks m' = 0" by blast
  have inv: "cm_inv (any_ops int_floats) any_inv m'"
    using cm_init_inv [OF m(1)] _ m(2) by (rule any.cm_run_inv) (simp add: arc_calls_def)
  have keys: "cm_store_keys [9] m' = [9]" by (simp add: cm_store_keys_def l(4))
  have get: "cm_get (any_ops int_floats) m' = arc_get p" by (simp add: p arc_ops_def)
  have "int (length (arc_t1 p)) < f_trunc int_floats (target_t1_size p)" by (simp add: l int_floats_def)
  moreover have "idle_keys (map_of (arc_t2 p)) {9} = {}" by (auto simp: l idle_keys_def split: if_splits)
  moreover have "7 \<in> idle_keys (cm_get (any_ops int_floats) m') {9}"
    by (simp add: get idle_keys_def arc_get_if l)
  ultimately show ?thesis
    using m arc_store_refused_with_idle_block [OF inv p, of "[9]"] by (auto simp: keys l(5) get arc_get_if l(1,2))
qed

lemma prepare_store_evicts:
  assumes "cm_prepare_store P keys m = Inr (Some out, m')"
    and "filter (\<lambda>k. cm_get P m k = None) (cm_store_keys keys m) \<noteq> []"
  shows "\<exists>u. cm_evict P (int (length (filter (\<lambda>k. cm_get P m k = None) (cm_store_keys keys m))) - get_num_free_blocks m)
      (set (cm_store_keys keys m)) m = Some (evicted_keys out, u)"
  using assms by (auto simp: cm_prepare_store_def Let_def split: option.splits)

lemma lru_evict_all_idle:
  assumes "lru_inv l" "lru_evict l (card (idle_keys (lru_get l) prot)) prot = Some (ev, l')"
  shows "fst ` set ev = idle_keys (lru_get l) prot"
proof -
  have d: "distinct (map fst (lru_blocks l))" using assms(1) by (simp add: lru_inv_def)
  have "idle_keys (lru_get l) prot = fst ` set (filter (evictable_block prot) (lru_blocks l))"
    using d by (force simp: idle_keys_def lru_get_def evictable_block_def image_iff)
  then show ?thesis using assms(2) unfolding lru_idle_card [OF assms(1)]
    by (auto simp: lru_evict_def Let_def filter_empty_conv split: if_splits)
qed

text \<open>
  C35. With a store threshold a block of the request that is cached already can be evicted by
  the call, since only the keys that pass the threshold are protected: when LRU lacks as many
  blocks as are idle outside those keys, the store succeeds and evicts every idle block of the
  request that does not pass. Calls on a new manager lead there: the tracker forgets keys that
  are still cached.
\<close>

theorem store_evicts_requested_block:
  assumes "cm_inv (any_ops F) any_inv m" "cm_policy m = LRU_obj l" "distinct keys"
    and "k \<in> set keys" "k \<notin> set (cm_store_keys keys m)" "cm_get (any_ops F) m k = Some b" "ref_cnt b = 0"
    and "int (card (idle_keys (cm_get (any_ops F) m) (set (cm_store_keys keys m)))) =
      int (length (filter (\<lambda>k. cm_get (any_ops F) m k = None) (cm_store_keys keys m))) - get_num_free_blocks m"
  shows "\<exists>out m'. cm_prepare_store (any_ops F) keys m = Inr (Some out, m') \<and> k \<in> set (evicted_keys out) \<and>
    cm_get (any_ops F) m' k = None"
proof -
  let ?I = "idle_keys (cm_get (any_ops F) m) (set (cm_store_keys keys m))"
  let ?st = "filter (\<lambda>k. cm_get (any_ops F) m k = None) (cm_store_keys keys m)"
  have l: "lru_inv l" and G: "cm_get (any_ops F) m = lru_get l" using assms(1,2) by (simp_all add: cm_inv_def lru_ops_def)
  have k: "k \<in> ?I" using assms(5-7) by (simp add: idle_keys_def)
  have ev: "cm_evict (any_ops F) (int (card ?I)) (set (cm_store_keys keys m)) m \<noteq> None"
    using lru_evict_None_iff [OF l] by (auto simp: cm_evict_def assms(2) lru_ops_def G split: option.splits)
  then have "\<nexists>m'. cm_prepare_store (any_ops F) keys m = Inr (None, m')"
    using prepare_store_refused_iff [OF assms(1), of keys] by (simp add: assms(8))
  then obtain out m' where out: "cm_prepare_store (any_ops F) keys m = Inr (Some out, m')"
    and post: "keys_to_store out = ?st" "cm_get (any_ops F) m' =
       (\<lambda>k. if k \<in> set (evicted_keys out) then None else cm_get (any_ops F) m k) ++
         map_of (zip (keys_to_store out) (map new_block_status (store_spec out)))"
    using any.cm_prepare_store_ok [OF assms(1,3)] by blast
  have "finite ?I" by (rule finite_subset [of _ "dom (lru_get l)"]) (auto simp: idle_keys_def G lru_get_def [abs_def] finite_dom_map_of)
  then have pos: "0 < card ?I" using k card_gt_0_iff by blast
  have "0 \<le> get_num_free_blocks m" using assms(1) by (simp add: cm_inv_def get_num_free_blocks_def)
  then have "?st \<noteq> []" using pos assms(8) by auto
  from prepare_store_evicts [OF out this] obtain u where
    u: "cm_evict (any_ops F) (int (card ?I)) (set (cm_store_keys keys m)) m = Some (evicted_keys out, u)" unfolding assms(8) by blast
  then obtain ev l' where "lru_evict l (card ?I) (set (cm_store_keys keys m)) = Some (ev, l')" "evicted_keys out = map fst ev"
    using pos by (auto simp: cm_evict_def assms(2) lru_ops_def split: option.splits)
  then have "set (evicted_keys out) = ?I" using lru_evict_all_idle [OF l] by (simp add: G)
  then have "k \<in> set (evicted_keys out)" using k by simp
  moreover have "cm_get (any_ops F) m' k = None"
    using calculation assms(5) by (auto simp: post map_of_eq_None_iff dest: set_zip_leftD)
  ultimately show ?thesis using out by blast
qed

definition tracked_calls :: "nat cm_call list" where
  "tracked_calls = [Lookup 7, Lookup 7, Prepare_store [7], Complete_store [7] True, Lookup 8, Lookup 8, Prepare_store [8],
     Complete_store [8] True, Prepare_load [8], Lookup 9, Lookup 9]"

lemma tracked_calls_run:
  "\<exists>m m' l. cm_init int_floats 2 ''lru'' False 2 1 = Inr m \<and> for_each tracked_calls (cm_step (any_ops int_floats)) m = Inr m' \<and>
     cm_policy m' = LRU_obj l \<and> lru_blocks l = [(7, \<lparr>ref_cnt = 0, block_id = 0\<rparr>), (8, \<lparr>ref_cnt = 1, block_id = 1\<rparr>)] \<and>
     cm_counts m' = Some [(9, 2)] \<and> cm_store_threshold m' = 2 \<and> get_num_free_blocks m' = 0"
  by (simp add: manager_evaluate policy_evaluate tracked_calls_def track_lookup_def od_move_to_end_def upt_rec lru_init_def
      del: chain_eq_Inr)

theorem store_evicts_requested_block_witness:
  "\<exists>m m' out m''. cm_init int_floats 2 ''lru'' False 2 1 = Inr m \<and>
     for_each tracked_calls (cm_step (any_ops int_floats)) m = Inr m' \<and>
     cm_prepare_store (any_ops int_floats) [7, 9] m' = Inr (Some out, m'') \<and> 7 \<in> set (evicted_keys out)"
proof -
  from tracked_calls_run obtain m m' l where m: "cm_init int_floats 2 ''lru'' False 2 1 = Inr m"
    "for_each tracked_calls (cm_step (any_ops int_floats)) m = Inr m'" and p: "cm_policy m' = LRU_obj l"
    and l: "lru_blocks l = [(7, \<lparr>ref_cnt = 0, block_id = 0\<rparr>), (8, \<lparr>ref_cnt = 1, block_id = 1\<rparr>)]"
      "cm_counts m' = Some [(9, 2)]" "cm_store_threshold m' = 2" "get_num_free_blocks m' = 0" by blast
  have inv: "cm_inv (any_ops int_floats) any_inv m'"
    using cm_init_inv [OF m(1)] _ m(2) by (rule any.cm_run_inv) (simp add: tracked_calls_def)
  have keys: "cm_store_keys [7, 9] m' = [9]" by (simp add: cm_store_keys_def l)
  have get: "cm_get (any_ops int_floats) m' = map_of (lru_blocks l)" by (simp add: p lru_ops_def lru_get_def [abs_def])
  have idle: "idle_keys (map_of (lru_blocks l)) {9} = {7}" by (auto simp: l idle_keys_def split: if_splits)
  have "\<exists>out m''. cm_prepare_store (any_ops int_floats) [7, 9] m' = Inr (Some out, m'') \<and> 7 \<in> set (evicted_keys out) \<and>
      cm_get (any_ops int_floats) m'' 7 = None"
    by (rule store_evicts_requested_block [OF inv p, where b = "\<lparr>ref_cnt = 0, block_id = 0\<rparr>"]) (simp_all add: keys get idle, simp_all add: l)
  then show ?thesis using m by blast
qed

section \<open>Bounds\<close>

definition tracker_ok :: "('k, 'p) cpu_manager \<Rightarrow> bool" where
  "tracker_ok m \<longleftrightarrow> (\<forall>counts. cm_counts m = Some counts \<longrightarrow>
     distinct (map fst counts) \<and> int (length counts) \<le> cm_max_tracker_size m)"

lemma track_lookup_ok:
  assumes "distinct (map fst counts)" "int (length counts) \<le> mx" "1 \<le> mx"
  shows "distinct (map fst (track_lookup k mx counts)) \<and> int (length (track_lookup k mx counts)) \<le> mx"
proof (cases "map_of counts k")
  case (Some n)
  have "k \<in> set (map fst (od_move_to_end counts k))"
    using Some set_move_to_end(1) [OF assms(1), of k] by (auto dest!: map_of_SomeD intro: rev_image_eqI)
  then have "length (AList.update k (n + 1) (od_move_to_end counts k)) = length (od_move_to_end counts k)"
    by (metis length_map update_keys update_Some_unfold list.set_map update_keys)
  then show ?thesis
    using Some assms set_move_to_end(2,4) [OF assms(1), of k] by (simp add: track_lookup_def distinct_update)
next
  case None
  let ?c = "if mx \<le> int (length counts) then tl counts else counts"
  have "map_of ?c k = None" using None by (cases counts) (auto split: if_splits)
  then have "length (AList.update k 1 ?c) = Suc (length ?c)" by (simp add: update_new)
  moreover have "distinct (map fst ?c)" using assms(1) by (simp add: map_tl distinct_tl)
  ultimately show ?thesis using None assms(2,3) by (auto simp: track_lookup_def distinct_update)
qed

text \<open>Only \<open>lookup\<close> writes the tracker.\<close>

definition same_tracker :: "('k, 'p) cpu_manager \<Rightarrow> ('k, 'p) cpu_manager \<Rightarrow> bool" where
  "same_tracker m m' \<longleftrightarrow> cm_counts m' = cm_counts m \<and> cm_max_tracker_size m' = cm_max_tracker_size m"

lemma same_tracker_simps [simp]:
  "same_tracker m m" "same_tracker m (set_ref_cnt P k r u) = same_tracker m u"
  "same_tracker m (append_event ks removed u) = same_tracker m u" "same_tracker m (free_block b u) = same_tracker m u"
  "same_tracker m (u\<lparr>cm_policy := p\<rparr>) = same_tracker m u" "same_tracker m (u\<lparr>cm_free_list := xs\<rparr>) = same_tracker m u"
  "same_tracker m (u\<lparr>cm_num_allocated := n\<rparr>) = same_tracker m u" "same_tracker m (u\<lparr>cm_events := e\<rparr>) = same_tracker m u"
  by (auto simp: same_tracker_def set_ref_cnt_def append_event_def free_block_def split: option.split)

lemma insert_blocks_tracker [simp]: "same_tracker m (insert_blocks P kbs u) = same_tracker m u"
  unfolding insert_blocks_def by (induction kbs arbitrary: u) (simp_all add: split_def)

lemma prepare_load_tracker:
  assumes "cm_prepare_load P keys m = Inr (ids, m')"
  shows "same_tracker m m'"
proof -
  have "same_tracker m (snd (ids, m'))"
    using assms [unfolded cm_prepare_load_def]
    by (rule for_each_inv [where P = "\<lambda>s. same_tracker m (snd s)"]) (auto split: option.splits)
  then show ?thesis by simp
qed

lemma complete_load_tracker: "cm_complete_load P keys m = Inr m' \<Longrightarrow> same_tracker m m'"
  unfolding cm_complete_load_def by (erule for_each_inv) (auto split: option.splits)

lemma prepare_store_tracker:
  assumes "cm_prepare_store P keys m = Inr (r, m')"
  shows "same_tracker m m'"
proof -
  have ev: "same_tracker m u" if "cm_evict P n prot m = Some (ks, u)" for n prot ks u
    using that by (auto simp: cm_evict_def free_all split: if_splits option.splits)
  have al: "same_tracker m u" if "allocate_blocks ks v = Inr (bs, u)" "same_tracker m v" for ks v bs u
    using that by (auto simp: allocate_blocks_def Let_def)
  show ?thesis
    using assms ev al by (fastforce simp: cm_prepare_store_def Let_def split: if_splits option.splits)
qed

lemma complete_store_tracker:
  assumes "cm_complete_store P keys ok m = Inr m'"
  shows "same_tracker m m'"
proof (cases ok)
  case True
  let ?f = "\<lambda>key (stored, m). case cm_get P m key of None \<Rightarrow> (Inr (stored, m) :: _ result)
    | Some block \<Rightarrow> if is_ready block then Inr (stored, m) else Inr (stored @ [key], set_ref_cnt P key 0 m)"
  from assms True obtain ks u where u: "for_each keys ?f ([], m) = Inr (ks, u)" "m' = append_event ks False u"
    by (auto simp: cm_complete_store_def)
  have "same_tracker m (snd (ks, u))"
    using u(1) by (rule for_each_inv [where P = "\<lambda>s. same_tracker m (snd s)"])
      (auto split: option.splits if_splits)
  then show ?thesis by (simp add: u(2))
next
  case False
  from assms False have "for_each keys (\<lambda>key m. case cm_get P m key of None \<Rightarrow> Inr m
      | Some block \<Rightarrow> if is_ready block then Inr m
          else chain (p_remove P (cm_policy m) key) (\<lambda>policy. Inr (free_block block (m\<lparr>cm_policy := policy\<rparr>)))) m = Inr m'"
    by (simp add: cm_complete_store_def)
  then show ?thesis by (rule for_each_inv) (auto split: option.splits if_splits)
qed

lemma cm_step_tracker:
  assumes "cm_step P c m = Inr m'" "tracker_ok m" "1 \<le> cm_max_tracker_size m"
  shows "tracker_ok m' \<and> cm_max_tracker_size m' = cm_max_tracker_size m"
proof -
  have same: ?thesis if "same_tracker m m'" using that assms(2) by (simp add: same_tracker_def tracker_ok_def)
  show ?thesis
  proof (cases c)
    case (Lookup k)
    show ?thesis
    proof (cases "cm_counts m")
      case None
      then show ?thesis using assms(1) by (intro same) (auto simp: Lookup cm_step_def cm_lookup_def)
    next
      case (Some counts)
      then have "m' = m\<lparr>cm_counts := Some (track_lookup k (cm_max_tracker_size m) counts)\<rparr>"
        using assms(1) by (auto simp: Lookup cm_step_def cm_lookup_def split: if_splits)
      then show ?thesis
        using assms(2,3) track_lookup_ok [of counts "cm_max_tracker_size m" k] Some by (simp add: tracker_ok_def)
    qed
  next
    case (Prepare_load ks)
    then obtain r where "cm_prepare_load P ks m = Inr (r, m')" using assms(1) by (auto simp: cm_step_def)
    then show ?thesis by (rule same [OF prepare_load_tracker])
  next
    case (Complete_load ks)
    then have "cm_complete_load P ks m = Inr m'" using assms(1) by (simp add: cm_step_def)
    then show ?thesis by (rule same [OF complete_load_tracker])
  next
    case (Prepare_store ks)
    then obtain r where "cm_prepare_store P ks m = Inr (r, m')" using assms(1) by (auto simp: cm_step_def)
    then show ?thesis by (rule same [OF prepare_store_tracker])
  next
    case (Complete_store ks ok)
    then have "cm_complete_store P ks ok m = Inr m'" using assms(1) by (simp add: cm_step_def)
    then show ?thesis by (rule same [OF complete_store_tracker])
  next
    case (Touch ks)
    then show ?thesis using assms(1) by (intro same) (auto simp: cm_step_def cm_touch_def)
  next
    case Reset_cache
    then show ?thesis using assms(1) by (intro same) (auto simp: cm_step_def cm_reset_cache_def)
  next
    case Take_events
    then show ?thesis
      using assms(1) by (intro same) (auto simp: cm_step_def cm_take_events_def split: option.splits)
  qed
qed

text \<open>
  The tracker of lookups never holds more than \<open>max_tracker_size\<close> keys, and no key twice,
  whatever sequence of calls a new manager receives.
\<close>

theorem tracker_bounded:
  assumes "cm_init F num_blocks name enable_events thr mx = Inr m" "1 \<le> mx"
    and "for_each cs (cm_step (any_ops F)) m = Inr m'" "cm_counts m' = Some counts"
  shows "distinct (map fst counts) \<and> int (length counts) \<le> mx"
proof -
  have "tracker_ok m \<and> cm_max_tracker_size m = mx"
    using assms(1,2) by (auto simp: cm_init_def tracker_ok_def split: option.splits if_splits)
  with assms(3) have "tracker_ok m' \<and> cm_max_tracker_size m' = mx"
    by (rule for_each_inv) (use cm_step_tracker assms(2) in \<open>fastforce\<close>)
  then show ?thesis using assms(4) by (simp add: tracker_ok_def)
qed

theorem tracker_bounded_witness:
  "\<exists>m m' counts. cm_init int_floats 2 ''lru'' False 2 1 = Inr m \<and>
     for_each [Lookup 5, Lookup 6, Lookup (6 :: nat)] (cm_step (any_ops int_floats)) m = Inr m' \<and>
     cm_counts m' = Some counts \<and> int (length counts) \<le> 1"
proof -
  define m :: "(nat, (nat, int) policy_obj) cpu_manager" where "m = projr (cm_init int_floats 2 ''lru'' False 2 1)"
  have m: "cm_init int_floats 2 ''lru'' False 2 1 = Inr m" by (simp add: m_def cm_init_def policy_table_def)
  obtain m' counts where m': "for_each [Lookup 5, Lookup 6, Lookup (6 :: nat)] (cm_step (any_ops int_floats)) m = Inr m'"
      "cm_counts m' = Some counts"
    by (simp add: m_def cm_init_def policy_table_def cm_step_def cm_lookup_def track_lookup_def lru_init_def
        lru_ops_def lru_get_def od_has_def od_keys_def od_move_to_end_def del: chain_eq_Inr)
  show ?thesis using tracker_bounded [OF m _ m'] m m' by auto
qed

text \<open>
  The adaptive target of ARC stays between zero and the capacity. The arithmetic is the
  argument \<open>F\<close>: what is used of it is that its minimum and maximum are those of the order.
\<close>

theorem arc_target_bounded:
  fixes F :: "'f::linorder float_ops"
  assumes "\<And>x y. f_max F x y = max x y" "\<And>x y. f_min F x y = min x y"
    and "\<And>x y. f_int F 1 \<le> y \<Longrightarrow> x \<le> f_add F x y" "\<And>x y. f_int F 1 \<le> y \<Longrightarrow> f_sub F x y \<le> x"
    and "f_int F 0 \<le> f_int F (int (cache_capacity p))"
    and "f_int F 0 \<le> target_t1_size p" "target_t1_size p \<le> f_int F (int (cache_capacity p))"
  shows "f_int F 0 \<le> target_t1_size (arc_touch F p keys) \<and>
    target_t1_size (arc_touch F p keys) \<le> f_int F (int (cache_capacity p))"
proof -
  let ?ok = "\<lambda>q. cache_capacity q = cache_capacity p \<and> f_int F 0 \<le> target_t1_size q \<and>
    target_t1_size q \<le> f_int F (int (cache_capacity p))"
  have step: "?ok (arc_touch_one F k q)" if q: "?ok q" for k q
  proof -
    have "f_int F 0 \<le> f_add F (target_t1_size q) (max (f_int F 1) d)"
      "f_sub F (target_t1_size q) (max (f_int F 1) d) \<le> f_int F (int (cache_capacity p))" for d
      using q assms(3) [of "max (f_int F 1) d" "target_t1_size q"] assms(4) [of "max (f_int F 1) d" "target_t1_size q"]
      by auto
    then show ?thesis
      using q assms(5) by (auto simp: arc_touch_one_def Let_def assms(1,2) split: option.split)
  qed
  have "?ok (fold (arc_touch_one F) xs q)" if "?ok q" for xs q
    using that
  proof (induction xs arbitrary: q)
    case (Cons x xs)
    then show ?case using step [of q x] by simp
  qed simp
  from this [of p "rev keys"] show ?thesis using assms(6,7) by (simp add: arc_touch_def)
qed

theorem arc_target_bounded_witness:
  "target_t1_size (arc_touch int_floats \<lparr>cache_capacity = 1, target_t1_size = 1, arc_t1 = [], arc_t2 = [],
     arc_b1 = [(3 :: nat, ())], arc_b2 = []\<rparr> [3]) \<le> 1"
  using arc_target_bounded [of int_floats "\<lparr>cache_capacity = 1, target_t1_size = 1, arc_t1 = [], arc_t2 = [],
     arc_b1 = [(3 :: nat, ())], arc_b2 = []\<rparr>" "[3]"] by (simp add: int_floats_def)

end
