(* ===== verification/Offload_Key.thy ===== *)
theory Offload_Key
  imports Py_Prelude "HOL-Library.Word"
begin

text \<open>
  Offload keys of \<^verbatim>\<open>kv_offload/base.py\<close>: the bytes of a block hash followed by the
  group index as four big-endian bytes. A byte string is a list of 8-bit words.
\<close>

type_synonym py_bytes = "8 word list"

text \<open>\<open>n.to_bytes(4, "big", signed=False)\<close>.\<close>

definition to_bytes4 :: "int \<Rightarrow> py_bytes result" where
  "to_bytes4 n =
     (if 0 \<le> n \<and> n < 2 ^ 32
      then Inr [word_of_int (n div 2 ^ 24), word_of_int (n div 2 ^ 16), word_of_int (n div 2 ^ 8), word_of_int n]
      else Inl OverflowError)"

text \<open>\<open>int.from_bytes(bs, "big", signed=False)\<close>.\<close>

definition from_bytes :: "py_bytes \<Rightarrow> int" where
  "from_bytes bs = foldl (\<lambda>acc b. acc * 256 + uint b) 0 bs"

definition make_offload_key :: "py_bytes \<Rightarrow> int \<Rightarrow> py_bytes result" where
  "make_offload_key block_hash group_idx =
     chain (to_bytes4 group_idx) (\<lambda>g. Inr (block_hash @ g))"

text \<open>The slices \<open>key[:-4]\<close> and \<open>key[-4:]\<close>.\<close>

definition get_offload_block_hash :: "py_bytes \<Rightarrow> py_bytes" where
  "get_offload_block_hash key = take (length key - 4) key"

definition get_offload_group_idx :: "py_bytes \<Rightarrow> int" where
  "get_offload_group_idx key = from_bytes (drop (length key - 4) key)"

lemma to_bytes4_length: "to_bytes4 n = Inr bs \<Longrightarrow> length bs = 4"
  by (auto simp: to_bytes4_def split: if_splits)

lemma from_to_bytes4:
  assumes "to_bytes4 n = Inr bs"
  shows "from_bytes bs = n"
proof -
  have n: "0 \<le> n" "n < 2 ^ 32"
    and bs: "bs = [word_of_int (n div 2 ^ 24), word_of_int (n div 2 ^ 16), word_of_int (n div 2 ^ 8), word_of_int n]"
    using assms by (auto simp: to_bytes4_def split: if_splits)
  define a b c where "a = n div 256" and "b = a div 256" and "c = b div 256"
  have d: "n div 2 ^ 8 = a" "n div 2 ^ 16 = b" "n div 2 ^ 24 = c"
    by (simp_all add: a_def b_def c_def zdiv_zmult2_eq [symmetric])
  have "0 \<le> c" "c < 256" using n by (simp_all add: d(3) [symmetric] div_int_pos_iff)
  then have c: "c mod 256 = c" by simp
  have "from_bytes bs = ((c mod 256 * 256 + b mod 256) * 256 + a mod 256) * 256 + n mod 256"
    by (simp only: bs d) (simp add: from_bytes_def uint_word_of_int take_bit_eq_mod)
  also have "\<dots> = n"
    unfolding c using div_mult_mod_eq [of b 256] div_mult_mod_eq [of a 256] div_mult_mod_eq [of n 256]
    by (simp add: a_def b_def c_def)
  finally show ?thesis .
qed

lemma to_bytes4_inj: "to_bytes4 n = Inr bs \<Longrightarrow> to_bytes4 n' = Inr bs \<Longrightarrow> n = n'"
  using from_to_bytes4 by metis

text \<open>
  Packing a block hash and a group index into a key and taking them out again gives
  them back, for every index that fits four bytes.
\<close>

theorem offload_key_roundtrip:
  assumes "0 \<le> group_idx" "group_idx < 2 ^ 32"
  shows "\<exists>key. make_offload_key block_hash group_idx = Inr key \<and>
    get_offload_block_hash key = block_hash \<and> get_offload_group_idx key = group_idx"
proof -
  obtain bs where bs: "to_bytes4 group_idx = Inr bs" using assms by (simp add: to_bytes4_def)
  then show ?thesis
    using to_bytes4_length [OF bs] from_to_bytes4 [OF bs]
    by (simp add: make_offload_key_def get_offload_block_hash_def get_offload_group_idx_def)
qed

theorem offload_key_roundtrip_witness:
  "\<exists>key. make_offload_key [1, 2] 258 = Inr key \<and> get_offload_block_hash key = [1, 2] \<and>
    get_offload_group_idx key = 258"
  using offload_key_roundtrip [of 258 "[1, 2]"] by simp

end
