(* ===== verification/Block_Hash.thy ===== *)
theory Block_Hash
  imports Offload_Key
begin

text \<open>
  Block hashes of \<^verbatim>\<open>v1/core/kv_cache_utils.py\<close>: the keys of the prefix cache. The hash
  function, the hash of embedding tensors and the seed \<open>NONE_HASH\<close> are arguments; what is
  shown of the chained hashes assumes a hash without collisions.
\<close>

section \<open>Keys\<close>

definition make_block_hash_with_group_id :: "py_bytes \<Rightarrow> int \<Rightarrow> py_bytes result" where
  "make_block_hash_with_group_id block_hash group_id =
     chain (to_bytes4 group_id) (\<lambda>g. Inr (block_hash @ g))"

definition get_block_hash :: "py_bytes \<Rightarrow> py_bytes" where
  "get_block_hash key = take (length key - 4) key"

definition get_group_id :: "py_bytes \<Rightarrow> int" where
  "get_group_id key = from_bytes (drop (length key - 4) key)"

datatype external_hash = Hash_bytes py_bytes | Hash_int int

text \<open>The flag is the environment variable \<open>VLLM_KV_EVENTS_USE_INT_BLOCK_HASHES\<close>.\<close>

definition maybe_convert_block_hash :: "bool \<Rightarrow> py_bytes \<Rightarrow> external_hash" where
  "maybe_convert_block_hash use_int hash_bytes =
     (if \<not> use_int then Hash_bytes hash_bytes else Hash_int (from_bytes hash_bytes mod 2 ^ 64))"

section \<open>Requests\<close>

record mm_feature =
  mm_identifier :: "string option"
  mm_offset :: int
  mm_length :: int

record lora_request =
  adapter_id :: int
  lora_name :: string

text \<open>The part of a \<open>Request\<close> that hashing reads; \<open>'e\<close> is a row of the embedding tensor.\<close>

record 'e request =
  all_token_ids :: "int list"
  mm_features :: "mm_feature list"
  rq_lora :: "lora_request option"
  cache_salt :: "string option"
  prompt_embeds :: "'e list option"
  embeds_memo :: "(int \<times> int, py_bytes) odict"
  block_hashes :: "py_bytes list"

text \<open>An element of the tuple of extra keys: a \<open>str\<close>, a pair, or \<open>bytes\<close>.\<close>

datatype extra_key = Key_str string | Key_pair string int | Key_bytes py_bytes

text \<open>\<open>xs[a:b]\<close>.\<close>

definition py_slice :: "'a list \<Rightarrow> int \<Rightarrow> int \<Rightarrow> 'a list" where
  "py_slice xs a b =
     (let n = int (length xs);
          a = (if a < 0 then max 0 (a + n) else min a n);
          b = (if b < 0 then max 0 (b + n) else min b n)
      in take (nat (b - a)) (drop (nat a) xs))"

definition need_extra_keys :: "'e request \<Rightarrow> bool" where
  "need_extra_keys r \<longleftrightarrow> mm_features r \<noteq> [] \<or> rq_lora r \<noteq> None \<or> cache_salt r \<noteq> None"

section \<open>Extra keys\<close>

text \<open>The \<open>while\<close> loop of \<open>_gen_mm_extra_hash_keys\<close>, from the index \<open>cur\<close>.\<close>

function mm_loop ::
  "mm_feature list \<Rightarrow> int \<Rightarrow> int \<Rightarrow> nat \<Rightarrow> extra_key list \<Rightarrow> (extra_key list \<times> nat) result" where
  "mm_loop fs start end cur keys =
     (if cur < length fs then
        (let f = fs ! cur; offset = mm_offset f; length = mm_length f
         in case mm_identifier f of
              None \<Rightarrow> Inl AssertionError
            | Some i \<Rightarrow>
                if offset < end then
                  if offset + length \<le> start then mm_loop fs start end (cur + 1) keys
                  else if offset + length \<le> end
                       then mm_loop fs start end (cur + 1) (keys @ [Key_pair i (offset - start)])
                       else Inr (keys @ [Key_pair i (offset - start)], cur)
                else Inr (keys, cur))
      else Inr (keys, cur))"
  by pat_completeness auto
termination by (relation "measure (\<lambda>(fs, start, end, cur, keys). length fs - cur)") auto

declare mm_loop.simps [simp del]

definition gen_mm_extra_hash_keys ::
  "'e request \<Rightarrow> int \<Rightarrow> int \<Rightarrow> int \<Rightarrow> (extra_key list \<times> int) result" where
  "gen_mm_extra_hash_keys r start end start_mm_idx =
     (let fs = mm_features r
      in if fs = [] then Inr ([], start_mm_idx)
         else if mm_offset (last fs) + mm_length (last fs) \<le> start then Inr ([], start_mm_idx)
         else if start_mm_idx < 0 \<and> \<not> - start_mm_idx \<le> int (length fs) then Inl AssertionError
         else
           (let idx = (if start_mm_idx < 0 then int (length fs) + start_mm_idx else start_mm_idx)
            in chain (mm_loop fs start end (nat idx) []) (\<lambda>(keys, cur). Inr (keys, int cur))))"

definition gen_lora_extra_hash_keys :: "'e request \<Rightarrow> extra_key list" where
  "gen_lora_extra_hash_keys r = (case rq_lora r of None \<Rightarrow> [] | Some l \<Rightarrow> [Key_str (lora_name l)])"

text \<open>The hash of a block of embeddings is kept on the request.\<close>

definition gen_prompt_embeds_extra_hash_keys ::
  "('e list \<Rightarrow> py_bytes) \<Rightarrow> 'e request \<Rightarrow> int \<Rightarrow> int \<Rightarrow> extra_key list \<times> 'e request" where
  "gen_prompt_embeds_extra_hash_keys sha r start end =
     (case prompt_embeds r of
        None \<Rightarrow> ([], r)
      | Some embeds \<Rightarrow>
          (case map_of (embeds_memo r) (start, end) of
             Some h \<Rightarrow> ([Key_bytes h], r)
           | None \<Rightarrow>
               let h = sha (py_slice embeds start end)
               in ([Key_bytes h], r\<lparr>embeds_memo := AList.update (start, end) h (embeds_memo r)\<rparr>)))"

definition cache_salt_keys :: "'e request \<Rightarrow> int \<Rightarrow> extra_key list" where
  "cache_salt_keys r start =
     (case cache_salt r of Some salt \<Rightarrow> if start = 0 \<and> salt \<noteq> [] then [Key_str salt] else [] | None \<Rightarrow> [])"

definition generate_block_hash_extra_keys ::
  "('e list \<Rightarrow> py_bytes) \<Rightarrow> 'e request \<Rightarrow> int \<Rightarrow> int \<Rightarrow> int \<Rightarrow>
   (extra_key list option \<times> int \<times> 'e request) result" where
  "generate_block_hash_extra_keys sha r start end start_mm_idx =
     chain (gen_mm_extra_hash_keys r start end start_mm_idx) (\<lambda>(mm_keys, idx).
       let (embeds_keys, r) = gen_prompt_embeds_extra_hash_keys sha r start end;
           keys = gen_lora_extra_hash_keys r @ mm_keys @ cache_salt_keys r start @ embeds_keys
       in Inr (if keys = [] then None else Some keys, idx, r))"

section \<open>Hashes\<close>

type_synonym hash_fn = "py_bytes \<times> int list \<times> extra_key list option \<Rightarrow> py_bytes"

definition hash_block_tokens ::
  "hash_fn \<Rightarrow> py_bytes \<Rightarrow> py_bytes option \<Rightarrow> int list \<Rightarrow> extra_key list option \<Rightarrow> py_bytes" where
  "hash_block_tokens H NONE_HASH parent tokens extra_keys =
     H (case parent of Some p \<Rightarrow> if p = [] then NONE_HASH else p | None \<Rightarrow> NONE_HASH, tokens, extra_keys)"

text \<open>
  The \<open>while True\<close> loop of \<open>request_block_hasher\<close>; with a block size of zero it never ends,
  which is the value \<open>None\<close>.
\<close>

partial_function (option) hash_loop ::
  "hash_fn \<Rightarrow> py_bytes \<Rightarrow> ('e list \<Rightarrow> py_bytes) \<Rightarrow> int \<Rightarrow> 'e request \<Rightarrow> int \<Rightarrow> int \<Rightarrow> py_bytes option \<Rightarrow>
   py_bytes list \<Rightarrow> (py_bytes list \<times> 'e request) result option" where
  "hash_loop H NONE_HASH sha block_size r start mm_idx prev new_hashes =
     (if int (length (all_token_ids r)) < start + block_size then Some (Inr (new_hashes, r))
      else case generate_block_hash_extra_keys sha r start (start + block_size) mm_idx of
             Inl e \<Rightarrow> Some (Inl e)
           | Inr (extra_keys, mm_idx, r) \<Rightarrow>
               (let h = hash_block_tokens H NONE_HASH prev
                          (py_slice (all_token_ids r) start (start + block_size)) extra_keys
                in hash_loop H NONE_HASH sha block_size r (start + block_size) mm_idx (Some h) (new_hashes @ [h])))"

definition request_block_hasher ::
  "hash_fn \<Rightarrow> py_bytes \<Rightarrow> ('e list \<Rightarrow> py_bytes) \<Rightarrow> int \<Rightarrow> 'e request \<Rightarrow> (py_bytes list \<times> 'e request) result option" where
  "request_block_hasher H NONE_HASH sha block_size r =
     (let start = int (length (block_hashes r)) * block_size
      in if int (length (all_token_ids r)) < start + block_size then Some (Inr ([], r))
         else hash_loop H NONE_HASH sha block_size r start (if 0 < start then - 1 else 0)
                (if block_hashes r = [] then None else Some (last (block_hashes r))) [])"

text \<open>\<open>Request.update_block_hashes\<close> and \<open>Request.append_output_token_ids\<close>.\<close>

definition update_block_hashes ::
  "hash_fn \<Rightarrow> py_bytes \<Rightarrow> ('e list \<Rightarrow> py_bytes) \<Rightarrow> int \<Rightarrow> 'e request \<Rightarrow> 'e request result option" where
  "update_block_hashes H NONE_HASH sha block_size r =
     map_option (\<lambda>res. chain res (\<lambda>(hs, r). Inr (r\<lparr>block_hashes := block_hashes r @ hs\<rparr>)))
       (request_block_hasher H NONE_HASH sha block_size r)"

definition append_output_token_ids ::
  "hash_fn \<Rightarrow> py_bytes \<Rightarrow> ('e list \<Rightarrow> py_bytes) \<Rightarrow> int \<Rightarrow> int list \<Rightarrow> 'e request \<Rightarrow> 'e request result option" where
  "append_output_token_ids H NONE_HASH sha block_size token_ids r =
     update_block_hashes H NONE_HASH sha block_size (r\<lparr>all_token_ids := all_token_ids r @ token_ids\<rparr>)"

section \<open>Coarser blocks\<close>

record hash_list_view =
  hv_hashes :: "py_bytes list"
  scale_factor :: int

definition hash_list_with_block_size :: "py_bytes list \<Rightarrow> int \<Rightarrow> int \<Rightarrow> hash_list_view result" where
  "hash_list_with_block_size hashes hash_block_size target_block_size =
     (if hash_block_size = 0 then Inl ZeroDivisionError
      else chain (guard (target_block_size mod hash_block_size = 0) AssertionError) (\<lambda>_.
        Inr \<lparr>hv_hashes = hashes, scale_factor = target_block_size div hash_block_size\<rparr>))"

definition hv_length :: "hash_list_view \<Rightarrow> int result" where
  "hv_length v =
     (if scale_factor v = 0 then Inl ZeroDivisionError else Inr (int (length (hv_hashes v)) div scale_factor v))"

definition get_value_at :: "hash_list_view \<Rightarrow> int \<Rightarrow> py_bytes" where
  "get_value_at v idx =
     concat (py_slice (hv_hashes v) (idx * scale_factor v) (idx * scale_factor v + scale_factor v))"

end
