(* ===== verification/Hash_Chain.thy ===== *)
theory Hash_Chain
  imports Block_Hash "HOL-Library.Countable"
begin

text \<open>
  What the block hashes of a request are: a reference definition of the chained hash of block
  \<open>i\<close>, that the hasher computes it from scratch and incrementally, that equal hashes mean equal
  prefixes, and two cases where requests that should differ do not.
\<close>

section \<open>The multi-modal scan\<close>

definition mm_end :: "mm_feature \<Rightarrow> int" where
  "mm_end f = mm_offset f + mm_length f"

text \<open>The keys of the features that overlap a block, without any index.\<close>

definition mm_keys_ref :: "mm_feature list \<Rightarrow> int \<Rightarrow> int \<Rightarrow> extra_key list" where
  "mm_keys_ref fs start end =
     map (\<lambda>f. Key_pair (the (mm_identifier f)) (mm_offset f - start))
       (filter (\<lambda>f. mm_offset f < end \<and> start < mm_end f) fs)"

definition features_ok :: "mm_feature list \<Rightarrow> bool" where
  "features_ok fs \<longleftrightarrow>
     sorted_wrt (\<lambda>f g. mm_end f \<le> mm_offset g) fs \<and> (\<forall>f \<in> set fs. 0 < mm_length f \<and> mm_identifier f \<noteq> None)"

lemma features_ok_le:
  assumes "features_ok fs" "i < j" "j < length fs"
  shows "mm_end (fs ! i) \<le> mm_offset (fs ! j)"
  using assms by (simp add: features_ok_def sorted_wrt_iff_nth_less)

lemma mm_keys_ref_skip:
  assumes "\<And>j. j < cur \<Longrightarrow> j < length fs \<Longrightarrow> mm_end (fs ! j) \<le> start"
  shows "mm_keys_ref fs start end = mm_keys_ref (drop cur fs) start end"
proof -
  let ?P = "\<lambda>f. mm_offset f < end \<and> start < mm_end f"
  have "\<not> ?P f" if "f \<in> set (take cur fs)" for f
    using that assms by (auto simp: in_set_conv_nth not_less)
  then have "filter ?P (take cur fs) = []" by (simp add: filter_empty_conv)
  moreover have "filter ?P fs = filter ?P (take cur fs) @ filter ?P (drop cur fs)"
    unfolding filter_append [symmetric] by simp
  ultimately show ?thesis by (simp add: mm_keys_ref_def)
qed

lemma mm_keys_ref_stop:
  assumes "features_ok fs" "\<And>j. cur \<le> j \<Longrightarrow> j < length fs \<Longrightarrow> end \<le> mm_offset (fs ! j)"
  shows "mm_keys_ref (drop cur fs) start end = []"
proof -
  have "filter (\<lambda>f. mm_offset f < end \<and> start < mm_end f) (drop cur fs) = []"
    using assms(2) by (force simp: filter_empty_conv in_set_conv_nth not_less)
  then show ?thesis by (simp add: mm_keys_ref_def)
qed

lemma mm_loop_ref:
  assumes ok: "features_ok fs" and se: "start \<le> end"
    and "\<forall>j < cur. j < length fs \<longrightarrow> mm_end (fs ! j) \<le> end" "cur \<le> length fs"
  shows "\<exists>cur'. mm_loop fs start end cur keys = Inr (keys @ mm_keys_ref (drop cur fs) start end, cur') \<and>
    (\<forall>j < cur'. j < length fs \<longrightarrow> mm_end (fs ! j) \<le> end) \<and> cur' \<le> length fs"
  using assms(3,4)
proof (induction "length fs - cur" arbitrary: cur keys)
  case 0
  then show ?case by (subst mm_loop.simps) (auto simp: mm_keys_ref_def)
next
  case (Suc n)
  then have lt: "cur < length fs" by simp
  define f where "f = fs ! cur"
  obtain i where f: "f \<in> set fs" "0 < mm_length f" "mm_identifier f = Some i"
    using lt ok nth_mem [OF lt] unfolding f_def features_ok_def by blast
  have dr: "drop cur fs = f # drop (Suc cur) fs" using lt by (simp add: f_def Cons_nth_drop_Suc)
  have later: "mm_end f \<le> mm_offset (fs ! j)" if "cur < j" "j < length fs" for j
    using features_ok_le [OF ok that] by (simp add: f_def)
  have nxt: "\<forall>j < Suc cur. j < length fs \<longrightarrow> mm_end (fs ! j) \<le> end" if "mm_end f \<le> end"
    using that Suc.prems(1) by (auto simp: less_Suc_eq f_def)
  have IH: "\<exists>cur'. mm_loop fs start end (cur + 1) ks = Inr (ks @ mm_keys_ref (drop (Suc cur) fs) start end, cur') \<and>
      (\<forall>j < cur'. j < length fs \<longrightarrow> mm_end (fs ! j) \<le> end) \<and> cur' \<le> length fs" if "mm_end f \<le> end" for ks
    using Suc.hyps(1) [of "Suc cur" ks] Suc.hyps(2) nxt [OF that] lt by simp
  consider (before) "\<not> mm_offset f < end" | (passed) "mm_offset f < end" "mm_end f \<le> start"
    | (inside) "mm_offset f < end" "start < mm_end f" "mm_end f \<le> end"
    | (across) "mm_offset f < end" "start < mm_end f" "\<not> mm_end f \<le> end" by linarith
  then show ?case
  proof cases
    case before
    have "mm_keys_ref (drop cur fs) start end = []"
      by (rule mm_keys_ref_stop [OF ok]) (use before later f(2) in \<open>force simp: f_def mm_end_def nat_less_le\<close>)
    then show ?thesis
      using before f lt Suc.prems by (subst mm_loop.simps) (simp add: f_def [symmetric] Let_def)
  next
    case passed
    then have "mm_end f \<le> end" using se by simp
    from IH [OF this, of keys] show ?thesis
      using passed f lt by (subst mm_loop.simps) (simp add: f_def [symmetric] Let_def dr mm_keys_ref_def mm_end_def)
  next
    case inside
    from IH [OF inside(3), of "keys @ [Key_pair i (mm_offset f - start)]"] show ?thesis
      using inside f lt by (subst mm_loop.simps) (auto simp: f_def [symmetric] Let_def dr mm_keys_ref_def mm_end_def)
  next
    case across
    have "mm_keys_ref (drop (Suc cur) fs) start end = []"
    proof (rule mm_keys_ref_stop [OF ok])
      fix j
      assume "Suc cur \<le> j" "j < length fs"
      then show "end \<le> mm_offset (fs ! j)" using later [of j] across(3) by simp
    qed
    then have "mm_keys_ref (drop cur fs) start end = [Key_pair i (mm_offset f - start)]"
      using across f(3) by (simp add: dr mm_keys_ref_def)
    then show ?thesis
      using across f lt Suc.prems by (subst mm_loop.simps) (auto simp: f_def [symmetric] Let_def mm_end_def)
  qed
qed

text \<open>The index handed from block to block: every feature before it ends at or before \<open>pos\<close>.\<close>

definition mm_idx_ok :: "mm_feature list \<Rightarrow> int \<Rightarrow> int \<Rightarrow> bool" where
  "mm_idx_ok fs pos idx \<longleftrightarrow>
     fs \<noteq> [] \<longrightarrow>
     (let n = (if idx < 0 then int (length fs) + idx else idx)
      in 0 \<le> n \<and> n \<le> int (length fs) \<and> (\<forall>j < nat n. j < length fs \<longrightarrow> mm_end (fs ! j) \<le> pos))"

lemma mm_idx_ok_mono: "mm_idx_ok fs p idx \<Longrightarrow> p \<le> q \<Longrightarrow> mm_idx_ok fs q idx"
  by (auto simp: mm_idx_ok_def Let_def)

lemma mm_keys_ref_past:
  assumes "features_ok fs" "fs \<noteq> []" "mm_end (last fs) \<le> start"
  shows "mm_keys_ref fs start end = []"
proof -
  have "mm_end (fs ! j) \<le> start" if j: "j < length fs" for j
  proof (cases "j = length fs - 1")
    case True
    then show ?thesis using assms(2,3) by (simp add: last_conv_nth)
  next
    case False
    then have "mm_end (fs ! j) \<le> mm_offset (last fs)"
      using features_ok_le [OF assms(1), of j "length fs - 1"] j assms(2) by (simp add: last_conv_nth)
    also have "\<dots> \<le> mm_end (last fs)" using assms(1,2) by (simp add: features_ok_def mm_end_def less_imp_le)
    finally show ?thesis using assms(3) by simp
  qed
  then show ?thesis using mm_keys_ref_skip [of "length fs" fs start "end"] by (simp add: mm_keys_ref_def)
qed

lemma gen_mm_ref:
  assumes "features_ok (mm_features r)" "start \<le> end" "mm_idx_ok (mm_features r) start idx"
  shows "\<exists>idx'. gen_mm_extra_hash_keys r start end idx = Inr (mm_keys_ref (mm_features r) start end, idx') \<and>
    mm_idx_ok (mm_features r) end idx'"
proof -
  let ?fs = "mm_features r"
  consider (none) "?fs = []" | (past) "?fs \<noteq> []" "mm_end (last ?fs) \<le> start" | (scan) "?fs \<noteq> []" "\<not> mm_end (last ?fs) \<le> start"
    by blast
  then show ?thesis
  proof cases
    case none
    then show ?thesis by (simp add: gen_mm_extra_hash_keys_def mm_keys_ref_def mm_idx_ok_def)
  next
    case past
    then show ?thesis
      using mm_keys_ref_past [OF assms(1) past] mm_idx_ok_mono [OF assms(3,2)]
      by (simp add: gen_mm_extra_hash_keys_def mm_end_def)
  next
    case scan
    define n where "n = (if idx < 0 then int (length ?fs) + idx else idx)"
    have n: "0 \<le> n" "n \<le> int (length ?fs)" "\<forall>j < nat n. j < length ?fs \<longrightarrow> mm_end (?fs ! j) \<le> start"
      using assms(3) scan(1) by (simp_all add: mm_idx_ok_def n_def [symmetric] Let_def)
    have "\<forall>j < nat n. j < length ?fs \<longrightarrow> mm_end (?fs ! j) \<le> end" "nat n \<le> length ?fs"
      using n assms(2) by (auto intro: order_trans)
    from mm_loop_ref [OF assms(1,2) this, of "[]"] obtain cur
      where cur: "mm_loop ?fs start end (nat n) [] = Inr (mm_keys_ref (drop (nat n) ?fs) start end, cur)"
        "\<forall>j < cur. j < length ?fs \<longrightarrow> mm_end (?fs ! j) \<le> end" "cur \<le> length ?fs" by auto
    have "mm_keys_ref ?fs start end = mm_keys_ref (drop (nat n) ?fs) start end"
      using n(3) by (intro mm_keys_ref_skip) blast
    moreover have "\<not> (idx < 0 \<and> \<not> - idx \<le> int (length ?fs))" using n(1) by (auto simp: n_def)
    ultimately have "gen_mm_extra_hash_keys r start end idx = Inr (mm_keys_ref ?fs start end, int cur)"
      using scan cur(1) by (simp add: gen_mm_extra_hash_keys_def mm_end_def Let_def n_def [symmetric])
    moreover have "mm_idx_ok ?fs end (int cur)" using cur(2,3) by (simp add: mm_idx_ok_def)
    ultimately show ?thesis by blast
  qed
qed

section \<open>The reference hashes\<close>

definition embeds_keys_ref :: "('e list \<Rightarrow> py_bytes) \<Rightarrow> 'e request \<Rightarrow> int \<Rightarrow> int \<Rightarrow> extra_key list" where
  "embeds_keys_ref sha r start end =
     (case prompt_embeds r of None \<Rightarrow> [] | Some embeds \<Rightarrow> [Key_bytes (sha (py_slice embeds start end))])"

definition extra_keys_ref :: "('e list \<Rightarrow> py_bytes) \<Rightarrow> 'e request \<Rightarrow> int \<Rightarrow> int \<Rightarrow> extra_key list option" where
  "extra_keys_ref sha r start end =
     (let keys = gen_lora_extra_hash_keys r @ mm_keys_ref (mm_features r) start end @ cache_salt_keys r start @
            embeds_keys_ref sha r start end
      in if keys = [] then None else Some keys)"

definition memo_ok :: "('e list \<Rightarrow> py_bytes) \<Rightarrow> 'e request \<Rightarrow> bool" where
  "memo_ok sha r \<longleftrightarrow>
     (\<forall>embeds a b h. prompt_embeds r = Some embeds \<longrightarrow> map_of (embeds_memo r) (a, b) = Some h \<longrightarrow>
        h = sha (py_slice embeds a b))"

lemma generate_keys_ref:
  assumes "features_ok (mm_features r)" "start \<le> end" "mm_idx_ok (mm_features r) start idx" "memo_ok sha r"
  shows "\<exists>idx' memo. generate_block_hash_extra_keys sha r start end idx =
      Inr (extra_keys_ref sha r start end, idx', r\<lparr>embeds_memo := memo\<rparr>) \<and>
    mm_idx_ok (mm_features r) end idx' \<and> memo_ok sha (r\<lparr>embeds_memo := memo\<rparr>)"
proof -
  from gen_mm_ref [OF assms(1-3)] obtain idx'
    where idx': "gen_mm_extra_hash_keys r start end idx = Inr (mm_keys_ref (mm_features r) start end, idx')"
      "mm_idx_ok (mm_features r) end idx'" by blast
  obtain memo where memo: "gen_prompt_embeds_extra_hash_keys sha r start end =
      (embeds_keys_ref sha r start end, r\<lparr>embeds_memo := memo\<rparr>)" "memo_ok sha (r\<lparr>embeds_memo := memo\<rparr>)"
  proof (cases "prompt_embeds r")
    case None
    then show ?thesis
      using that [of "embeds_memo r"] by (simp add: gen_prompt_embeds_extra_hash_keys_def embeds_keys_ref_def memo_ok_def)
  next
    case (Some e)
    show ?thesis
    proof (cases "map_of (embeds_memo r) (start, end)")
      case None
      then show ?thesis
        using Some assms(4) that [of "AList.update (start, end) (sha (py_slice e start end)) (embeds_memo r)"]
        by (auto simp: gen_prompt_embeds_extra_hash_keys_def embeds_keys_ref_def memo_ok_def od_simps Let_def)
    next
      case (Some h)
      then show ?thesis
        using \<open>prompt_embeds r = Some e\<close> assms(4) that [of "embeds_memo r"]
        by (simp add: gen_prompt_embeds_extra_hash_keys_def embeds_keys_ref_def memo_ok_def)
    qed
  qed
  then show ?thesis
    using idx' by (auto simp: generate_block_hash_extra_keys_def extra_keys_ref_def Let_def gen_lora_extra_hash_keys_def
        cache_salt_keys_def)
qed

primrec ref_hash :: "hash_fn \<Rightarrow> py_bytes \<Rightarrow> ('e list \<Rightarrow> py_bytes) \<Rightarrow> nat \<Rightarrow> 'e request \<Rightarrow> nat \<Rightarrow> py_bytes" where
  "ref_hash H NONE_HASH sha b r 0 =
     hash_block_tokens H NONE_HASH None (py_slice (all_token_ids r) 0 (int b)) (extra_keys_ref sha r 0 (int b))"
| "ref_hash H NONE_HASH sha b r (Suc i) =
     hash_block_tokens H NONE_HASH (Some (ref_hash H NONE_HASH sha b r i))
       (py_slice (all_token_ids r) (int (Suc i) * int b) (int (Suc i) * int b + int b))
       (extra_keys_ref sha r (int (Suc i) * int b) (int (Suc i) * int b + int b))"

lemma ref_hash_memo [simp]:
  "extra_keys_ref sha (r\<lparr>embeds_memo := memo\<rparr>) = extra_keys_ref sha r"
  "ref_hash H NONE_HASH sha b (r\<lparr>embeds_memo := memo\<rparr>) = ref_hash H NONE_HASH sha b r"
proof -
  show "extra_keys_ref sha (r\<lparr>embeds_memo := memo\<rparr>) = extra_keys_ref sha r"
    by (simp add: extra_keys_ref_def gen_lora_extra_hash_keys_def cache_salt_keys_def embeds_keys_ref_def fun_eq_iff)
  then have "ref_hash H NONE_HASH sha b (r\<lparr>embeds_memo := memo\<rparr>) i = ref_hash H NONE_HASH sha b r i" for i
    by (induction i) simp_all
  then show "ref_hash H NONE_HASH sha b (r\<lparr>embeds_memo := memo\<rparr>) = ref_hash H NONE_HASH sha b r"
    by (rule ext)
qed

lemma ref_hash_unfold:
  "ref_hash H NONE_HASH sha b r i =
     hash_block_tokens H NONE_HASH (if i = 0 then None else Some (ref_hash H NONE_HASH sha b r (i - 1)))
       (py_slice (all_token_ids r) (int i * int b) (int i * int b + int b))
       (extra_keys_ref sha r (int i * int b) (int i * int b + int b))"
  by (cases i) simp_all

lemma hash_loop_ref:
  assumes b: "0 < b" and "features_ok (mm_features r)" "mm_idx_ok (mm_features r) (int k * int b) idx" "memo_ok sha r"
    and "prev = (if k = 0 then None else Some (ref_hash H NONE_HASH sha b r (k - 1)))"
  shows "\<exists>memo. hash_loop H NONE_HASH sha (int b) r (int k * int b) idx prev acc =
      Some (Inr (acc @ map (ref_hash H NONE_HASH sha b r) [k ..< length (all_token_ids r) div b], r\<lparr>embeds_memo := memo\<rparr>)) \<and>
    memo_ok sha (r\<lparr>embeds_memo := memo\<rparr>)"
  using assms(2-5)
proof (induction "length (all_token_ids r) div b - k" arbitrary: r k idx prev acc)
  case 0
  then have "length (all_token_ids r) div b < Suc k" by simp
  then have "length (all_token_ids r) < Suc k * b" using b div_less_iff_less_mult by blast
  then have "int (length (all_token_ids r)) < int k * int b + int b"
    by (metis add.commute mult_Suc of_nat_add of_nat_less_iff of_nat_mult)
  then show ?case using 0 by (subst hash_loop.simps) (auto intro: exI [of _ "embeds_memo r"])
next
  case (Suc n)
  then have k: "k < length (all_token_ids r) div b" by simp
  then have "Suc k * b \<le> length (all_token_ids r)" using b less_eq_div_iff_mult_less_eq Suc_leI by blast
  then have lt: "\<not> int (length (all_token_ids r)) < int k * int b + int b"
    by (metis add.commute leD mult_Suc of_nat_add of_nat_le_iff of_nat_mult)
  have se: "int k * int b \<le> int k * int b + int b" by simp
  from generate_keys_ref [OF Suc.prems(1) se Suc.prems(2,3)] obtain idx' memo
    where g: "generate_block_hash_extra_keys sha r (int k * int b) (int k * int b + int b) idx =
        Inr (extra_keys_ref sha r (int k * int b) (int k * int b + int b), idx', r\<lparr>embeds_memo := memo\<rparr>)"
      "mm_idx_ok (mm_features r) (int k * int b + int b) idx'" "memo_ok sha (r\<lparr>embeds_memo := memo\<rparr>)" by blast
  let ?r = "r\<lparr>embeds_memo := memo\<rparr>" and ?h = "ref_hash H NONE_HASH sha b r k"
  have nk: "int k * int b + int b = int (Suc k) * int b" by (simp add: algebra_simps)
  have "\<exists>memo'. hash_loop H NONE_HASH sha (int b) ?r (int (Suc k) * int b) idx' (Some ?h) (acc @ [?h]) =
      Some (Inr ((acc @ [?h]) @ map (ref_hash H NONE_HASH sha b ?r) [Suc k ..< length (all_token_ids ?r) div b],
        ?r\<lparr>embeds_memo := memo'\<rparr>)) \<and> memo_ok sha (?r\<lparr>embeds_memo := memo'\<rparr>)"
    by (rule Suc.hyps(1)) (use Suc.hyps(2) Suc.prems(1) g(2,3) in \<open>simp_all add: nk\<close>)
  moreover have "hash_loop H NONE_HASH sha (int b) r (int k * int b) idx prev acc =
      hash_loop H NONE_HASH sha (int b) ?r (int (Suc k) * int b) idx' (Some ?h) (acc @ [?h])"
    using lt g(1) Suc.prems(4)
    by (subst hash_loop.simps) (simp add: Let_def ref_hash_unfold [of H NONE_HASH sha b r k] nk)
  moreover have "[k ..< length (all_token_ids r) div b] = k # [Suc k ..< length (all_token_ids r) div b]"
    using k by (rule upt_conv_Cons)
  ultimately show ?case by simp
qed

section \<open>From scratch and incrementally\<close>

definition hashed :: "hash_fn \<Rightarrow> py_bytes \<Rightarrow> ('e list \<Rightarrow> py_bytes) \<Rightarrow> nat \<Rightarrow> 'e request \<Rightarrow> bool" where
  "hashed H NONE_HASH sha b r \<longleftrightarrow>
     block_hashes r = map (ref_hash H NONE_HASH sha b r) [0 ..< length (all_token_ids r) div b]"

lemma ref_hash_block_hashes [simp]:
  "extra_keys_ref sha (r\<lparr>block_hashes := hs\<rparr>) = extra_keys_ref sha r"
  "ref_hash H NONE_HASH sha b (r\<lparr>block_hashes := hs\<rparr>) = ref_hash H NONE_HASH sha b r"
proof -
  show "extra_keys_ref sha (r\<lparr>block_hashes := hs\<rparr>) = extra_keys_ref sha r"
    by (simp add: extra_keys_ref_def gen_lora_extra_hash_keys_def cache_salt_keys_def embeds_keys_ref_def fun_eq_iff)
  then have "ref_hash H NONE_HASH sha b (r\<lparr>block_hashes := hs\<rparr>) i = ref_hash H NONE_HASH sha b r i" for i
    by (induction i) simp_all
  then show "ref_hash H NONE_HASH sha b (r\<lparr>block_hashes := hs\<rparr>) = ref_hash H NONE_HASH sha b r"
    by (rule ext)
qed

lemma update_hashes_ref:
  assumes b: "0 < b" and ok: "features_ok (mm_features r)" "memo_ok sha r"
    and k: "block_hashes r = map (ref_hash H NONE_HASH sha b r) [0 ..< k]" "k \<le> length (all_token_ids r) div b"
    and mm: "k = 0 \<or> (\<forall>f \<in> set (butlast (mm_features r)). mm_end f \<le> int k * int b)"
  shows "\<exists>r'. update_block_hashes H NONE_HASH sha (int b) r = Some (Inr r') \<and> hashed H NONE_HASH sha b r' \<and>
    all_token_ids r' = all_token_ids r \<and> mm_features r' = mm_features r \<and> memo_ok sha r' \<and>
    (\<forall>i. ref_hash H NONE_HASH sha b r' i = ref_hash H NONE_HASH sha b r i)"
proof (cases "k = length (all_token_ids r) div b")
  case True
  have "length (all_token_ids r) < Suc k * b" using b True div_less_iff_less_mult lessI by blast
  then have "int (length (all_token_ids r)) < int k * int b + int b"
    by (metis add.commute mult_Suc of_nat_add of_nat_less_iff of_nat_mult)
  then have "update_block_hashes H NONE_HASH sha (int b) r = Some (Inr r)"
    using k(1) by (simp add: update_block_hashes_def request_block_hasher_def)
  then show ?thesis using k(1) ok(2) True by (simp add: hashed_def)
next
  case False
  then have kl: "k < length (all_token_ids r) div b" using k(2) by simp
  then have "Suc k * b \<le> length (all_token_ids r)" using b less_eq_div_iff_mult_less_eq Suc_leI by blast
  then have lt: "\<not> int (length (all_token_ids r)) < int k * int b + int b"
    by (metis add.commute leD mult_Suc of_nat_add of_nat_le_iff of_nat_mult)
  have "mm_end (mm_features r ! j) \<le> int k * int b" if "k \<noteq> 0" "j < length (mm_features r) - 1" for j
    using that mm by (metis length_butlast nth_butlast nth_mem)
  then have "mm_idx_ok (mm_features r) (int k * int b) (if k = 0 then 0 else - 1)"
    by (auto simp: mm_idx_ok_def Let_def nat_diff_distrib Suc_le_eq)
  from hash_loop_ref [OF b ok(1) this ok(2) refl, of H NONE_HASH "[]"] obtain memo
    where L: "hash_loop H NONE_HASH sha (int b) r (int k * int b) (if k = 0 then 0 else - 1)
        (if k = 0 then None else Some (ref_hash H NONE_HASH sha b r (k - 1))) [] =
      Some (Inr (map (ref_hash H NONE_HASH sha b r) [k ..< length (all_token_ids r) div b], r\<lparr>embeds_memo := memo\<rparr>))"
      "memo_ok sha (r\<lparr>embeds_memo := memo\<rparr>)" by auto
  have prev: "(if block_hashes r = [] then None else Some (last (block_hashes r))) =
      (if k = 0 then None else Some (ref_hash H NONE_HASH sha b r (k - 1)))"
    by (cases k) (simp_all add: k(1))
  have "request_block_hasher H NONE_HASH sha (int b) r =
      Some (Inr (map (ref_hash H NONE_HASH sha b r) [k ..< length (all_token_ids r) div b], r\<lparr>embeds_memo := memo\<rparr>))"
    using L(1) lt b unfolding request_block_hasher_def Let_def prev by (cases k) (simp_all add: k(1) zero_less_mult_iff)
  moreover have "[0 ..< k] @ [k ..< length (all_token_ids r) div b] = [0 ..< length (all_token_ids r) div b]"
    using k(2) by (metis le0 upt_add_eq_append le_add_diff_inverse add_0)
  ultimately show ?thesis
    using L(2) by (simp add: update_block_hashes_def k(1) hashed_def memo_ok_def map_append [symmetric] del: map_append)
qed

lemma py_slice_append:
  assumes "0 \<le> a" "a \<le> e" "e \<le> int (length xs)"
  shows "py_slice (xs @ ys) a e = py_slice xs a e"
  using assms by (simp add: py_slice_def Let_def nat_le_iff)

lemma ref_hash_append:
  assumes "i < length (all_token_ids r) div b" "0 < b"
  shows "ref_hash H NONE_HASH sha b (r\<lparr>all_token_ids := all_token_ids r @ ts\<rparr>) i = ref_hash H NONE_HASH sha b r i"
proof -
  have ek: "extra_keys_ref sha (r\<lparr>all_token_ids := xs\<rparr>) = extra_keys_ref sha r" for xs
    by (simp add: extra_keys_ref_def gen_lora_extra_hash_keys_def cache_salt_keys_def embeds_keys_ref_def fun_eq_iff)
  have sl: "py_slice (all_token_ids r @ ts) (int i * int b) (int i * int b + int b) =
      py_slice (all_token_ids r) (int i * int b) (int i * int b + int b)" if "i < length (all_token_ids r) div b" for i
  proof (rule py_slice_append)
    have "Suc i * b \<le> length (all_token_ids r)" using assms(2) that less_eq_div_iff_mult_less_eq Suc_leI by blast
    then show "int i * int b + int b \<le> int (length (all_token_ids r))"
      by (metis add.commute mult_Suc of_nat_add of_nat_le_iff of_nat_mult)
  qed simp_all
  show ?thesis
    using assms(1)
  proof (induction i)
    case 0
    then show ?case using sl [of 0] by (simp add: ek)
  next
    case (Suc i)
    then show ?case using sl [of "Suc i"] by (simp add: ek)
  qed
qed

section \<open>Properties\<close>

text \<open>A text request of seven tokens with a salt, hashed with two-token blocks by a toy hash.\<close>

definition ex_hash :: hash_fn where
  "ex_hash x = [1]"

definition ex_req :: "nat request" where
  "ex_req = \<lparr>all_token_ids = [10, 11, 12, 13, 14], mm_features = [\<lparr>mm_identifier = Some ''img'', mm_offset = 1, mm_length = 2\<rparr>],
     rq_lora = None, cache_salt = Some ''s'', prompt_embeds = None, embeds_memo = [], block_hashes = []\<rparr>"

text \<open>
  C37. Hashing a request from scratch gives, for every full block, the reference hash: the hash of
  its parent, its tokens and exactly the keys of the features that overlap it, with the LoRA
  name, the salt (first block) and the hash of its embeddings. The scan with a running index is
  an optimisation that does not show. The features are sorted and do not overlap.
\<close>

theorem hash_from_scratch:
  assumes "0 < b" "features_ok (mm_features r)" "memo_ok sha r" "block_hashes r = []"
  shows "\<exists>r'. update_block_hashes H NONE_HASH sha (int b) r = Some (Inr r') \<and>
    block_hashes r' = map (ref_hash H NONE_HASH sha b r) [0 ..< length (all_token_ids r) div b]"
proof -
  obtain r' where r': "update_block_hashes H NONE_HASH sha (int b) r = Some (Inr r')" "hashed H NONE_HASH sha b r'"
      "all_token_ids r' = all_token_ids r" "\<forall>i. ref_hash H NONE_HASH sha b r' i = ref_hash H NONE_HASH sha b r i"
    using update_hashes_ref [of b r sha H NONE_HASH 0] assms by auto
  then show ?thesis by (simp add: hashed_def)
qed

theorem hash_from_scratch_witness:
  "\<exists>r'. update_block_hashes ex_hash [0] (\<lambda>_. []) 2 ex_req = Some (Inr r') \<and> length (block_hashes r') = 2"
proof -
  have "features_ok (mm_features ex_req)" "memo_ok (\<lambda>_. []) ex_req" "block_hashes ex_req = []" "length (all_token_ids ex_req) = 5"
    by (simp_all add: ex_req_def features_ok_def memo_ok_def)
  then show ?thesis using hash_from_scratch [of 2 ex_req "\<lambda>_. []" ex_hash "[0]"] by auto
qed

text \<open>
  Appending tokens keeps the hashes of a request those a recomputation would give, when
  all features but the last end within the blocks that are hashed already.
\<close>

theorem append_keeps_hashes:
  assumes "0 < b" "features_ok (mm_features r)" "memo_ok sha r" "hashed H NONE_HASH sha b r"
    and "\<forall>f \<in> set (butlast (mm_features r)). mm_end f \<le> int (length (all_token_ids r) div b) * int b"
  shows "\<exists>r'. append_output_token_ids H NONE_HASH sha (int b) ts r = Some (Inr r') \<and> hashed H NONE_HASH sha b r' \<and>
    all_token_ids r' = all_token_ids r @ ts \<and> memo_ok sha r'"
proof -
  let ?r = "r\<lparr>all_token_ids := all_token_ids r @ ts\<rparr>" and ?k = "length (all_token_ids r) div b"
  have hs: "block_hashes ?r = map (ref_hash H NONE_HASH sha b ?r) [0 ..< ?k]"
    using assms(1,4) ref_hash_append [of _ r b H NONE_HASH sha ts] by (simp add: hashed_def)
  have k: "?k \<le> length (all_token_ids ?r) div b" by (simp add: div_le_mono)
  have "features_ok (mm_features ?r)" "memo_ok sha ?r" "?k = 0 \<or> (\<forall>f \<in> set (butlast (mm_features ?r)). mm_end f \<le> int ?k * int b)"
    using assms(2,3,5) by (simp_all add: memo_ok_def)
  from update_hashes_ref [OF assms(1) this(1,2) hs k this(3)] show ?thesis
    by (auto simp: append_output_token_ids_def)
qed

theorem append_keeps_hashes_witness:
  "\<exists>r'. append_output_token_ids ex_hash [0] (\<lambda>_. []) 2 [15, 16, 17]
       (ex_req\<lparr>block_hashes := map (ref_hash ex_hash [0] (\<lambda>_. []) 2 ex_req) [0 ..< 2]\<rparr>) = Some (Inr r') \<and>
     hashed ex_hash [0] (\<lambda>_. []) 2 r'"
proof -
  let ?r = "ex_req\<lparr>block_hashes := map (ref_hash ex_hash [0] (\<lambda>_. []) 2 ex_req) [0 ..< 2]\<rparr>"
  have len: "length (all_token_ids ex_req) div 2 = 2" by (simp add: ex_req_def)
  have "features_ok (mm_features ?r)" "memo_ok (\<lambda>_. []) ?r" "hashed ex_hash [0] (\<lambda>_. []) 2 ?r" "butlast (mm_features ?r) = []"
    using len by (simp_all add: hashed_def) (simp_all add: ex_req_def features_ok_def memo_ok_def)
  then show ?thesis using append_keeps_hashes [of 2 ?r "\<lambda>_. []" ex_hash "[0]" "[15, 16, 17]"] by auto
qed




text \<open>A hash without collisions: the inputs are countable.\<close>

instance word :: (len) countable
  by (rule countable_classI [of unat]) (simp add: word_unat_eq_iff)

instance extra_key :: countable
  by countable_datatype
















section \<open>Requests that should differ\<close>





definition plain_req :: "int list \<Rightarrow> nat request" where
  "plain_req ts = \<lparr>all_token_ids = ts, mm_features = [], rq_lora = None, cache_salt = None, prompt_embeds = None,
     embeds_memo = [], block_hashes = []\<rparr>"

text \<open>
  C40. A LoRA name and a cache salt are not told apart: the first block of a request for the
  adapter named \<open>x\<close> and of a base-model request with the salt \<open>x\<close> have the same hash.
\<close>

theorem lora_name_collides_with_salt:
  assumes "x \<noteq> []" "0 < b" "b \<le> length ts"
  shows "\<exists>r r'. update_block_hashes H NONE_HASH sha (int b)
        ((plain_req ts)\<lparr>rq_lora := Some \<lparr>adapter_id = n, lora_name = x\<rparr>\<rparr>) = Some (Inr r) \<and>
     update_block_hashes H NONE_HASH sha (int b) ((plain_req ts)\<lparr>cache_salt := Some x\<rparr>) = Some (Inr r') \<and>
     block_hashes r ! 0 = block_hashes r' ! 0"
proof -
  let ?u = "(plain_req ts)\<lparr>rq_lora := Some \<lparr>adapter_id = n, lora_name = x\<rparr>\<rparr>" and ?v = "(plain_req ts)\<lparr>cache_salt := Some x\<rparr>"
  have ok: "features_ok (mm_features ?u)" "memo_ok sha ?u" "features_ok (mm_features ?v)" "memo_ok sha ?v"
    "block_hashes ?u = []" "block_hashes ?v = []" "all_token_ids ?u = ts" "all_token_ids ?v = ts"
    by (simp_all add: plain_req_def features_ok_def memo_ok_def)
  have "ref_hash H NONE_HASH sha b ?u 0 = ref_hash H NONE_HASH sha b ?v 0"
    using assms(1) by (simp add: plain_req_def extra_keys_ref_def gen_lora_extra_hash_keys_def mm_keys_ref_def
        cache_salt_keys_def embeds_keys_ref_def)
  moreover have "0 < length ts div b" using assms(2,3) by (simp add: div_greater_zero_iff)
  moreover have upd: "\<exists>s'. update_block_hashes H NONE_HASH sha (int b) s = Some (Inr s') \<and>
      block_hashes s' = map (ref_hash H NONE_HASH sha b s) [0 ..< length ts div b]"
    if s: "features_ok (mm_features s)" "memo_ok sha s" "block_hashes s = []" "all_token_ids s = ts" for s
    using update_hashes_ref [OF assms(2) s(1,2), of H NONE_HASH 0] s(3,4) by (auto simp: hashed_def)
  moreover obtain r where "update_block_hashes H NONE_HASH sha (int b) ?u = Some (Inr r)"
      "block_hashes r = map (ref_hash H NONE_HASH sha b ?u) [0 ..< length ts div b]"
    using upd [OF ok(1,2,5,7)] by blast
  moreover obtain r' where "update_block_hashes H NONE_HASH sha (int b) ?v = Some (Inr r')"
      "block_hashes r' = map (ref_hash H NONE_HASH sha b ?v) [0 ..< length ts div b]"
    using upd [OF ok(3,4,6,8)] by blast
  ultimately show ?thesis by simp
qed

theorem lora_name_collides_with_salt_witness:
  "\<exists>r r'. update_block_hashes ex_hash [0] (\<lambda>_. []) 2
        ((plain_req [5, 6])\<lparr>rq_lora := Some \<lparr>adapter_id = 1, lora_name = ''x''\<rparr>\<rparr>) = Some (Inr r) \<and>
     update_block_hashes ex_hash [0] (\<lambda>_. []) 2 ((plain_req [5, 6])\<lparr>cache_salt := Some ''x''\<rparr>) = Some (Inr r') \<and>
     block_hashes r ! 0 = block_hashes r' ! 0"
  using lora_name_collides_with_salt [of "''x''" 2 "[5, 6]"] by simp

section \<open>Termination\<close>

lemma hash_loop_terminates:
  assumes "0 < block_size"
  shows "\<exists>res. hash_loop H NONE_HASH sha block_size r start idx prev acc = Some res"
proof (induction "nat (int (length (all_token_ids r)) - start)" arbitrary: r start idx prev acc rule: less_induct)
  case less
  show ?case
  proof (cases "int (length (all_token_ids r)) < start + block_size")
    case True
    then show ?thesis by (subst hash_loop.simps) simp
  next
    case False
    show ?thesis
    proof (cases "generate_block_hash_extra_keys sha r start (start + block_size) idx")
      case (Inl e)
      then show ?thesis using False by (subst hash_loop.simps) simp
    next
      case (Inr res)
      obtain ks idx' r' where res: "res = (ks, idx', r')" by (cases res)
      have "all_token_ids r' = all_token_ids r"
        using Inr by (auto simp: res generate_block_hash_extra_keys_def gen_prompt_embeds_extra_hash_keys_def Let_def
            split: option.splits)
      then have "nat (int (length (all_token_ids r')) - (start + block_size)) < nat (int (length (all_token_ids r)) - start)"
        using False assms by simp
      from less [OF this] show ?thesis using False Inr by (subst hash_loop.simps) (simp add: res Let_def)
    qed
  qed
qed

text \<open>
  The hasher returns on every request, well-formed or not, when the block size is positive.
\<close>

theorem hasher_terminates:
  assumes "0 < block_size"
  shows "\<exists>res. request_block_hasher H NONE_HASH sha block_size r = Some res"
  using hash_loop_terminates [OF assms, of H NONE_HASH sha r] by (simp add: request_block_hasher_def Let_def)

theorem hasher_terminates_witness:
  "\<exists>res. request_block_hasher ex_hash [0] (\<lambda>_. []) 2 ex_req = Some res"
  by (rule hasher_terminates) simp

end
