(* ===== verification/Free_Queue.thy ===== *)
theory Free_Queue
  imports Py_Prelude
begin

text \<open>
  \<open>FreeKVCacheBlockQueue\<close> of \<^verbatim>\<open>v1/core/kv_cache_utils.py\<close>: the doubly linked list of free
  blocks. The attributes \<open>prev_free_block\<close> and \<open>next_free_block\<close> of the block objects are two
  maps over nodes; a pool has one object per block id, so a block is named by its id, and the
  two sentinels are nodes of their own. Every operation is shown to act on the list of ids the
  links spell, and runs of operations to refine runs on plain lists.
\<close>

datatype node = Head | Tail | Blk nat

record free_queue =
  next_free :: "node \<Rightarrow> node option"
  prev_free :: "node \<Rightarrow> node option"
  num_free_blocks :: int

section \<open>Operations\<close>

definition set_next :: "node \<Rightarrow> node option \<Rightarrow> free_queue \<Rightarrow> free_queue" where
  "set_next a v q = q\<lparr>next_free := (next_free q)(a := v)\<rparr>"

definition set_prev :: "node \<Rightarrow> node option \<Rightarrow> free_queue \<Rightarrow> free_queue" where
  "set_prev a v q = q\<lparr>prev_free := (prev_free q)(a := v)\<rparr>"

text \<open>The constructor, on block objects whose links are still \<open>None\<close>.\<close>

definition fq_init :: "nat list \<Rightarrow> free_queue" where
  "fq_init blocks =
     (let n = length blocks;
          q = \<lparr>next_free = (\<lambda>_. None), prev_free = (\<lambda>_. None), num_free_blocks = int n\<rparr>;
          q = fold (\<lambda>i q.
                let q = (if 0 < i then set_prev (Blk (blocks ! i)) (Some (Blk (blocks ! (i - 1)))) q else q)
                in if i + 1 < n then set_next (Blk (blocks ! i)) (Some (Blk (blocks ! (i + 1)))) q else q)
              [0 ..< n] q
      in if 0 < n then
           set_next (Blk (last blocks)) (Some Tail) (set_prev Tail (Some (Blk (last blocks)))
             (set_prev (Blk (hd blocks)) (Some Head) (set_next Head (Some (Blk (hd blocks))) q)))
         else set_prev Tail (Some Head) (set_next Head (Some Tail) q))"

definition popleft :: "free_queue \<Rightarrow> (nat \<times> free_queue) result" where
  "popleft q =
     (case next_free q Head of
        Some (Blk b) \<Rightarrow>
          (case next_free q (Blk b) of
             None \<Rightarrow> Inl RuntimeError
           | Some c \<Rightarrow>
               let q = set_prev c (Some Head) (set_next Head (Some c) q);
                   q = set_next (Blk b) None (set_prev (Blk b) None q)
               in Inr (b, q\<lparr>num_free_blocks := num_free_blocks q - 1\<rparr>))
      | _ \<Rightarrow> if num_free_blocks q = 0 then Inl ValueError else Inl AssertionError)"

text \<open>
  One round of \<open>popleft_n\<close>: the state is the list returned so far, the current node and the
  queue. A sentinel is a node like any other here; \<open>num_free_blocks\<close> keeps the loop from it.
\<close>

definition pop_round ::
  "unit \<Rightarrow> node list \<times> node option \<times> free_queue \<Rightarrow> (node list \<times> node option \<times> free_queue) result" where
  "pop_round u s =
     (case s of (ret, cur, q) \<Rightarrow>
        case cur of
          None \<Rightarrow> Inl AssertionError
        | Some c \<Rightarrow> Inr (ret @ [c], next_free q c, set_next c None (set_prev c None q)))"

definition popleft_n :: "nat \<Rightarrow> free_queue \<Rightarrow> (node list \<times> free_queue) result" where
  "popleft_n n q =
     (if n = 0 then Inr ([], q)
      else
        chain (guard (int n \<le> num_free_blocks q) AssertionError) (\<lambda>_.
        let q = q\<lparr>num_free_blocks := num_free_blocks q - int n\<rparr>
        in chain (for_each (replicate n ()) pop_round ([], next_free q Head, q)) (\<lambda>(ret, cur, q).
           Inr (ret, case cur of None \<Rightarrow> q | Some c \<Rightarrow> set_prev c (Some Head) (set_next Head (Some c) q)))))"

definition fq_remove :: "nat \<Rightarrow> free_queue \<Rightarrow> free_queue result" where
  "fq_remove b q =
     (case (prev_free q (Blk b), next_free q (Blk b)) of
        (Some p, Some n) \<Rightarrow>
          (let q = set_prev n (Some p) (set_next p (Some n) q);
               q = set_next (Blk b) None (set_prev (Blk b) None q)
           in Inr (q\<lparr>num_free_blocks := num_free_blocks q - 1\<rparr>))
      | _ \<Rightarrow> Inl RuntimeError)"

definition fq_append :: "nat \<Rightarrow> free_queue \<Rightarrow> free_queue result" where
  "fq_append b q =
     (case prev_free q Tail of
        None \<Rightarrow> Inl RuntimeError
      | Some last_block \<Rightarrow>
          (let q = set_prev (Blk b) (Some last_block) (set_next last_block (Some (Blk b)) q);
               q = set_prev Tail (Some (Blk b)) (set_next (Blk b) (Some Tail) q)
           in Inr (q\<lparr>num_free_blocks := num_free_blocks q + 1\<rparr>)))"

definition append_round :: "nat \<Rightarrow> node \<times> free_queue \<Rightarrow> node \<times> free_queue" where
  "append_round b s =
     (case s of (last_block, q) \<Rightarrow> (Blk b, set_next last_block (Some (Blk b)) (set_prev (Blk b) (Some last_block) q)))"

definition append_n :: "nat list \<Rightarrow> free_queue \<Rightarrow> free_queue result" where
  "append_n blocks q =
     (if blocks = [] then Inr q
      else case prev_free q Tail of
             None \<Rightarrow> Inl AssertionError
           | Some last_block \<Rightarrow>
               (case fold append_round blocks (last_block, q) of (last_block, q) \<Rightarrow>
                  let q = set_prev Tail (Some last_block) (set_next last_block (Some Tail) q)
                  in Inr (q\<lparr>num_free_blocks := num_free_blocks q + int (length blocks)\<rparr>)))"

text \<open>The walk of \<open>get_all_free_blocks\<close>; on a cyclic list it does not end.\<close>

partial_function (option) walk :: "(node \<Rightarrow> node option) \<Rightarrow> node \<Rightarrow> node list \<Rightarrow> node list option" where
  "walk next cur ret = (case next cur of None \<Rightarrow> Some ret | Some c \<Rightarrow> walk next c (ret @ [cur]))"

definition get_all_free_blocks :: "free_queue \<Rightarrow> node list result option" where
  "get_all_free_blocks q =
     (case next_free q Head of
        None \<Rightarrow> Some (Inl RuntimeError)
      | Some c \<Rightarrow> map_option Inr (walk (next_free q) c []))"

section \<open>The list the links spell\<close>

definition link :: "free_queue \<Rightarrow> node \<Rightarrow> node \<Rightarrow> bool" where
  "link q a b \<longleftrightarrow> next_free q a = Some b \<and> prev_free q b = Some a"

definition spells :: "free_queue \<Rightarrow> nat list \<Rightarrow> bool" where
  "spells q xs \<longleftrightarrow>
     distinct xs \<and> num_free_blocks q = int (length xs) \<and>
     successively (link q) (Head # map Blk xs @ [Tail]) \<and> next_free q Tail = None \<and> prev_free q Head = None \<and>
     (\<forall>b. b \<notin> set xs \<longrightarrow> next_free q (Blk b) = None \<and> prev_free q (Blk b) = None)"

lemma heap_simps [simp]:
  "next_free (set_next a v q) = (next_free q)(a := v)" "prev_free (set_next a v q) = prev_free q"
  "next_free (set_prev a v q) = next_free q" "prev_free (set_prev a v q) = (prev_free q)(a := v)"
  "num_free_blocks (set_next a v q) = num_free_blocks q" "num_free_blocks (set_prev a v q) = num_free_blocks q"
  by (simp_all add: set_next_def set_prev_def)

lemma link_num [simp]: "link (q\<lparr>num_free_blocks := n\<rparr>) = link q"
  by (simp add: link_def fun_eq_iff)

text \<open>A chain of nodes that a write does not touch stays a chain.\<close>

lemma successively_link_cong:
  assumes "successively (link q) ns"
    and "\<And>a. a \<in> set (butlast ns) \<Longrightarrow> next_free q' a = next_free q a"
    and "\<And>a. a \<in> set (tl ns) \<Longrightarrow> prev_free q' a = prev_free q a"
  shows "successively (link q') ns"
  using assms
proof (induction ns rule: induct_list012)
  case (3 a b ns)
  have "link q' a b" using "3.prems" by (simp add: link_def)
  moreover have "successively (link q') (b # ns)"
    by (rule "3.IH"(2)) (use "3.prems" in \<open>auto split: if_splits\<close>)
  ultimately show ?case by simp
qed simp_all

lemma spells_split:
  assumes "spells q (xs @ b # ys)"
  shows "prev_free q (Blk b) = Some (last (Head # map Blk xs))" "next_free q (Blk b) = Some (hd (map Blk ys @ [Tail]))"
    "successively (link q) (Head # map Blk xs)" "successively (link q) (map Blk ys @ [Tail])"
    "next_free q (last (Head # map Blk xs)) = Some (Blk b)" "prev_free q (hd (map Blk ys @ [Tail])) = Some (Blk b)"
proof -
  have s: "successively (link q) ((Head # map Blk xs) @ Blk b # (map Blk ys @ [Tail]))"
    using assms by (simp add: spells_def)
  note S = s [unfolded successively_append_iff [of _ "Head # map Blk xs"] successively_Cons [of _ "Blk b"]]
  show "successively (link q) (Head # map Blk xs)" "successively (link q) (map Blk ys @ [Tail])" using S by auto
  have "link q (last (Head # map Blk xs)) (Blk b)" "link q (Blk b) (hd (map Blk ys @ [Tail]))" using S by auto
  then show "prev_free q (Blk b) = Some (last (Head # map Blk xs))" "next_free q (Blk b) = Some (hd (map Blk ys @ [Tail]))"
    "next_free q (last (Head # map Blk xs)) = Some (Blk b)" "prev_free q (hd (map Blk ys @ [Tail])) = Some (Blk b)"
    by (simp_all add: link_def)
qed

lemma spells_join:
  assumes "successively (link q) (Head # map Blk xs)" "successively (link q) (map Blk ys @ [Tail])"
    and "link q' (last (Head # map Blk xs)) (hd (map Blk ys @ [Tail]))"
    and "\<And>a. a \<in> set (butlast (Head # map Blk xs)) \<union> Blk ` set ys \<Longrightarrow> next_free q' a = next_free q a"
    and "\<And>a. a \<in> Blk ` set xs \<union> set (tl (map Blk ys @ [Tail])) \<Longrightarrow> prev_free q' a = prev_free q a"
  shows "successively (link q') (Head # map Blk (xs @ ys) @ [Tail])"
proof -
  have "successively (link q') (Head # map Blk xs)"
    by (rule successively_link_cong [OF assms(1)]) (use assms(4,5) in auto)
  moreover have "successively (link q') (map Blk ys @ [Tail])"
    by (rule successively_link_cong [OF assms(2)]) (use assms(4,5) in auto)
  ultimately have "successively (link q') ((Head # map Blk xs) @ (map Blk ys @ [Tail]))"
    using assms(3) unfolding successively_append_iff by simp
  then show ?thesis by simp
qed

lemma last_not_butlast: "distinct xs \<Longrightarrow> last (Head # map Blk xs) \<notin> set (butlast (Head # map Blk xs))"
  by (cases xs rule: rev_cases) auto

lemma hd_not_tl: "distinct ys \<Longrightarrow> hd (map Blk ys @ [Tail]) \<notin> set (tl (map Blk ys @ [Tail]))"
  by (cases ys) auto

lemma last_in: "last (Head # map Blk xs) \<in> insert Head (Blk ` set xs)"
  by (metis last_in_set list.distinct(1) list.set(2) list.set_map)

lemma hd_in: "hd (map Blk ys @ [Tail]) \<in> insert Tail (Blk ` set ys)"
  by (cases ys) auto

lemma butlast_in: "a \<in> set (butlast (Head # map Blk xs)) \<Longrightarrow> a \<in> insert Head (Blk ` set xs)"
  by (metis in_set_butlastD list.set(2) list.set_map)

lemma spells_remove:
  assumes "spells q (xs @ b # ys)"
  shows "\<exists>q'. fq_remove b q = Inr q' \<and> spells q' (xs @ ys)"
proof -
  note S = spells_split [OF assms]
  define p n where "p = last (Head # map Blk xs)" and "n = hd (map Blk ys @ [Tail])"
  have d: "distinct xs" "distinct ys" "set xs \<inter> set ys = {}" "b \<notin> set xs" "b \<notin> set ys"
    using assms by (auto simp: spells_def)
  define q' where "q' = (set_next (Blk b) None (set_prev (Blk b) None (set_prev n (Some p) (set_next p (Some n) q))))
    \<lparr>num_free_blocks := num_free_blocks q - 1\<rparr>"
  have p: "p \<in> insert Head (Blk ` set xs)" "p \<notin> set (butlast (Head # map Blk xs))"
    using last_in last_not_butlast [OF d(1)] by (auto simp: p_def)
  have n: "n \<in> insert Tail (Blk ` set ys)" "n \<notin> set (tl (map Blk ys @ [Tail]))"
    using hd_in hd_not_tl [OF d(2)] by (auto simp: n_def)
  have nb: "p \<noteq> Blk b" "n \<noteq> Blk b" "p \<notin> Blk ` set ys" "n \<notin> Blk ` set xs" "p \<noteq> Tail" "n \<noteq> Head"
    using p(1) n(1) d(3-5) by auto
  have "fq_remove b q = Inr q'"
    using S(1,2) unfolding p_def [symmetric] n_def [symmetric] by (simp add: fq_remove_def q'_def Let_def)
  moreover have "successively (link q') (Head # map Blk (xs @ ys) @ [Tail])"
  proof (rule spells_join [OF S(3,4)])
    show "link q' (last (Head # map Blk xs)) (hd (map Blk ys @ [Tail]))"
      using nb unfolding p_def [symmetric] n_def [symmetric] by (simp add: link_def q'_def)
    show "next_free q' a = next_free q a" if "a \<in> set (butlast (Head # map Blk xs)) \<union> Blk ` set ys" for a
    proof -
      have "a \<noteq> p" "a \<noteq> Blk b" using that p(2) nb(3) d(4,5) butlast_in [of a xs] by auto
      then show ?thesis by (simp add: q'_def)
    qed
    show "prev_free q' a = prev_free q a" if "a \<in> Blk ` set xs \<union> set (tl (map Blk ys @ [Tail]))" for a
    proof -
      have "a \<noteq> n" "a \<noteq> Blk b" using that n(2) nb(4) d(4,5) by (cases ys; auto)+
      then show ?thesis by (simp add: q'_def)
    qed
  qed
  moreover have "next_free q' Tail = None" "prev_free q' Head = None"
    using assms nb by (simp_all add: spells_def q'_def)
  moreover have "next_free q' (Blk c) = None \<and> prev_free q' (Blk c) = None" if "c \<notin> set (xs @ ys)" for c
    using that assms p(1) n(1) by (auto simp: spells_def q'_def)
  ultimately show ?thesis using assms d by (auto simp: spells_def q'_def)
qed

lemma spells_remove_absent:
  assumes "spells q xs" "b \<notin> set xs"
  shows "fq_remove b q = Inl RuntimeError"
  using assms by (simp add: spells_def fq_remove_def)

lemma spells_ends:
  assumes "spells q xs"
  shows "next_free q Head = Some (hd (map Blk xs @ [Tail]))" "prev_free q Tail = Some (last (Head # map Blk xs))"
    "link q (last (Head # map Blk xs)) Tail" "link q Head (hd (map Blk xs @ [Tail]))"
proof -
  have s: "successively (link q) ((Head # map Blk xs) @ [Tail])" "successively (link q) (Head # (map Blk xs @ [Tail]))"
    using assms by (simp_all add: spells_def)
  have "link q (last (Head # map Blk xs)) Tail" using s(1) unfolding successively_append_iff by simp
  moreover have "link q Head (hd (map Blk xs @ [Tail]))" using s(2) unfolding successively_Cons by auto
  ultimately show "next_free q Head = Some (hd (map Blk xs @ [Tail]))"
    "prev_free q Tail = Some (last (Head # map Blk xs))"
    "link q (last (Head # map Blk xs)) Tail" "link q Head (hd (map Blk xs @ [Tail]))"
    by (simp_all add: link_def)
qed

lemma popleft_eq_remove:
  assumes "spells q (x # xs)"
  shows "popleft q = chain (fq_remove x q) (\<lambda>q. Inr (x, q))"
  using spells_ends(1) [OF assms] spells_split(1,2) [of q "[]" x xs] assms
  by (simp add: popleft_def fq_remove_def Let_def)

lemma spells_popleft:
  "spells q (x # xs) \<Longrightarrow> \<exists>q'. popleft q = Inr (x, q') \<and> spells q' xs"
  "spells q [] \<Longrightarrow> popleft q = Inl ValueError"
proof -
  show "\<exists>q'. popleft q = Inr (x, q') \<and> spells q' xs" if "spells q (x # xs)"
    using spells_remove [of q "[]" x xs] popleft_eq_remove [OF that] that by auto
  show "popleft q = Inl ValueError" if "spells q []"
    using spells_ends(1) [OF that] that by (simp add: popleft_def spells_def)
qed

lemma spells_append:
  assumes "spells q xs" "b \<notin> set xs"
  shows "\<exists>q'. fq_append b q = Inr q' \<and> spells q' (xs @ [b])"
proof -
  define p where "p = last (Head # map Blk xs)"
  have d: "distinct xs" using assms(1) by (simp add: spells_def)
  have p: "p \<in> insert Head (Blk ` set xs)" "p \<notin> set (butlast (Head # map Blk xs))" "prev_free q Tail = Some p"
    using last_in last_not_butlast [OF d] spells_ends(2) [OF assms(1)] by (auto simp: p_def)
  have nb: "p \<noteq> Blk b" "p \<noteq> Tail" using p(1) assms(2) by auto
  define q' where "q' = (set_prev Tail (Some (Blk b)) (set_next (Blk b) (Some Tail)
    (set_prev (Blk b) (Some p) (set_next p (Some (Blk b)) q))))\<lparr>num_free_blocks := num_free_blocks q + 1\<rparr>"
  have s: "successively (link q) (Head # map Blk xs)"
    using assms(1) by (metis append_Cons spells_def successively_append_iff)
  have "successively (link q') (Head # map Blk xs)"
  proof (rule successively_link_cong [OF s])
    fix a
    show "next_free q' a = next_free q a" if "a \<in> set (butlast (Head # map Blk xs))"
    proof -
      have "a \<noteq> p" "a \<noteq> Blk b" using that p(2) assms(2) butlast_in [OF that] by auto
      then show ?thesis by (simp add: q'_def)
    qed
    show "prev_free q' a = prev_free q a" if "a \<in> set (tl (Head # map Blk xs))"
      using that assms(2) by (auto simp: q'_def)
  qed
  moreover have "link q' p (Blk b)" "link q' (Blk b) Tail" using nb by (simp_all add: q'_def link_def)
  ultimately have "successively (link q') ((Head # map Blk xs) @ [Blk b, Tail])"
    unfolding successively_append_iff p_def by simp
  moreover have "fq_append b q = Inr q'" by (simp add: fq_append_def p(3) q'_def Let_def)
  ultimately show ?thesis using assms nb p(1) by (auto simp: spells_def q'_def)
qed

subsection \<open>Several blocks at a time\<close>

definition close_tail :: "node \<times> free_queue \<Rightarrow> free_queue" where
  "close_tail s = (case s of (l, q) \<Rightarrow> set_prev Tail (Some l) (set_next l (Some Tail) q))"

lemma free_queue_eqI:
  "next_free q = next_free r \<Longrightarrow> prev_free q = prev_free r \<Longrightarrow> num_free_blocks q = num_free_blocks r \<Longrightarrow> q = (r :: free_queue)"
  by (cases q; cases r) simp

lemma num_upd_set [simp]:
  "set_next a v (q\<lparr>num_free_blocks := n\<rparr>) = (set_next a v q)\<lparr>num_free_blocks := n\<rparr>"
  "set_prev a v (q\<lparr>num_free_blocks := n\<rparr>) = (set_prev a v q)\<lparr>num_free_blocks := n\<rparr>"
  by (simp_all add: set_next_def set_prev_def)

text \<open>\<open>append_n\<close> is \<open>append\<close> one block after the other.\<close>

lemma append_round_append:
  "fq_append b ((close_tail (l, q))\<lparr>num_free_blocks := n\<rparr>) =
     Inr ((close_tail (append_round b (l, q)))\<lparr>num_free_blocks := n + 1\<rparr>)"
  by (auto simp: fq_append_def close_tail_def append_round_def Let_def fun_eq_iff intro!: free_queue_eqI)

lemma append_n_rounds:
  "for_each bs fq_append ((close_tail s)\<lparr>num_free_blocks := n\<rparr>) =
     Inr ((close_tail (fold append_round bs s))\<lparr>num_free_blocks := n + int (length bs)\<rparr>)"
proof (induction bs arbitrary: s n)
  case (Cons b bs)
  then show ?case using append_round_append [where b = b and l = "fst s" and q = "snd s" and n = n] by (simp add: algebra_simps)
qed simp

lemma append_round_num: "num_free_blocks (snd (fold append_round bs s)) = num_free_blocks (snd s)"
  by (induction bs arbitrary: s) (auto simp: append_round_def split: prod.split)

lemma append_n_eq_appends:
  assumes "spells q xs"
  shows "append_n bs q = for_each bs fq_append q"
proof (cases "bs = []")
  case False
  define l where "l = last (Head # map Blk xs)"
  have l: "prev_free q Tail = Some l" "next_free q l = Some Tail"
    using spells_ends(2,3) [OF assms] unfolding l_def [symmetric] by (simp_all add: link_def)
  have "(close_tail (l, q))\<lparr>num_free_blocks := num_free_blocks q\<rparr> = q"
    using l by (auto simp: close_tail_def fun_eq_iff intro!: free_queue_eqI)
  then show ?thesis
    using append_n_rounds [where bs = bs and s = "(l, q)" and n = "num_free_blocks q"] append_round_num [of bs "(l, q)"] l(1) False
    by (cases "fold append_round bs (l, q)") (simp add: append_n_def Let_def close_tail_def)
qed (simp add: append_n_def)

lemma spells_append_n:
  assumes "spells q xs" "distinct (xs @ bs)"
  shows "\<exists>q'. append_n bs q = Inr q' \<and> spells q' (xs @ bs)"
proof -
  have "\<exists>q'. for_each bs fq_append q = Inr q' \<and> spells q' (xs @ bs)"
    using assms
  proof (induction bs arbitrary: q xs)
    case (Cons b bs)
    from Cons.prems obtain u where u: "fq_append b q = Inr u" "spells u (xs @ [b])"
      using spells_append [of q xs b] by auto
    then show ?case using Cons.IH [OF u(2)] Cons.prems(2) by simp
  qed simp
  then show ?thesis by (simp add: append_n_eq_appends [OF assms(1)])
qed

text \<open>\<open>popleft_n\<close>: closing the gap after each round is \<open>popleft\<close>.\<close>

definition close_head :: "node \<Rightarrow> free_queue \<Rightarrow> free_queue" where
  "close_head c q = set_prev c (Some Head) (set_next Head (Some c) q)"

lemma pop_round_popleft:
  assumes "spells ((close_head (Blk x) q)\<lparr>num_free_blocks := n\<rparr>) (x # ys)"
  shows "\<exists>q'. pop_round u (ret, Some (Blk x), q) = Inr (ret @ [Blk x], Some (hd (map Blk ys @ [Tail])), q') \<and>
    num_free_blocks q' = num_free_blocks q \<and>
    spells ((close_head (hd (map Blk ys @ [Tail])) q')\<lparr>num_free_blocks := n - 1\<rparr>) ys"
proof -
  let ?Q = "(close_head (Blk x) q)\<lparr>num_free_blocks := n\<rparr>" and ?d = "hd (map Blk ys @ [Tail])"
  define q' where "q' = set_next (Blk x) None (set_prev (Blk x) None q)"
  have d: "next_free q (Blk x) = Some ?d" "?d \<noteq> Blk x" "?d \<noteq> Head"
    using spells_split(2) [of ?Q "[]" x ys] assms by (cases ys; auto simp: close_head_def spells_def)+
  have "popleft ?Q = Inr (x, (close_head ?d q')\<lparr>num_free_blocks := n - 1\<rparr>)"
    using d by (auto simp: popleft_def close_head_def q'_def Let_def fun_eq_iff intro!: free_queue_eqI)
  then have "spells ((close_head ?d q')\<lparr>num_free_blocks := n - 1\<rparr>) ys"
    using spells_popleft(1) [OF assms] by auto
  then show ?thesis using d(1) by (auto simp: pop_round_def q'_def)
qed

lemma pop_rounds:
  assumes "spells ((close_head (hd (map Blk xs @ [Tail])) q)\<lparr>num_free_blocks := m\<rparr>) xs" "n \<le> length xs"
  shows "\<exists>q'. for_each (replicate n ()) pop_round (ret, Some (hd (map Blk xs @ [Tail])), q) =
      Inr (ret @ map Blk (take n xs), Some (hd (map Blk (drop n xs) @ [Tail])), q') \<and>
    num_free_blocks q' = num_free_blocks q \<and>
    spells ((close_head (hd (map Blk (drop n xs) @ [Tail])) q')\<lparr>num_free_blocks := m - int n\<rparr>) (drop n xs)"
  using assms
proof (induction n arbitrary: xs q ret m)
  case (Suc n)
  then obtain x ys where xs: "xs = x # ys" by (cases xs) auto
  obtain u where u: "pop_round () (ret, Some (Blk x), q) = Inr (ret @ [Blk x], Some (hd (map Blk ys @ [Tail])), u)"
      "num_free_blocks u = num_free_blocks q"
      "spells ((close_head (hd (map Blk ys @ [Tail])) u)\<lparr>num_free_blocks := m - 1\<rparr>) ys"
    using pop_round_popleft [where x = x and q = q and n = m and ys = ys and u = "()" and ret = ret] Suc.prems(1) by (auto simp: xs)
  have "n \<le> length ys" using Suc.prems(2) by (simp add: xs)
  from Suc.IH [OF u(3) this, of "ret @ [Blk x]"] show ?case
    using u(1,2) by (simp add: xs algebra_simps)
qed simp

lemma spells_popleft_n:
  assumes "spells q xs"
  shows "n \<le> length xs \<Longrightarrow> \<exists>q'. popleft_n n q = Inr (map Blk (take n xs), q') \<and> spells q' (drop n xs)"
    and "length xs < n \<Longrightarrow> popleft_n n q = Inl AssertionError"
proof -
  have num: "num_free_blocks q = int (length xs)" using assms by (simp add: spells_def)
  then show "length xs < n \<Longrightarrow> popleft_n n q = Inl AssertionError" by (simp add: popleft_n_def)
  assume n: "n \<le> length xs"
  let ?c = "hd (map Blk xs @ [Tail])" and ?Q = "q\<lparr>num_free_blocks := num_free_blocks q - int n\<rparr>"
  have c: "next_free q Head = Some ?c" "prev_free q ?c = Some Head"
    using spells_ends(1,4) [OF assms] by (simp_all add: link_def)
  have "(close_head ?c ?Q)\<lparr>num_free_blocks := num_free_blocks q\<rparr> = q"
    using c by (auto simp: close_head_def fun_eq_iff intro!: free_queue_eqI)
  then have "spells ((close_head ?c ?Q)\<lparr>num_free_blocks := num_free_blocks q\<rparr>) xs" using assms by simp
  from pop_rounds [OF this n, of "[]"] obtain q'
    where q': "for_each (replicate n ()) pop_round ([], Some ?c, ?Q) =
        Inr (map Blk (take n xs), Some (hd (map Blk (drop n xs) @ [Tail])), q')"
      "num_free_blocks q' = num_free_blocks q - int n"
      "spells ((close_head (hd (map Blk (drop n xs) @ [Tail])) q')\<lparr>num_free_blocks := num_free_blocks q - int n\<rparr>) (drop n xs)"
    by auto
  let ?R = "close_head (hd (map Blk (drop n xs) @ [Tail])) q'"
  have "?R\<lparr>num_free_blocks := num_free_blocks q - int n\<rparr> = ?R"
    using q'(2) by (intro free_queue_eqI) (simp_all add: close_head_def)
  then have "spells ?R (drop n xs)" using q'(3) by simp
  then show "\<exists>q'. popleft_n n q = Inr (map Blk (take n xs), q') \<and> spells q' (drop n xs)"
    using q'(1) n num c(1) assms by (cases "n = 0") (auto simp: popleft_n_def Let_def close_head_def simp del: chain_eq_Inr)
qed

lemma walk_spells:
  assumes "successively (\<lambda>a b. n a = Some b) (map Blk xs @ [Tail])" "n Tail = None"
  shows "walk n (hd (map Blk xs @ [Tail])) ret = Some (ret @ map Blk xs)"
  using assms
proof (induction xs arbitrary: ret)
  case Nil
  then show ?case by (subst walk.simps) simp
next
  case (Cons x xs)
  then have "n (Blk x) = Some (hd (map Blk xs @ [Tail]))" by (auto simp: successively_Cons)
  moreover have "successively (\<lambda>a b. n a = Some b) (map Blk xs @ [Tail])"
    using Cons.prems(1) by (auto simp: successively_Cons)
  ultimately show ?case using Cons.IH [of "ret @ [Blk x]"] Cons.prems(2) by (subst walk.simps) simp
qed

subsection \<open>The constructor\<close>

lemma init_rounds:
  fixes m :: int
  assumes "distinct bs" "k \<le> length bs"
  defines "f \<equiv> \<lambda>i q. let q = (if 0 < i then set_prev (Blk (bs ! i)) (Some (Blk (bs ! (i - 1)))) q else q)
    in if i + 1 < length bs then set_next (Blk (bs ! i)) (Some (Blk (bs ! (i + 1)))) q else q"
  defines "q0 \<equiv> \<lparr>next_free = \<lambda>_. None, prev_free = \<lambda>_. None, num_free_blocks = m\<rparr>"
  shows "num_free_blocks (fold f [0 ..< k] q0) = m \<and>
    (\<forall>i < length bs. next_free (fold f [0 ..< k] q0) (Blk (bs ! i)) =
        (if i < k \<and> i + 1 < length bs then Some (Blk (bs ! (i + 1))) else None) \<and>
      prev_free (fold f [0 ..< k] q0) (Blk (bs ! i)) = (if i < k \<and> 0 < i then Some (Blk (bs ! (i - 1))) else None)) \<and>
    (\<forall>a. a \<notin> Blk ` set bs \<longrightarrow> next_free (fold f [0 ..< k] q0) a = None \<and> prev_free (fold f [0 ..< k] q0) a = None)"
  using assms(2)
proof (induction k)
  case 0
  then show ?case by (simp add: q0_def)
next
  case (Suc k)
  define q where "q = fold f [0 ..< k] q0"
  have step: "fold f [0 ..< Suc k] q0 = f k q" by (simp add: q_def)
  have IH: "num_free_blocks q = m" "\<And>a. a \<notin> Blk ` set bs \<Longrightarrow> next_free q a = None \<and> prev_free q a = None"
    "\<And>i. i < length bs \<Longrightarrow> next_free q (Blk (bs ! i)) =
        (if i < k \<and> i + 1 < length bs then Some (Blk (bs ! (i + 1))) else None)"
    "\<And>i. i < length bs \<Longrightarrow> prev_free q (Blk (bs ! i)) = (if i < k \<and> 0 < i then Some (Blk (bs ! (i - 1))) else None)"
    using Suc unfolding q_def by auto
  have k: "k < length bs" "Blk (bs ! k) \<in> Blk ` set bs" using Suc.prems by auto
  have eq: "bs ! i = bs ! k \<longleftrightarrow> i = k" if "i < length bs" for i
    using that k(1) assms(1) by (simp add: nth_eq_iff_index_eq)
  have f: "num_free_blocks (f k q) = m"
    "next_free (f k q) = (if k + 1 < length bs then (next_free q)(Blk (bs ! k) := Some (Blk (bs ! (k + 1)))) else next_free q)"
    "prev_free (f k q) = (if 0 < k then (prev_free q)(Blk (bs ! k) := Some (Blk (bs ! (k - 1)))) else prev_free q)"
    by (simp_all add: f_def IH(1) Let_def)
  have "next_free (f k q) (Blk (bs ! i)) = (if i < Suc k \<and> i + 1 < length bs then Some (Blk (bs ! (i + 1))) else None)"
    "prev_free (f k q) (Blk (bs ! i)) = (if i < Suc k \<and> 0 < i then Some (Blk (bs ! (i - 1))) else None)"
    if "i < length bs" for i
    unfolding f(2,3) fun_upd_apply if_distrib [of "\<lambda>h. h (Blk (bs ! i))"] node.inject eq [OF that] IH(3,4) [OF that]
    by auto
  moreover have "next_free (f k q) a = None \<and> prev_free (f k q) a = None" if "a \<notin> Blk ` set bs" for a
  proof -
    have "a \<noteq> Blk (bs ! k)" using that k(2) by blast
    then show ?thesis
      using IH(2) [OF that] unfolding f(2,3) fun_upd_apply by (cases "k = 0") auto
  qed
  ultimately show ?case using f(1) unfolding step by blast
qed

lemma spells_init:
  assumes "distinct bs"
  shows "spells (fq_init bs) bs"
proof (cases "bs = []")
  case True
  then show ?thesis by (simp add: fq_init_def spells_def link_def)
next
  case False
  define f where "f = (\<lambda>i q. let q = (if 0 < i then set_prev (Blk (bs ! i)) (Some (Blk (bs ! (i - 1)))) q else q)
    in if i + 1 < length bs then set_next (Blk (bs ! i)) (Some (Blk (bs ! (i + 1)))) q else q)"
  define q where "q = fold f [0 ..< length bs] \<lparr>next_free = \<lambda>_. None, prev_free = \<lambda>_. None, num_free_blocks = int (length bs)\<rparr>"
  define r where "r = set_next (Blk (last bs)) (Some Tail) (set_prev Tail (Some (Blk (last bs)))
    (set_prev (Blk (hd bs)) (Some Head) (set_next Head (Some (Blk (hd bs))) q)))"
  have r: "fq_init bs = r"
    using False unfolding fq_init_def r_def q_def f_def Let_def by simp
  note R = init_rounds [OF assms order_refl, where m = "int (length bs)", folded f_def, folded q_def]
  have last: "last bs = bs ! (length bs - 1)" and hd: "hd bs = bs ! 0"
    using False by (simp_all add: last_conv_nth hd_conv_nth)
  have eq: "bs ! i = last bs \<longleftrightarrow> i = length bs - 1" "bs ! i = hd bs \<longleftrightarrow> i = 0" if "i < length bs" for i
    using that False assms by (simp_all add: last hd nth_eq_iff_index_eq)
  have lk: "link r (Blk (bs ! i)) (Blk (bs ! Suc i))" if "Suc i < length bs" for i
  proof -
    have "i \<noteq> length bs - 1" "Suc i \<noteq> 0" using that by auto
    then show ?thesis using R that eq(1) [of i] eq(2) [of "Suc i"] by (simp add: link_def r_def)
  qed
  have "successively (link r) (map Blk bs)"
    using lk by (simp add: successively_conv_nth)
  moreover have "link r Head (Blk (hd bs))" "link r (Blk (last bs)) Tail" by (simp_all add: link_def r_def)
  ultimately have "successively (link r) (Head # map Blk bs @ [Tail])"
    using False by (simp add: successively_Cons successively_append_iff hd_map last_map)
  moreover have "num_free_blocks r = int (length bs)" "next_free r Tail = None" "prev_free r Head = None"
    using R by (auto simp: r_def)
  moreover have "next_free r (Blk b) = None \<and> prev_free r (Blk b) = None" if "b \<notin> set bs" for b
    using that R False by (auto simp: r_def)
  ultimately show ?thesis using assms by (simp add: spells_def r)
qed

section \<open>The queue as an interface\<close>

text \<open>The ids of the blocks popped; a sentinel is never among them.\<close>

fun real_ids :: "node list \<Rightarrow> nat list" where
  "real_ids [] = []"
| "real_ids (Blk b # ns) = b # real_ids ns"
| "real_ids (_ # ns) = real_ids ns"

lemma real_ids_map [simp]: "real_ids (map Blk xs) = xs"
  by (induction xs) auto

definition popleft_ids :: "nat \<Rightarrow> free_queue \<Rightarrow> (nat list \<times> free_queue) result" where
  "popleft_ids n q = chain (popleft_n n q) (\<lambda>(ns, q). Inr (real_ids ns, q))"

datatype queue_call = Pop_n nat | Remove nat | Append_n "nat list"

definition queue_step ::
  "(nat \<Rightarrow> 'q \<Rightarrow> (nat list \<times> 'q) result) \<Rightarrow> (nat \<Rightarrow> 'q \<Rightarrow> 'q result) \<Rightarrow> (nat list \<Rightarrow> 'q \<Rightarrow> 'q result) \<Rightarrow>
   queue_call \<Rightarrow> nat list \<times> 'q \<Rightarrow> (nat list \<times> 'q) result" where
  "queue_step popn rem app c s =
     (case s of (out, q) \<Rightarrow>
        case c of
          Pop_n n \<Rightarrow> chain (popn n q) (\<lambda>(bs, q). Inr (out @ bs, q))
        | Remove b \<Rightarrow> chain (rem b q) (\<lambda>q. Inr (out, q))
        | Append_n bs \<Rightarrow> chain (app bs q) (\<lambda>q. Inr (out, q)))"

lemma queue_step_simps [simp]:
  "queue_step popn rem app (Pop_n n) (out, q) = chain (popn n q) (\<lambda>(bs, q). Inr (out @ bs, q))"
  "queue_step popn rem app (Remove b) (out, q) = chain (rem b q) (\<lambda>q. Inr (out, q))"
  "queue_step popn rem app (Append_n bs) (out, q) = chain (app bs q) (\<lambda>q. Inr (out, q))"
  by (simp_all add: queue_step_def)

text \<open>The same calls on a plain list.\<close>

definition list_popn :: "nat \<Rightarrow> nat list \<Rightarrow> (nat list \<times> nat list) result" where
  "list_popn n xs = (if n \<le> length xs then Inr (take n xs, drop n xs) else Inl AssertionError)"

definition list_rem :: "nat \<Rightarrow> nat list \<Rightarrow> nat list result" where
  "list_rem b xs = (if b \<in> set xs then Inr (remove1 b xs) else Inl RuntimeError)"

definition list_app :: "nat list \<Rightarrow> nat list \<Rightarrow> nat list result" where
  "list_app bs xs = Inr (xs @ bs)"

text \<open>Calls that only give back blocks that are not in the queue.\<close>

fun gives_back :: "queue_call list \<Rightarrow> nat list \<Rightarrow> bool" where
  "gives_back [] xs = True"
| "gives_back (Pop_n n # cs) xs = gives_back cs (drop n xs)"
| "gives_back (Remove b # cs) xs = gives_back cs (remove1 b xs)"
| "gives_back (Append_n bs # cs) xs = (distinct (xs @ bs) \<and> gives_back cs (xs @ bs))"

locale block_queue =
  fixes rel :: "'q \<Rightarrow> nat list \<Rightarrow> bool"
    and popn :: "nat \<Rightarrow> 'q \<Rightarrow> (nat list \<times> 'q) result"
    and rem :: "nat \<Rightarrow> 'q \<Rightarrow> 'q result"
    and app :: "nat list \<Rightarrow> 'q \<Rightarrow> 'q result"
  assumes popn_ok: "rel q xs \<Longrightarrow> n \<le> length xs \<Longrightarrow> \<exists>q'. popn n q = Inr (take n xs, q') \<and> rel q' (drop n xs)"
    and popn_short: "rel q xs \<Longrightarrow> length xs < n \<Longrightarrow> popn n q = Inl AssertionError"
    and rem_ok: "rel q xs \<Longrightarrow> b \<in> set xs \<Longrightarrow> \<exists>q'. rem b q = Inr q' \<and> rel q' (remove1 b xs)"
    and rem_absent: "rel q xs \<Longrightarrow> b \<notin> set xs \<Longrightarrow> rem b q = Inl RuntimeError"
    and app_ok: "rel q xs \<Longrightarrow> distinct (xs @ bs) \<Longrightarrow> \<exists>q'. app bs q = Inr q' \<and> rel q' (xs @ bs)"
begin

lemma runs_refine:
  assumes "rel q xs" "gives_back cs xs"
  shows "case for_each cs (queue_step list_popn list_rem list_app) (out, xs) of
      Inl e \<Rightarrow> for_each cs (queue_step popn rem app) (out, q) = Inl e
    | Inr (out', ys) \<Rightarrow> \<exists>q'. for_each cs (queue_step popn rem app) (out, q) = Inr (out', q') \<and> rel q' ys"
  using assms
proof (induction cs arbitrary: q xs out)
  case (Cons c cs)
  show ?case
  proof (cases c)
    case (Pop_n n)
    show ?thesis
    proof (cases "n \<le> length xs")
      case True
      from popn_ok [OF Cons.prems(1) True] obtain u where u: "popn n q = Inr (take n xs, u)" "rel u (drop n xs)" by blast
      then show ?thesis
        using Cons.IH [OF u(2), of "out @ take n xs"] Cons.prems(2) True
        by (simp add: Pop_n list_popn_def split: sum.splits prod.splits)
    next
      case False
      then show ?thesis using popn_short [OF Cons.prems(1), of n] by (simp add: Pop_n list_popn_def)
    qed
  next
    case (Remove b)
    show ?thesis
    proof (cases "b \<in> set xs")
      case True
      from rem_ok [OF Cons.prems(1) True] obtain u where u: "rem b q = Inr u" "rel u (remove1 b xs)" by blast
      then show ?thesis
        using Cons.IH [OF u(2), of out] Cons.prems(2) True
        by (simp add: Remove list_rem_def split: sum.splits prod.splits)
    next
      case False
      then show ?thesis using rem_absent [OF Cons.prems(1) False] by (simp add: Remove list_rem_def)
    qed
  next
    case (Append_n bs)
    have d: "distinct (xs @ bs)" using Cons.prems(2) by (simp add: Append_n)
    from app_ok [OF Cons.prems(1) d] obtain u where u: "app bs q = Inr u" "rel u (xs @ bs)" by blast
    then show ?thesis
      using Cons.IH [OF u(2), of out] Cons.prems(2)
      by (simp add: Append_n list_app_def split: sum.splits prod.splits)
  qed
qed simp

end

lemma spells_popleft_ids:
  assumes "spells q xs" "n \<le> length xs"
  shows "\<exists>q'. popleft_ids n q = Inr (take n xs, q') \<and> spells q' (drop n xs)"
  using spells_popleft_n(1) [OF assms] by (auto simp: popleft_ids_def)

interpretation fq: block_queue spells popleft_ids fq_remove append_n
proof
  fix q xs n b bs
  assume s: "spells q xs"
  show "n \<le> length xs \<Longrightarrow> \<exists>q'. popleft_ids n q = Inr (take n xs, q') \<and> spells q' (drop n xs)"
    by (rule spells_popleft_ids [OF s])
  show "length xs < n \<Longrightarrow> popleft_ids n q = Inl AssertionError"
    by (simp add: popleft_ids_def spells_popleft_n(2) [OF s])
  show "b \<notin> set xs \<Longrightarrow> fq_remove b q = Inl RuntimeError" by (rule spells_remove_absent [OF s])
  show "distinct (xs @ bs) \<Longrightarrow> \<exists>q'. append_n bs q = Inr q' \<and> spells q' (xs @ bs)" by (rule spells_append_n [OF s])
  assume "b \<in> set xs"
  then obtain ys zs where xs: "xs = ys @ b # zs" "b \<notin> set ys" by (meson split_list_first)
  then show "\<exists>q'. fq_remove b q = Inr q' \<and> spells q' (remove1 b xs)"
    using spells_remove [of q ys b zs] s by (simp add: remove1_append)
qed

section \<open>Properties\<close>

text \<open>
  C36. The linked list refines a plain list: on a new queue of distinct blocks every sequence of
  \<open>popleft_n\<close>, \<open>remove\<close> and \<open>append_n\<close> calls that gives back only blocks that are out of the
  queue pops the same blocks in the same order, raises the same error, and ends with links that
  spell the list, as the calls on the list do.
\<close>

theorem queue_refines_list:
  assumes "distinct blocks" "gives_back cs blocks"
  shows "case for_each cs (queue_step list_popn list_rem list_app) ([], blocks) of
      Inl e \<Rightarrow> for_each cs (queue_step popleft_ids fq_remove append_n) ([], fq_init blocks) = Inl e
    | Inr (out, ys) \<Rightarrow> \<exists>q. for_each cs (queue_step popleft_ids fq_remove append_n) ([], fq_init blocks) = Inr (out, q) \<and>
        spells q ys"
  by (rule fq.runs_refine [OF spells_init [OF assms(1)] assms(2)])

theorem queue_refines_list_witness:
  "\<exists>q. for_each [Pop_n 2, Remove 4, Append_n [1, 0], Pop_n 2] (queue_step popleft_ids fq_remove append_n)
     ([], fq_init [0, 1, 2, 3, 4]) = Inr ([0, 1, 2, 3], q) \<and> spells q [1, 0]"
  using queue_refines_list [of "[0, 1, 2, 3, 4]" "[Pop_n 2, Remove 4, Append_n [1, 0], Pop_n 2]"]
  by (simp add: list_popn_def list_rem_def list_app_def)

text \<open>The walk through the queue returns, with the blocks in order.\<close>

lemma spells_walk:
  assumes "spells q xs"
  shows "get_all_free_blocks q = Some (Inr (map Blk xs))"
proof -
  have "successively (link q) (map Blk xs @ [Tail])" "next_free q Tail = None"
    using assms by (simp_all add: spells_def successively_Cons)
  then have "successively (\<lambda>a b. next_free q a = Some b) (map Blk xs @ [Tail])"
    by (simp add: successively_conv_nth link_def)
  then show ?thesis
    using walk_spells [of "next_free q" xs "[]"] spells_ends(1) [OF assms] \<open>next_free q Tail = None\<close>
    by (simp add: get_all_free_blocks_def)
qed

end
