(* ===== verification/Block_Pool.thy ===== *)
theory Block_Pool
  imports Free_Queue Block_Hash
begin

text \<open>
  \<open>BlockHashToBlockMap\<close> and \<open>BlockPool\<close> of \<^verbatim>\<open>v1/core/block_pool.py\<close>: the pool of GPU
  blocks with reference counts, the queue of free blocks in eviction order, and the prefix
  cache from hashes to blocks. A block object is named by its id; its links are in the queue
  and its other attributes in the list of blocks. Metrics are not modelled.
\<close>

section \<open>The hash map\<close>

text \<open>The value of a key: one block, or a dict from ids to blocks in insertion order.\<close>

datatype cached_blocks = One nat | Many "nat list"

type_synonym block_map = "(py_bytes, cached_blocks) odict"

definition get_one_block :: "block_map \<Rightarrow> py_bytes \<Rightarrow> nat option result" where
  "get_one_block m key =
     (case map_of m key of
        None \<Rightarrow> Inr None
      | Some (One b) \<Rightarrow> Inr (Some b)
      | Some (Many []) \<Rightarrow> Inl StopIteration
      | Some (Many (b # _)) \<Rightarrow> Inr (Some b))"

definition bm_insert :: "block_map \<Rightarrow> py_bytes \<Rightarrow> nat \<Rightarrow> block_map" where
  "bm_insert m key b =
     (case map_of m key of
        None \<Rightarrow> AList.update key (One b) m
      | Some (One c) \<Rightarrow> AList.update key (Many (if b = c then [c] else [c, b])) m
      | Some (Many cs) \<Rightarrow> AList.update key (Many (if b \<in> set cs then cs else cs @ [b])) m)"

definition bm_pop :: "block_map \<Rightarrow> py_bytes \<Rightarrow> nat \<Rightarrow> nat option \<times> block_map" where
  "bm_pop m key b =
     (let rest = AList.delete key m
      in case map_of m key of
           None \<Rightarrow> (None, m)
         | Some (One c) \<Rightarrow> if c = b then (Some c, rest) else (None, AList.update key (One c) rest)
         | Some (Many cs) \<Rightarrow>
             (let ds = remove1 b cs
              in (if b \<in> set cs then Some b else None, if ds = [] then rest else AList.update key (Many ds) rest)))"

section \<open>The pool\<close>

record kv_block =
  kb_ref_cnt :: int
  kb_hash :: "py_bytes option"
  kb_is_null :: bool

datatype kv_event =
    Block_stored "external_hash list" "external_hash option" "int list" int "int option" string "string option"
      "extra_key list option list option" int
  | Block_removed "external_hash list" string int
  | All_blocks_cleared

record block_pool =
  num_gpu_blocks :: nat
  enable_caching :: bool
  hash_block_size :: int
  bp_blocks :: "kv_block list"
  bp_queue :: free_queue
  bp_cached :: block_map
  null_block :: nat
  enable_kv_cache_events :: bool
  kv_event_queue :: "kv_event list"

definition upd_block :: "nat \<Rightarrow> (kv_block \<Rightarrow> kv_block) \<Rightarrow> block_pool \<Rightarrow> block_pool" where
  "upd_block b f p = p\<lparr>bp_blocks := (bp_blocks p)[b := f (bp_blocks p ! b)]\<rparr>"

definition bp_init :: "nat \<Rightarrow> bool \<Rightarrow> int \<Rightarrow> bool \<Rightarrow> block_pool result" where
  "bp_init num_blocks caching hash_size events =
     chain (guard (0 < num_blocks) AssertionError) (\<lambda>_.
     chain (popleft (fq_init [0 ..< num_blocks])) (\<lambda>(null, q).
       Inr (upd_block null (kb_is_null_update (\<lambda>_. True))
         \<lparr>num_gpu_blocks = num_blocks, enable_caching = caching, hash_block_size = hash_size,
          bp_blocks = replicate num_blocks \<lparr>kb_ref_cnt = 0, kb_hash = None, kb_is_null = False\<rparr>,
          bp_queue = q, bp_cached = [], null_block = null, enable_kv_cache_events = events, kv_event_queue = []\<rparr>)))"

definition bp_num_free_blocks :: "block_pool \<Rightarrow> int" where
  "bp_num_free_blocks p = num_free_blocks (bp_queue p)"

text \<open>The loop returns on the first group without a block.\<close>

fun get_cached_block :: "block_pool \<Rightarrow> py_bytes \<Rightarrow> int list \<Rightarrow> nat list option result" where
  "get_cached_block p block_hash [] = Inr (Some [])"
| "get_cached_block p block_hash (g # gs) =
     chain (make_block_hash_with_group_id block_hash g) (\<lambda>key.
     chain (get_one_block (bp_cached p) key) (\<lambda>found.
       case found of
         None \<Rightarrow> Inr None
       | Some b \<Rightarrow> chain (get_cached_block p block_hash gs) (\<lambda>bs. Inr (map_option ((#) b) bs))))"

text \<open>The hashes at the granularity of the group: all of them, and the one before the new blocks.\<close>

definition group_hashes :: "block_pool \<Rightarrow> 'e request \<Rightarrow> int \<Rightarrow> py_bytes list result" where
  "group_hashes p r block_size =
     (if block_size = hash_block_size p then Inr (block_hashes r)
      else if hash_block_size p = 0 then Inl ZeroDivisionError
      else chain (guard (block_size mod hash_block_size p = 0) AssertionError) (\<lambda>_.
           chain (hash_list_with_block_size (block_hashes r) (hash_block_size p) block_size) (\<lambda>v.
           chain (hv_length v) (\<lambda>n. Inr (map (\<lambda>i. get_value_at v (int i)) [0 ..< nat n])))))"

definition parent_hash :: "block_pool \<Rightarrow> 'e request \<Rightarrow> int \<Rightarrow> nat \<Rightarrow> py_bytes result" where
  "parent_hash p r block_size i =
     (if block_size = hash_block_size p then py_nth (block_hashes r) i
      else chain (hash_list_with_block_size (block_hashes r) (hash_block_size p) block_size) (\<lambda>v.
        Inr (get_value_at v (int i))))"

text \<open>One round of the loop of \<open>cache_full_blocks\<close>: block \<open>blk\<close> at position \<open>i\<close> of the new blocks.\<close>

definition cache_one ::
  "bool \<Rightarrow> py_bytes list \<Rightarrow> int \<Rightarrow> bool list option \<Rightarrow> nat \<times> nat \<Rightarrow> external_hash list \<times> block_pool \<Rightarrow>
   (external_hash list \<times> block_pool) result" where
  "cache_one use_int hashes group_id block_mask iblk s =
     (case iblk of (i, blk) \<Rightarrow> case s of (new_hashes, p) \<Rightarrow>
        if kb_is_null (bp_blocks p ! blk) \<or> (\<exists>mask. block_mask = Some mask \<and> \<not> mask ! i) then Inr (new_hashes, p)
        else
          chain (guard (kb_hash (bp_blocks p ! blk) = None) AssertionError) (\<lambda>_.
          chain (py_nth hashes i) (\<lambda>block_hash.
          chain (make_block_hash_with_group_id block_hash group_id) (\<lambda>key.
            Inr (if enable_kv_cache_events p then new_hashes @ [maybe_convert_block_hash use_int block_hash] else new_hashes,
                 (upd_block blk (kb_hash_update (\<lambda>_. Some key)) p)
                   \<lparr>bp_cached := bm_insert (bp_cached p) key blk\<rparr>)))))"

text \<open>The extra keys of the new blocks, for the event.\<close>

definition event_keys_one ::
  "('e list \<Rightarrow> py_bytes) \<Rightarrow> block_pool \<Rightarrow> int \<Rightarrow> nat list \<Rightarrow> nat \<Rightarrow> bool list option \<Rightarrow> nat \<Rightarrow>
   extra_key list option list \<times> int \<times> 'e request \<Rightarrow> (extra_key list option list \<times> int \<times> 'e request) result" where
  "event_keys_one sha p block_size blocks num_cached block_mask i s =
     (case s of (keys, mm_idx, r) \<Rightarrow>
        chain (py_nth blocks i) (\<lambda>blk.
          if kb_is_null (bp_blocks p ! blk) \<or> (\<exists>mask. block_mask = Some mask \<and> \<not> mask ! (i - num_cached)) then Inr s
          else
            chain (generate_block_hash_extra_keys sha r (int i * block_size) (int i * block_size + block_size) mm_idx)
              (\<lambda>(ks, mm_idx, r). Inr (keys @ [ks], mm_idx, r))))"

definition stored_event ::
  "bool \<Rightarrow> ('e list \<Rightarrow> py_bytes) \<Rightarrow> 'e request \<Rightarrow> nat list \<Rightarrow> nat \<Rightarrow> nat \<Rightarrow> int \<Rightarrow> int \<Rightarrow> bool list option \<Rightarrow>
   external_hash list \<Rightarrow> block_pool \<Rightarrow> (block_pool \<times> 'e request) result" where
  "stored_event use_int sha r blocks num_cached num_full block_size group_id block_mask new_hashes p =
     chain (if num_cached = 0 then Inr None
            else chain (parent_hash p r block_size (num_cached - 1)) (\<lambda>h. Inr (Some (maybe_convert_block_hash use_int h))))
       (\<lambda>parent.
     chain (for_each [num_cached ..< num_full] (event_keys_one sha p block_size blocks num_cached block_mask) ([], 0, r))
       (\<lambda>(keys, _, r).
          Inr (p\<lparr>kv_event_queue := kv_event_queue p @
                 [Block_stored new_hashes parent
                    (py_slice (all_token_ids r) (int num_cached * block_size) (int num_full * block_size)) block_size
                    (map_option adapter_id (rq_lora r)) ''GPU'' (map_option lora_name (rq_lora r))
                    (if keys = [] then None else Some keys) group_id]\<rparr>, r)))"

definition cache_full_blocks ::
  "bool \<Rightarrow> ('e list \<Rightarrow> py_bytes) \<Rightarrow> 'e request \<Rightarrow> nat list \<Rightarrow> nat \<Rightarrow> nat \<Rightarrow> int \<Rightarrow> int \<Rightarrow> bool list option \<Rightarrow>
   block_pool \<Rightarrow> (block_pool \<times> 'e request) result" where
  "cache_full_blocks use_int sha r blocks num_cached num_full block_size group_id block_mask p =
     (if num_full \<le> num_cached then Inr (p, r)
      else
        (let new_full = take (num_full - num_cached) (drop num_cached blocks)
         in chain (guard (num_full \<le> length (block_hashes r)) AssertionError) (\<lambda>_.
            chain (guard (\<forall>mask. block_mask = Some mask \<longrightarrow> length mask = length new_full) AssertionError) (\<lambda>_.
            chain (group_hashes p r block_size) (\<lambda>hashes.
            chain (for_each (enumerate 0 new_full) (cache_one use_int (drop num_cached hashes) group_id block_mask) ([], p))
              (\<lambda>(new_hashes, p).
               if enable_kv_cache_events p
               then stored_event use_int sha r blocks num_cached num_full block_size group_id block_mask new_hashes p
               else Inr (p, r)))))))"

definition maybe_evict_cached_block :: "bool \<Rightarrow> nat \<Rightarrow> block_pool \<Rightarrow> bool \<times> block_pool" where
  "maybe_evict_cached_block use_int b p =
     (case kb_hash (bp_blocks p ! b) of
        None \<Rightarrow> (False, p)
      | Some h \<Rightarrow>
          (case bm_pop (bp_cached p) h b of
             (None, m) \<Rightarrow> (False, p\<lparr>bp_cached := m\<rparr>)
           | (Some _, m) \<Rightarrow>
               let p = upd_block b (kb_hash_update (\<lambda>_. None)) (p\<lparr>bp_cached := m\<rparr>)
               in (True,
                   if enable_kv_cache_events p
                   then p\<lparr>kv_event_queue := kv_event_queue p @
                     [Block_removed [maybe_convert_block_hash use_int (get_block_hash h)] ''GPU'' (get_group_id h)]\<rparr>
                   else p)))"

definition new_block :: "bool \<Rightarrow> nat \<Rightarrow> block_pool \<Rightarrow> block_pool result" where
  "new_block use_int b p =
     (let p = (if enable_caching p then snd (maybe_evict_cached_block use_int b p) else p)
      in chain (guard (kb_ref_cnt (bp_blocks p ! b) = 0) AssertionError) (\<lambda>_.
         Inr (upd_block b (kb_ref_cnt_update (\<lambda>r. r + 1)) p)))"

definition get_new_blocks :: "bool \<Rightarrow> nat \<Rightarrow> block_pool \<Rightarrow> (nat list \<times> block_pool) result" where
  "get_new_blocks use_int n p =
     chain (guard (int n \<le> bp_num_free_blocks p) ValueError) (\<lambda>_.
     chain (popleft_ids n (bp_queue p)) (\<lambda>(ret, q).
     chain (for_each ret (new_block use_int) (p\<lparr>bp_queue := q\<rparr>)) (\<lambda>p. Inr (ret, p))))"

definition touch_block :: "nat \<Rightarrow> block_pool \<Rightarrow> block_pool result" where
  "touch_block b p =
     chain (if kb_ref_cnt (bp_blocks p ! b) = 0 \<and> \<not> kb_is_null (bp_blocks p ! b)
            then chain (fq_remove b (bp_queue p)) (\<lambda>q. Inr (p\<lparr>bp_queue := q\<rparr>)) else Inr p)
       (\<lambda>p. Inr (upd_block b (kb_ref_cnt_update (\<lambda>r. r + 1)) p))"

definition bp_touch :: "nat list \<Rightarrow> block_pool \<Rightarrow> block_pool result" where
  "bp_touch blocks p = for_each blocks touch_block p"

definition free_blocks :: "nat list \<Rightarrow> block_pool \<Rightarrow> block_pool result" where
  "free_blocks blocks p =
     (let p = fold (\<lambda>b. upd_block b (kb_ref_cnt_update (\<lambda>r. r - 1))) blocks p
      in chain (append_n (filter (\<lambda>b. kb_ref_cnt (bp_blocks p ! b) = 0 \<and> \<not> kb_is_null (bp_blocks p ! b)) blocks) (bp_queue p))
           (\<lambda>q. Inr (p\<lparr>bp_queue := q\<rparr>)))"

text \<open>The ids are a set in the source; the list is the order its iteration happens to have.\<close>

definition evict_blocks :: "bool \<Rightarrow> nat list \<Rightarrow> block_pool \<Rightarrow> block_pool result" where
  "evict_blocks use_int block_ids p =
     for_each block_ids (\<lambda>b p.
       chain (guard (b < length (bp_blocks p)) AssertionError) (\<lambda>_.
         Inr (snd (maybe_evict_cached_block use_int b p)))) p"

definition reset_prefix_cache :: "block_pool \<Rightarrow> bool \<times> block_pool" where
  "reset_prefix_cache p =
     (if int (num_gpu_blocks p) - bp_num_free_blocks p \<noteq> 1 then (False, p)
      else
        (let p = p\<lparr>bp_cached := [], bp_blocks := map (kb_hash_update (\<lambda>_. None)) (bp_blocks p)\<rparr>
         in (True, if enable_kv_cache_events p
                   then p\<lparr>kv_event_queue := kv_event_queue p @ [All_blocks_cleared]\<rparr> else p)))"

definition bp_take_events :: "block_pool \<Rightarrow> kv_event list \<times> block_pool" where
  "bp_take_events p =
     (if \<not> enable_kv_cache_events p then ([], p) else (kv_event_queue p, p\<lparr>kv_event_queue := []\<rparr>))"

end
