(* ===== verification/Pool_Invariant.thy ===== *)
theory Pool_Invariant
  imports Block_Pool
begin

text \<open>
  What every reachable block pool satisfies: the free queue holds exactly the non-null blocks
  without references, and the prefix cache knows a block under a hash exactly when the block
  carries it.
\<close>

section \<open>The hash map\<close>

definition cached_under :: "block_map \<Rightarrow> py_bytes \<Rightarrow> nat \<Rightarrow> bool" where
  "cached_under m h b \<longleftrightarrow>
     (case map_of m h of None \<Rightarrow> False | Some (One c) \<Rightarrow> b = c | Some (Many cs) \<Rightarrow> b \<in> set cs)"

definition map_inv :: "block_map \<Rightarrow> bool" where
  "map_inv m \<longleftrightarrow> (\<forall>h cs. map_of m h = Some (Many cs) \<longrightarrow> cs \<noteq> [] \<and> distinct cs)"

lemma bm_insert_ok:
  assumes "map_inv m"
  shows "map_inv (bm_insert m h b)"
    "cached_under (bm_insert m h b) h' b' \<longleftrightarrow> h' = h \<and> b' = b \<or> cached_under m h' b'"
proof -
  consider (none) "map_of m h = None" | (one) c where "map_of m h = Some (One c)" | (many) cs where "map_of m h = Some (Many cs)"
    using cached_blocks.exhaust option.exhaust by metis
  then show "map_inv (bm_insert m h b)"
    using assms by cases (auto simp: map_inv_def bm_insert_def od_simps)
  consider (none) "map_of m h = None" | (one) c where "map_of m h = Some (One c)" | (many) cs where "map_of m h = Some (Many cs)"
    using cached_blocks.exhaust option.exhaust by metis
  then show "cached_under (bm_insert m h b) h' b' \<longleftrightarrow> h' = h \<and> b' = b \<or> cached_under m h' b'"
    by cases (auto simp: cached_under_def bm_insert_def od_simps)
qed

lemma bm_pop_ok:
  assumes "map_inv m"
  shows "map_inv (snd (bm_pop m h b))"
    "fst (bm_pop m h b) = (if cached_under m h b then Some b else None)"
    "cached_under (snd (bm_pop m h b)) h' b' \<longleftrightarrow> cached_under m h' b' \<and> \<not> (h' = h \<and> b' = b)"
proof -
  have ds: "remove1 b cs \<noteq> [] \<and> distinct (remove1 b cs) \<or> remove1 b cs = []"
    "set (remove1 b cs) = set cs - {b}" if "map_of m h = Some (Many cs)" for cs
    using assms that by (auto simp: map_inv_def)
  have cases: "P" if "map_of m h = None \<Longrightarrow> P" "\<And>c. map_of m h = Some (One c) \<Longrightarrow> P" "\<And>cs. map_of m h = Some (Many cs) \<Longrightarrow> P" for P
    using that cached_blocks.exhaust option.exhaust by metis
  show "map_inv (snd (bm_pop m h b))"
    by (rule cases) (use assms ds in \<open>auto simp: map_inv_def bm_pop_def od_simps Let_def\<close>)
  show "fst (bm_pop m h b) = (if cached_under m h b then Some b else None)"
    by (rule cases) (auto simp: cached_under_def bm_pop_def Let_def)
  show "cached_under (snd (bm_pop m h b)) h' b' \<longleftrightarrow> cached_under m h' b' \<and> \<not> (h' = h \<and> b' = b)"
  proof (rule cases)
    fix cs
    assume m: "map_of m h = Some (Many cs)"
    show ?thesis
    proof (cases "remove1 b cs = []")
      case True
      then have "set cs \<subseteq> {b}" using ds(2) [OF m] by auto
      then show ?thesis using m True by (auto simp: cached_under_def bm_pop_def od_simps Let_def)
    next
      case False
      then show ?thesis using m ds(2) [OF m] by (auto simp: cached_under_def bm_pop_def od_simps Let_def)
    qed
  qed (auto simp: cached_under_def bm_pop_def od_simps Let_def)
qed

lemma get_one_block_ok:
  assumes "map_inv m"
  shows "get_one_block m h = Inr None \<and> (\<forall>b. \<not> cached_under m h b) \<or>
    (\<exists>b. get_one_block m h = Inr (Some b) \<and> cached_under m h b)"
proof (cases "map_of m h")
  case None
  then show ?thesis by (simp add: get_one_block_def cached_under_def)
next
  case (Some c)
  then show ?thesis
  proof (cases c)
    case (Many cs)
    then have "cs \<noteq> []" using Some assms by (auto simp: map_inv_def)
    then show ?thesis using Some Many by (cases cs) (auto simp: get_one_block_def cached_under_def)
  qed (auto simp: get_one_block_def cached_under_def)
qed

section \<open>The invariant\<close>

abbreviation ref_of :: "block_pool \<Rightarrow> nat \<Rightarrow> int" where
  "ref_of p b \<equiv> kb_ref_cnt (bp_blocks p ! b)"

abbreviation hash_of :: "block_pool \<Rightarrow> nat \<Rightarrow> py_bytes option" where
  "hash_of p b \<equiv> kb_hash (bp_blocks p ! b)"

text \<open>The blocks of \<open>L\<close> have left the queue and have no reference yet.\<close>

definition bp_inv :: "nat set \<Rightarrow> block_pool \<Rightarrow> nat list \<Rightarrow> bool" where
  "bp_inv L p xs \<longleftrightarrow>
     length (bp_blocks p) = num_gpu_blocks p \<and> 0 < num_gpu_blocks p \<and> spells (bp_queue p) xs \<and>
     (\<forall>b < num_gpu_blocks p. kb_is_null (bp_blocks p ! b) \<longleftrightarrow> b = 0) \<and>
     (\<forall>b. b \<in> set xs \<longleftrightarrow> b < num_gpu_blocks p \<and> b \<noteq> 0 \<and> ref_of p b = 0 \<and> b \<notin> L) \<and>
     (\<forall>b < num_gpu_blocks p. b \<noteq> 0 \<longrightarrow> 0 \<le> ref_of p b) \<and>
     map_inv (bp_cached p) \<and> hash_of p 0 = None \<and>
     (\<forall>h b. cached_under (bp_cached p) h b \<longleftrightarrow> b < num_gpu_blocks p \<and> hash_of p b = Some h)"

lemma bp_invD:
  assumes "bp_inv L p xs"
  shows "length (bp_blocks p) = num_gpu_blocks p" "0 < num_gpu_blocks p" "spells (bp_queue p) xs"
    "b < num_gpu_blocks p \<Longrightarrow> kb_is_null (bp_blocks p ! b) \<longleftrightarrow> b = 0"
    "b \<in> set xs \<longleftrightarrow> b < num_gpu_blocks p \<and> b \<noteq> 0 \<and> ref_of p b = 0 \<and> b \<notin> L"
    "b < num_gpu_blocks p \<Longrightarrow> b \<noteq> 0 \<Longrightarrow> 0 \<le> ref_of p b"
    "map_inv (bp_cached p)" "hash_of p 0 = None"
    "cached_under (bp_cached p) h b \<longleftrightarrow> b < num_gpu_blocks p \<and> hash_of p b = Some h"
  using assms unfolding bp_inv_def by blast+

lemma bp_invI:
  assumes "length (bp_blocks p) = num_gpu_blocks p" "0 < num_gpu_blocks p" "spells (bp_queue p) xs"
    "\<And>b. b < num_gpu_blocks p \<Longrightarrow> kb_is_null (bp_blocks p ! b) \<longleftrightarrow> b = 0"
    "\<And>b. b \<in> set xs \<longleftrightarrow> b < num_gpu_blocks p \<and> b \<noteq> 0 \<and> ref_of p b = 0 \<and> b \<notin> L"
    "\<And>b. b < num_gpu_blocks p \<Longrightarrow> b \<noteq> 0 \<Longrightarrow> 0 \<le> ref_of p b"
    "map_inv (bp_cached p)" "hash_of p 0 = None"
    "\<And>h b. cached_under (bp_cached p) h b \<longleftrightarrow> b < num_gpu_blocks p \<and> hash_of p b = Some h"
  shows "bp_inv L p xs"
  using assms unfolding bp_inv_def by blast

lemma bp_inv_events [simp]: "bp_inv L (p\<lparr>kv_event_queue := es\<rparr>) xs = bp_inv L p xs"
  by (simp add: bp_inv_def)

lemma upd_block_simps [simp]:
  "bp_queue (upd_block b f p) = bp_queue p" "bp_cached (upd_block b f p) = bp_cached p"
  "num_gpu_blocks (upd_block b f p) = num_gpu_blocks p" "enable_caching (upd_block b f p) = enable_caching p"
  "length (bp_blocks (upd_block b f p)) = length (bp_blocks p)"
  "hash_block_size (upd_block b f p) = hash_block_size p"
  "enable_kv_cache_events (upd_block b f p) = enable_kv_cache_events p"
  by (simp_all add: upd_block_def)

lemma upd_block_nth:
  "b < length (bp_blocks p) \<Longrightarrow> bp_blocks (upd_block b f p) ! c = (if c = b then f (bp_blocks p ! b) else bp_blocks p ! c)"
  by (simp add: upd_block_def nth_list_update)

definition same_but :: "nat set \<Rightarrow> block_pool \<Rightarrow> block_pool \<Rightarrow> bool" where
  "same_but B p p' \<longleftrightarrow>
     num_gpu_blocks p' = num_gpu_blocks p \<and> enable_caching p' = enable_caching p \<and>
     hash_block_size p' = hash_block_size p \<and> enable_kv_cache_events p' = enable_kv_cache_events p \<and>
     (\<forall>c. c \<notin> B \<longrightarrow> bp_blocks p' ! c = bp_blocks p ! c)"

lemma same_but_events [simp]: "same_but B p (q\<lparr>kv_event_queue := es\<rparr>) = same_but B p q"
  by (simp add: same_but_def)

lemma maybe_evict_ok:
  fixes use_int :: bool
  assumes "bp_inv L p xs" "b < num_gpu_blocks p"
  defines "p' \<equiv> snd (maybe_evict_cached_block use_int b p)"
  shows "bp_inv L p' xs" "hash_of p' b = None" "ref_of p' b = ref_of p b" "same_but {b} p p'"
    "bp_queue p' = bp_queue p"
proof -
  have "bp_inv L p' xs \<and> hash_of p' b = None \<and> ref_of p' b = ref_of p b \<and> same_but {b} p p' \<and> bp_queue p' = bp_queue p"
  proof (cases "hash_of p b")
    case None
    then show ?thesis using assms by (simp add: p'_def maybe_evict_cached_block_def same_but_def)
  next
    case (Some h)
    have len: "b < length (bp_blocks p)" using assms by (simp add: bp_inv_def)
    have mi: "map_inv (bp_cached p)" and cu: "cached_under (bp_cached p) h b"
      using assms Some by (auto simp: bp_inv_def)
    define m where "m = snd (bm_pop (bp_cached p) h b)"
    have m: "bm_pop (bp_cached p) h b = (Some b, m)" "map_inv m"
      "\<And>h' b'. cached_under m h' b' \<longleftrightarrow> cached_under (bp_cached p) h' b' \<and> \<not> (h' = h \<and> b' = b)"
      using bm_pop_ok [OF mi] cu by (simp_all add: m_def prod_eq_iff)
    define q where "q = upd_block b (kb_hash_update (\<lambda>_. None)) (p\<lparr>bp_cached := m\<rparr>)"
    have q: "bp_blocks q ! c = (if c = b then (bp_blocks p ! b)\<lparr>kb_hash := None\<rparr> else bp_blocks p ! c)" for c
      using len by (simp add: q_def upd_block_nth)
    have "p' = q \<or> p' = q\<lparr>kv_event_queue := kv_event_queue q @
        [Block_removed [maybe_convert_block_hash use_int (get_block_hash h)] ''GPU'' (get_group_id h)]\<rparr>"
      by (simp add: p'_def maybe_evict_cached_block_def Some m(1) q_def Let_def)
    moreover have "bp_inv L q xs"
    proof (rule bp_invI)
      fix c h'
      note I = bp_invD [OF assms(1)]
      have nq: "num_gpu_blocks q = num_gpu_blocks p" "bp_queue q = bp_queue p" "bp_cached q = m" by (simp_all add: q_def)
      show "length (bp_blocks q) = num_gpu_blocks q" "0 < num_gpu_blocks q" using I(1,2) by (simp_all add: q_def)
      show "spells (bp_queue q) xs" "map_inv (bp_cached q)" "hash_of q 0 = None" using I(3,8) m(2) by (simp_all add: nq q)
      show "c \<in> set xs \<longleftrightarrow> c < num_gpu_blocks q \<and> c \<noteq> 0 \<and> ref_of q c = 0 \<and> c \<notin> L" using I(5) [of c] by (auto simp: nq q)
      show "c < num_gpu_blocks q \<Longrightarrow> kb_is_null (bp_blocks q ! c) \<longleftrightarrow> c = 0" using I(4) [of c] by (auto simp: nq q)
      show "c < num_gpu_blocks q \<Longrightarrow> c \<noteq> 0 \<Longrightarrow> 0 \<le> ref_of q c" using I(6) [of c] by (auto simp: nq q)
      show "cached_under (bp_cached q) h' c \<longleftrightarrow> c < num_gpu_blocks q \<and> hash_of q c = Some h'"
        using I(9) [of h' c] Some by (auto simp: nq q m(3))
    qed
    moreover have "same_but {b} p q" "bp_queue q = bp_queue p" using q by (auto simp: same_but_def q_def)
    ultimately show ?thesis using q [of b] by (elim disjE) simp_all
  qed
  then show "bp_inv L p' xs" "hash_of p' b = None" "ref_of p' b = ref_of p b" "same_but {b} p p'"
    "bp_queue p' = bp_queue p" by blast+
qed

section \<open>The operations\<close>

lemma same_but_trans: "same_but B p q \<Longrightarrow> same_but C q r \<Longrightarrow> same_but (B \<union> C) p r"
  by (auto simp: same_but_def)

lemma bp_inv_ref:
  assumes inv: "bp_inv L p xs" and b: "b < num_gpu_blocks p" "b \<noteq> 0 \<Longrightarrow> 0 \<le> v"
    and p': "num_gpu_blocks p' = num_gpu_blocks p" "bp_cached p' = bp_cached p" "length (bp_blocks p') = length (bp_blocks p)"
      "\<And>c. bp_blocks p' ! c = (if c = b then (bp_blocks p ! b)\<lparr>kb_ref_cnt := v\<rparr> else bp_blocks p ! c)"
    and "spells (bp_queue p') ys"
    and ys: "\<And>c. c \<in> set ys \<longleftrightarrow> c < num_gpu_blocks p \<and> c \<noteq> 0 \<and> (if c = b then v else ref_of p c) = 0 \<and> c \<notin> L'"
  shows "bp_inv L' p' ys"
proof (rule bp_invI)
  fix c h
  note I = bp_invD [OF inv]
  show "length (bp_blocks p') = num_gpu_blocks p'" "0 < num_gpu_blocks p'" "map_inv (bp_cached p')" "hash_of p' 0 = None"
    using I(1,2,7,8) p' by simp_all
  show "c \<in> set ys \<longleftrightarrow> c < num_gpu_blocks p' \<and> c \<noteq> 0 \<and> ref_of p' c = 0 \<and> c \<notin> L'" using ys [of c] p' by auto
  show "c < num_gpu_blocks p' \<Longrightarrow> kb_is_null (bp_blocks p' ! c) \<longleftrightarrow> c = 0" using I(4) [of c] p' by auto
  show "c < num_gpu_blocks p' \<Longrightarrow> c \<noteq> 0 \<Longrightarrow> 0 \<le> ref_of p' c" using I(6) [of c] p' b(2) by auto
  show "cached_under (bp_cached p') h c \<longleftrightarrow> c < num_gpu_blocks p' \<and> hash_of p' c = Some h"
    using I(9) [of h c] p' by auto
qed (use assms in simp)

lemma new_block_ok:
  assumes inv: "bp_inv (insert b L) p xs" and b: "b \<notin> L" "b \<noteq> 0" "b < num_gpu_blocks p" "ref_of p b = 0"
  shows "\<exists>p'. new_block use_int b p = Inr p' \<and> bp_inv L p' xs \<and> ref_of p' b = 1 \<and>
    (enable_caching p \<longrightarrow> hash_of p' b = None) \<and> same_but {b} p p'"
proof -
  define q where "q = (if enable_caching p then snd (maybe_evict_cached_block use_int b p) else p)"
  note E = maybe_evict_ok [OF inv b(3), of use_int]
  have q: "bp_inv (insert b L) q xs" "ref_of q b = 0" "same_but {b} p q" "enable_caching p \<Longrightarrow> hash_of q b = None"
    using E inv b(4) by (auto simp: q_def same_but_def)
  define p' where "p' = upd_block b (kb_ref_cnt_update (\<lambda>r. r + 1)) q"
  have nq: "num_gpu_blocks q = num_gpu_blocks p" using q(3) by (simp add: same_but_def)
  have len: "b < length (bp_blocks q)" using q(1) nq b(3) by (simp add: bp_inv_def)
  have p': "bp_blocks p' ! c = (if c = b then (bp_blocks q ! b)\<lparr>kb_ref_cnt := ref_of q b + 1\<rparr> else bp_blocks q ! c)" for c
    using len by (simp add: p'_def upd_block_nth)
  have "new_block use_int b p = Inr p'" using q(2) by (simp add: new_block_def q_def [symmetric] p'_def Let_def)
  moreover have "bp_inv L p' xs"
  proof (rule bp_inv_ref [OF q(1), of b 1])
    show "c \<in> set xs \<longleftrightarrow> c < num_gpu_blocks q \<and> c \<noteq> 0 \<and> (if c = b then 1 else ref_of q c) = 0 \<and> c \<notin> L" for c
      using bp_invD(5) [OF q(1), of c] by auto
  qed (use b nq q(2) p' bp_invD(3) [OF q(1)] in \<open>simp_all add: p'_def\<close>)
  moreover have "ref_of p' b = 1" "enable_caching p \<longrightarrow> hash_of p' b = None" using q(2,4) by (simp_all add: p')
  moreover have "same_but {b} p p'" using q(3) p' by (auto simp: same_but_def p'_def)
  ultimately show ?thesis by blast
qed

lemma new_blocks_ok:
  assumes "bp_inv (L \<union> set bs) p xs" "distinct bs" "set bs \<inter> L = {}"
    and "\<forall>b \<in> set bs. b \<noteq> 0 \<and> b < num_gpu_blocks p \<and> ref_of p b = 0"
  shows "\<exists>p'. for_each bs (new_block use_int) p = Inr p' \<and> bp_inv L p' xs \<and> same_but (set bs) p p' \<and>
    (\<forall>b \<in> set bs. ref_of p' b = 1 \<and> (enable_caching p \<longrightarrow> hash_of p' b = None))"
  using assms
proof (induction bs arbitrary: p)
  case (Cons b bs)
  have "bp_inv (insert b (L \<union> set bs)) p xs" "b \<notin> L \<union> set bs" "b \<noteq> 0" "b < num_gpu_blocks p" "ref_of p b = 0"
    using Cons.prems by auto
  from new_block_ok [OF this] obtain q where q: "new_block use_int b p = Inr q" "bp_inv (L \<union> set bs) q xs"
      "ref_of q b = 1" "enable_caching p \<longrightarrow> hash_of q b = None" "same_but {b} p q" by blast
  have "\<forall>c \<in> set bs. c \<noteq> 0 \<and> c < num_gpu_blocks q \<and> ref_of q c = 0"
    using Cons.prems(2,4) q(5) by (auto simp: same_but_def)
  from Cons.IH [OF q(2) _ _ this] Cons.prems(2,3) obtain p'
    where p': "for_each bs (new_block use_int) q = Inr p'" "bp_inv L p' xs" "same_but (set bs) q p'"
      "\<forall>b \<in> set bs. ref_of p' b = 1 \<and> (enable_caching q \<longrightarrow> hash_of p' b = None)" by auto
  have "bp_blocks p' ! b = bp_blocks q ! b" "enable_caching q = enable_caching p"
    using p'(3) q(5) Cons.prems(2) by (auto simp: same_but_def)
  then show ?case
    using q(1,3,4) p' same_but_trans [OF q(5) p'(3)] by auto
qed (simp add: same_but_def)

text \<open>Taking blocks off the queue, before their references are counted.\<close>

lemma take_off_queue:
  assumes inv: "bp_inv {} p xs" and n: "n \<le> length xs"
  shows "\<exists>q. popleft_ids n (bp_queue p) = Inr (take n xs, q) \<and> bp_inv (set (take n xs)) (p\<lparr>bp_queue := q\<rparr>) (drop n xs)"
proof -
  have s: "spells (bp_queue p) xs" "distinct xs" using inv by (auto simp: bp_inv_def spells_def)
  from spells_popleft_ids [OF s(1) n] obtain q
    where q: "popleft_ids n (bp_queue p) = Inr (take n xs, q)" "spells q (drop n xs)" by blast
  let ?p = "p\<lparr>bp_queue := q\<rparr>"
  have "set (take n xs) \<inter> set (drop n xs) = {}" "set (take n xs) \<union> set (drop n xs) = set xs"
    using s(2) by (simp add: set_take_disj_set_drop_if_distinct, metis append_take_drop_id set_append)
  then have dr: "b \<in> set (drop n xs) \<longleftrightarrow> b \<in> set xs \<and> b \<notin> set (take n xs)" for b by blast
  have "bp_inv (set (take n xs)) ?p (drop n xs)"
  proof (rule bp_invI)
    show "b \<in> set (drop n xs) \<longleftrightarrow> b < num_gpu_blocks ?p \<and> b \<noteq> 0 \<and> ref_of ?p b = 0 \<and> b \<notin> set (take n xs)" for b
      using bp_invD(5) [OF inv, of b] dr [of b] by auto
  qed (use q(2) bp_invD [OF inv] in simp_all)
  then show ?thesis using q(1) by blast
qed

lemma get_new_blocks_ok:
  assumes inv: "bp_inv {} p xs" and n: "n \<le> length xs"
  shows "\<exists>p'. get_new_blocks use_int n p = Inr (take n xs, p') \<and> bp_inv {} p' (drop n xs) \<and>
    same_but (set (take n xs)) p p' \<and>
    (\<forall>b \<in> set (take n xs). ref_of p' b = 1 \<and> (enable_caching p \<longrightarrow> hash_of p' b = None))"
proof -
  have s: "spells (bp_queue p) xs" "distinct xs" using inv by (auto simp: bp_inv_def spells_def)
  from take_off_queue [OF inv n] obtain q where q: "popleft_ids n (bp_queue p) = Inr (take n xs, q)"
      "bp_inv ({} \<union> set (take n xs)) (p\<lparr>bp_queue := q\<rparr>) (drop n xs)" by auto
  let ?p = "p\<lparr>bp_queue := q\<rparr>"
  have "\<forall>b \<in> set (take n xs). b \<noteq> 0 \<and> b < num_gpu_blocks ?p \<and> ref_of ?p b = 0"
    using bp_invD(5) [OF inv] set_take_subset [of n xs] by auto
  from new_blocks_ok [OF q(2) _ _ this, of use_int] obtain p'
    where p': "for_each (take n xs) (new_block use_int) ?p = Inr p'" "bp_inv {} p' (drop n xs)"
      "same_but (set (take n xs)) ?p p'"
      "\<forall>b \<in> set (take n xs). ref_of p' b = 1 \<and> (enable_caching p \<longrightarrow> hash_of p' b = None)"
    using s(2) by auto
  have "int n \<le> bp_num_free_blocks p" using n s(1) by (simp add: bp_num_free_blocks_def spells_def)
  then show ?thesis using q(1) p' by (auto simp: get_new_blocks_def same_but_def)
qed

lemma touch_block_ok:
  assumes inv: "bp_inv {} p xs" and b: "b < num_gpu_blocks p"
  shows "\<exists>p'. touch_block b p = Inr p' \<and> bp_inv {} p' (remove1 b xs) \<and> same_but {b} p p' \<and>
    bp_blocks p' ! b = (bp_blocks p ! b)\<lparr>kb_ref_cnt := ref_of p b + 1\<rparr>"
proof -
  have s: "spells (bp_queue p) xs" "distinct xs" and len: "b < length (bp_blocks p)"
    using inv b by (auto simp: bp_inv_def spells_def)
  have mem: "kb_ref_cnt (bp_blocks p ! b) = 0 \<and> \<not> kb_is_null (bp_blocks p ! b) \<longleftrightarrow> b \<in> set xs"
    using inv b by (auto simp: bp_inv_def)
  have pos: "b \<noteq> 0 \<Longrightarrow> 0 \<le> ref_of p b" using inv b by (auto simp: bp_inv_def)
  obtain q where q: "(if kb_ref_cnt (bp_blocks p ! b) = 0 \<and> \<not> kb_is_null (bp_blocks p ! b)
        then chain (fq_remove b (bp_queue p)) (\<lambda>q. Inr (p\<lparr>bp_queue := q\<rparr>)) else Inr p) = Inr (p\<lparr>bp_queue := q\<rparr>)"
      "spells q (remove1 b xs)"
  proof (cases "b \<in> set xs")
    case True
    then show ?thesis using fq.rem_ok [OF s(1) True] that mem by auto
  next
    case False
    then show ?thesis using that [of "bp_queue p"] s(1) mem by (simp add: remove1_idem)
  qed
  define p' where "p' = upd_block b (kb_ref_cnt_update (\<lambda>r. r + 1)) (p\<lparr>bp_queue := q\<rparr>)"
  have p': "bp_blocks p' ! c = (if c = b then (bp_blocks p ! b)\<lparr>kb_ref_cnt := ref_of p b + 1\<rparr> else bp_blocks p ! c)" for c
    using len by (simp add: p'_def upd_block_nth)
  have "touch_block b p = Inr p'" unfolding touch_block_def q(1) by (simp add: p'_def)
  moreover have "bp_inv {} p' (remove1 b xs)"
  proof (rule bp_inv_ref [OF inv b])
    show "c \<in> set (remove1 b xs) \<longleftrightarrow>
        c < num_gpu_blocks p \<and> c \<noteq> 0 \<and> (if c = b then ref_of p b + 1 else ref_of p c) = 0 \<and> c \<notin> {}" for c
      using bp_invD(5) [OF inv, of c] s(2) pos by auto
  qed (use q(2) pos p' in \<open>simp_all add: p'_def\<close>)
  moreover have "same_but {b} p p'" using p' by (auto simp: same_but_def p'_def)
  ultimately show ?thesis using p' by auto
qed

lemma fold_decr:
  assumes "\<forall>b \<in> set bs. b < length (bp_blocks p)"
  defines "p' \<equiv> fold (\<lambda>b. upd_block b (kb_ref_cnt_update (\<lambda>r. r - 1))) bs p"
  shows "bp_blocks p' ! c = (bp_blocks p ! c)\<lparr>kb_ref_cnt := ref_of p c - int (count_list bs c)\<rparr> \<and>
    length (bp_blocks p') = length (bp_blocks p) \<and> p' = p\<lparr>bp_blocks := bp_blocks p'\<rparr>"
  using assms(1) unfolding p'_def
proof (induction bs arbitrary: p)
  case (Cons b bs)
  let ?q = "upd_block b (kb_ref_cnt_update (\<lambda>r. r - 1)) p"
  have q: "bp_blocks ?q ! c = (if c = b then (bp_blocks p ! b)\<lparr>kb_ref_cnt := ref_of p b - 1\<rparr> else bp_blocks p ! c)"
    using Cons.prems by (simp add: upd_block_nth)
  have "?q\<lparr>bp_blocks := x\<rparr> = p\<lparr>bp_blocks := x\<rparr>" for x by (simp add: upd_block_def)
  then show ?case using Cons.IH [of ?q] Cons.prems q by (simp add: algebra_simps)
qed simp

lemma count_list_distinct:
  "distinct (filter (\<lambda>x. x \<noteq> 0) bs) \<Longrightarrow> b \<noteq> (0 :: nat) \<Longrightarrow> count_list bs b = (if b \<in> set bs then 1 else 0)"
  by (induction bs) (auto split: if_splits)

lemma free_blocks_ok:
  assumes inv: "bp_inv {} p xs" and bs: "\<forall>b \<in> set bs. b < num_gpu_blocks p" "distinct (filter (\<lambda>b. b \<noteq> 0) bs)"
    and refs: "\<forall>b \<in> set bs. b \<noteq> 0 \<longrightarrow> 1 \<le> ref_of p b"
  shows "\<exists>p'. free_blocks bs p = Inr p' \<and>
    bp_inv {} p' (xs @ filter (\<lambda>b. b \<noteq> 0 \<and> ref_of p b = 1) bs) \<and> same_but (set bs) p p' \<and>
    (\<forall>b \<in> set bs. b \<noteq> 0 \<longrightarrow> bp_blocks p' ! b = (bp_blocks p ! b)\<lparr>kb_ref_cnt := ref_of p b - 1\<rparr>)"
proof -
  note I = bp_invD [OF inv]
  define u where "u = fold (\<lambda>b. upd_block b (kb_ref_cnt_update (\<lambda>r. r - 1))) bs p"
  have lens: "\<forall>b \<in> set bs. b < length (bp_blocks p)" using bs(1) I(1) by simp
  have u: "bp_blocks u ! c = (bp_blocks p ! c)\<lparr>kb_ref_cnt := ref_of p c - int (count_list bs c)\<rparr>"
    "length (bp_blocks u) = length (bp_blocks p)" "u = p\<lparr>bp_blocks := bp_blocks u\<rparr>" for c
    using fold_decr [OF lens] unfolding u_def by blast+
  have ru: "ref_of u c = (if c \<in> set bs then ref_of p c - 1 else ref_of p c)" if "c \<noteq> 0" for c
    using count_list_distinct [OF bs(2) that] by (simp add: u(1))
  have uf: "num_gpu_blocks u = num_gpu_blocks p" "bp_queue u = bp_queue p" "bp_cached u = bp_cached p"
    "enable_caching u = enable_caching p" "hash_block_size u = hash_block_size p"
    "enable_kv_cache_events u = enable_kv_cache_events p"
    by (subst u(3), simp)+
  let ?F = "filter (\<lambda>b. b \<noteq> 0 \<and> ref_of p b = 1) bs"
  have F: "filter (\<lambda>b. kb_ref_cnt (bp_blocks u ! b) = 0 \<and> \<not> kb_is_null (bp_blocks u ! b)) bs = ?F"
  proof (rule filter_cong)
    fix b
    assume b: "b \<in> set bs"
    have "kb_is_null (bp_blocks u ! b) \<longleftrightarrow> b = 0" using I(4) [of b] bs(1) b by (simp add: u(1))
    then show "(kb_ref_cnt (bp_blocks u ! b) = 0 \<and> \<not> kb_is_null (bp_blocks u ! b)) = (b \<noteq> 0 \<and> ref_of p b = 1)"
      using ru [of b] b by auto
  qed simp
  have "distinct (filter (\<lambda>b. ref_of p b = 1) (filter (\<lambda>b. b \<noteq> 0) bs))" by (rule distinct_filter) (rule bs(2))
  then have "distinct ?F" unfolding filter_filter .
  moreover have "b \<notin> set ?F" if "b \<in> set xs" for b using I(5) [of b] that by simp
  then have "set xs \<inter> set ?F = {}" by blast
  moreover have "distinct xs" using I(3) by (simp add: spells_def)
  ultimately have "distinct (xs @ ?F)" by simp
  from spells_append_n [OF I(3) this] obtain q where q: "append_n ?F (bp_queue p) = Inr q" "spells q (xs @ ?F)" by blast
  let ?p' = "u\<lparr>bp_queue := q\<rparr>"
  have "free_blocks bs p = Inr ?p'"
    unfolding free_blocks_def Let_def u_def [symmetric] F uf(2) q(1) by simp
  moreover have "bp_inv {} ?p' (xs @ ?F)"
  proof (rule bp_invI)
    fix c h
    show "c \<in> set (xs @ ?F) \<longleftrightarrow> c < num_gpu_blocks ?p' \<and> c \<noteq> 0 \<and> ref_of ?p' c = 0 \<and> c \<notin> {}"
      using I(5) [of c] ru [of c] bs(1) refs by (cases "c = 0") (auto simp: uf)
    show "c < num_gpu_blocks ?p' \<Longrightarrow> c \<noteq> 0 \<Longrightarrow> 0 \<le> ref_of ?p' c"
      using I(6) [of c] ru [of c] refs by (auto simp: uf)
  qed (use I(1,2,4,7-9) q(2) in \<open>simp_all add: uf u(1,2)\<close>)
  moreover have "same_but (set bs) p ?p'"
    using u(1) count_list_0_iff [of bs] by (auto simp: same_but_def uf)
  moreover have "bp_blocks ?p' ! b = (bp_blocks p ! b)\<lparr>kb_ref_cnt := ref_of p b - 1\<rparr>" if "b \<in> set bs" "b \<noteq> 0" for b
    using that count_list_distinct [OF bs(2) that(2)] by (simp add: u(1))
  ultimately show ?thesis by blast
qed

lemma cache_one_ok:
  assumes inv: "bp_inv L p xs" and b: "b < num_gpu_blocks p"
    and run: "cache_one use_int hashes g bmask (i, b) (hs, p) = Inr (hs', p')"
  shows "bp_inv L p' xs \<and> ref_of p' b = ref_of p b \<and> same_but {b} p p' \<and>
    (\<forall>h. hash_of p b = Some h \<longrightarrow> hash_of p' b = Some h)"
proof (cases "kb_is_null (bp_blocks p ! b) \<or> (\<exists>m. bmask = Some m \<and> \<not> m ! i)")
  case True
  then show ?thesis using inv run by (auto simp: cache_one_def same_but_def)
next
  case False
  note I = bp_invD [OF inv]
  from False run obtain bh key where key: "hash_of p b = None" "make_block_hash_with_group_id bh g = Inr key"
      "p' = (upd_block b (kb_hash_update (\<lambda>_. Some key)) p)\<lparr>bp_cached := bm_insert (bp_cached p) key b\<rparr>"
    unfolding cache_one_def prod.case if_not_P [OF False] by auto
  have p': "bp_blocks p' ! c = (if c = b then (bp_blocks p ! b)\<lparr>kb_hash := Some key\<rparr> else bp_blocks p ! c)" for c
    using b I(1) by (simp add: key(3) upd_block_nth)
  have f: "num_gpu_blocks p' = num_gpu_blocks p" "bp_queue p' = bp_queue p" "bp_cached p' = bm_insert (bp_cached p) key b"
    "length (bp_blocks p') = length (bp_blocks p)" by (simp_all add: key(3))
  have nz: "b \<noteq> 0" using False I(4) [OF b] by simp
  have "bp_inv L p' xs"
  proof (rule bp_invI)
    fix c h
    show "c \<in> set xs \<longleftrightarrow> c < num_gpu_blocks p' \<and> c \<noteq> 0 \<and> ref_of p' c = 0 \<and> c \<notin> L" using I(5) [of c] by (auto simp: f p')
    show "c < num_gpu_blocks p' \<Longrightarrow> kb_is_null (bp_blocks p' ! c) \<longleftrightarrow> c = 0" using I(4) [of c] by (auto simp: f p')
    show "c < num_gpu_blocks p' \<Longrightarrow> c \<noteq> 0 \<Longrightarrow> 0 \<le> ref_of p' c" using I(6) [of c] by (auto simp: f p')
    show "cached_under (bp_cached p') h c \<longleftrightarrow> c < num_gpu_blocks p' \<and> hash_of p' c = Some h"
      using I(9) [of h c] b key(1) by (auto simp: f p' bm_insert_ok(2) [OF I(7)])
  qed (use I nz in \<open>simp_all add: f p' bm_insert_ok(1)\<close>)
  then show ?thesis using p' key(1) by (auto simp: same_but_def key(3))
qed

end
