(* ===== verification/Pool_Steps.thy ===== *)
theory Pool_Steps
  imports Pool_Invariant "HOL-Library.Multiset"
begin

text \<open>
  Runs of the block pool together with the blocks its clients hold: the multiset counts one
  occurrence for every allocation or touch that has not been freed yet. Every operation of
  \<^verbatim>\<open>v1/core/block_pool.py\<close> is a step; the only contract on the clients is that they
  free blocks they hold, each once per call.
\<close>

section \<open>The remaining operations keep the invariant\<close>

lemma bp_init_ok:
  assumes "bp_init n caching hsize events = Inr p"
  shows "bp_inv {} p [1 ..< n]" "num_gpu_blocks p = n" "b < n \<Longrightarrow> ref_of p b = 0"
    "enable_caching p = caching" "bp_cached p = []" "enable_kv_cache_events p = events" "hash_block_size p = hsize"
proof -
  have n: "0 < n" "[0 ..< n] = 0 # [1 ..< n]" using assms by (auto simp: bp_init_def upt_rec)
  have "spells (fq_init [0 ..< n]) (0 # [1 ..< n])" using spells_init [of "[0 ..< n]"] n(2) by simp
  from spells_popleft(1) [OF this] obtain q where q: "popleft (fq_init [0 ..< n]) = Inr (0, q)" "spells q [1 ..< n]" by blast
  let ?B = "\<lparr>kb_ref_cnt = 0, kb_hash = None, kb_is_null = False\<rparr>"
  have p: "p = upd_block 0 (kb_is_null_update (\<lambda>_. True))
       \<lparr>num_gpu_blocks = n, enable_caching = caching, hash_block_size = hsize, bp_blocks = replicate n ?B,
        bp_queue = q, bp_cached = [], null_block = 0, enable_kv_cache_events = events, kv_event_queue = []\<rparr>"
    using assms n(1) q(1) by (simp add: bp_init_def)
  have nth: "b < n \<Longrightarrow> bp_blocks p ! b = (if b = 0 then ?B\<lparr>kb_is_null := True\<rparr> else ?B)" for b
    using n(1) unfolding p by (simp add: upd_block_nth)
  have f: "num_gpu_blocks p = n" "bp_queue p = q" "bp_cached p = []" "length (bp_blocks p) = n" "enable_caching p = caching"
    by (simp_all add: p)
  show "bp_inv {} p [1 ..< n]"
    by (rule bp_invI) (use n(1) q(2) in \<open>auto simp: f nth map_inv_def cached_under_def\<close>)
  show "num_gpu_blocks p = n" "enable_caching p = caching" "bp_cached p = []" by (fact f)+
  show "enable_kv_cache_events p = events" "hash_block_size p = hsize" by (simp_all add: p)
  show "ref_of p b = 0" if "b < n" using nth [OF that] by simp
qed

lemma evict_blocks_ok:
  assumes "bp_inv L p xs" "evict_blocks use_int ids p = Inr p'"
  shows "bp_inv L p' xs \<and> num_gpu_blocks p' = num_gpu_blocks p \<and> (\<forall>b. ref_of p' b = ref_of p b)"
  using assms unfolding evict_blocks_def
proof (rule_tac for_each_inv [where P = "\<lambda>q. bp_inv L q xs \<and> num_gpu_blocks q = num_gpu_blocks p \<and> (\<forall>b. ref_of q b = ref_of p b)"])
  fix b q q'
  assume q: "bp_inv L q xs \<and> num_gpu_blocks q = num_gpu_blocks p \<and> (\<forall>b. ref_of q b = ref_of p b)"
    and "chain (guard (b < length (bp_blocks q)) AssertionError) (\<lambda>_. Inr (snd (maybe_evict_cached_block use_int b q))) = Inr q'"
  then have b: "b < num_gpu_blocks q" and q': "q' = snd (maybe_evict_cached_block use_int b q)"
    by (auto simp: bp_inv_def)
  note E = maybe_evict_ok [OF conjunct1 [OF q] b, of use_int, folded q']
  have "ref_of q' c = ref_of q c" for c using E(3,4) by (cases "c = b") (auto simp: same_but_def)
  then show "bp_inv L q' xs \<and> num_gpu_blocks q' = num_gpu_blocks p \<and> (\<forall>b. ref_of q' b = ref_of p b)"
    using E(1,4) q by (auto simp: same_but_def)
qed auto

lemma reset_ok:
  assumes "bp_inv {} p xs"
  shows "bp_inv {} (snd (reset_prefix_cache p)) xs \<and> num_gpu_blocks (snd (reset_prefix_cache p)) = num_gpu_blocks p \<and>
    (\<forall>b < num_gpu_blocks p. ref_of (snd (reset_prefix_cache p)) b = ref_of p b)"
proof -
  note I = bp_invD [OF assms]
  let ?q = "p\<lparr>bp_cached := [], bp_blocks := map (kb_hash_update (\<lambda>_. None)) (bp_blocks p)\<rparr>"
  have nth: "b < num_gpu_blocks p \<Longrightarrow> bp_blocks ?q ! b = (bp_blocks p ! b)\<lparr>kb_hash := None\<rparr>" for b
    using I(1) by simp
  have "bp_inv {} ?q xs"
  proof (rule bp_invI)
    show "c \<in> set xs \<longleftrightarrow> c < num_gpu_blocks ?q \<and> c \<noteq> 0 \<and> ref_of ?q c = 0 \<and> c \<notin> {}" for c
      using I(5) [of c] nth [of c] by auto
  qed (use I nth in \<open>auto simp: map_inv_def cached_under_def\<close>)
  then show ?thesis using assms nth by (simp add: reset_prefix_cache_def Let_def)
qed

lemma touch_ok:
  assumes "bp_inv {} p xs" "\<forall>b \<in> set bs. b < num_gpu_blocks p"
  shows "\<exists>p'. bp_touch bs p = Inr p' \<and> bp_inv {} p' (fold remove1 bs xs) \<and> num_gpu_blocks p' = num_gpu_blocks p \<and>
    (\<forall>b. bp_blocks p' ! b = (bp_blocks p ! b)\<lparr>kb_ref_cnt := ref_of p b + int (count_list bs b)\<rparr>)"
  using assms
proof (induction bs arbitrary: p xs)
  case Nil
  then show ?case by (simp add: bp_touch_def)
next
  case (Cons b bs)
  from touch_block_ok [OF Cons.prems(1), of b] Cons.prems(2) obtain q
    where q: "touch_block b p = Inr q" "bp_inv {} q (remove1 b xs)" "same_but {b} p q"
      "bp_blocks q ! b = (bp_blocks p ! b)\<lparr>kb_ref_cnt := ref_of p b + 1\<rparr>" by auto
  have n: "num_gpu_blocks q = num_gpu_blocks p" using q(3) by (simp add: same_but_def)
  from Cons.IH [OF q(2)] Cons.prems(2) n obtain p' where p': "bp_touch bs q = Inr p'"
      "bp_inv {} p' (fold remove1 bs (remove1 b xs))" "num_gpu_blocks p' = num_gpu_blocks p"
      "\<forall>c. bp_blocks p' ! c = (bp_blocks q ! c)\<lparr>kb_ref_cnt := ref_of q c + int (count_list bs c)\<rparr>" by auto
  have "bp_blocks p' ! c = (bp_blocks p ! c)\<lparr>kb_ref_cnt := ref_of p c + int (count_list (b # bs) c)\<rparr>" for c
    using p'(4) q(3,4) by (cases "c = b") (auto simp: same_but_def)
  then show ?case using q(1) p'(1,2,3) by (simp add: bp_touch_def)
qed

lemma stored_event_frame:
  assumes "stored_event use_int sha r blocks nc nf bsize g bmask hs p = Inr (p', r')"
  shows "\<exists>es. p' = p\<lparr>kv_event_queue := es\<rparr>"
  using assms unfolding stored_event_def by auto

lemma cache_loop_ok:
  assumes "bp_inv {} p xs" "\<forall>b \<in> set bs. b < num_gpu_blocks p"
    and "for_each (enumerate k bs) (cache_one use_int hashes g bmask) (hs, p) = Inr (hs', p')"
  shows "bp_inv {} p' xs \<and> num_gpu_blocks p' = num_gpu_blocks p \<and> (\<forall>b. ref_of p' b = ref_of p b) \<and>
    (\<forall>b h. hash_of p b = Some h \<longrightarrow> hash_of p' b = Some h)"
  using assms
proof (induction bs arbitrary: k hs p)
  case (Cons b bs)
  then obtain hs1 q where q: "cache_one use_int hashes g bmask (k, b) (hs, p) = Inr (hs1, q)"
      "for_each (enumerate (Suc k) bs) (cache_one use_int hashes g bmask) (hs1, q) = Inr (hs', p')" by auto
  from cache_one_ok [OF Cons.prems(1) _ q(1)] Cons.prems(2)
  have c: "bp_inv {} q xs" "ref_of q b = ref_of p b" "same_but {b} p q" "\<forall>h. hash_of p b = Some h \<longrightarrow> hash_of q b = Some h" by auto
  have "ref_of q c = ref_of p c" "hash_of p c = Some h \<longrightarrow> hash_of q c = Some h" for c h
    using c(2-4) by (cases "c = b"; auto simp: same_but_def)+
  moreover have "num_gpu_blocks q = num_gpu_blocks p" using c(3) by (simp add: same_but_def)
  ultimately show ?case using Cons.IH [OF c(1) _ q(2)] Cons.prems(2) by auto
qed simp

lemma cache_full_ok:
  assumes "bp_inv {} p xs" "\<forall>b \<in> set blocks. b < num_gpu_blocks p"
    and "cache_full_blocks use_int sha r blocks nc nf bsize g bmask p = Inr (p', r')"
  shows "bp_inv {} p' xs \<and> num_gpu_blocks p' = num_gpu_blocks p \<and> (\<forall>b. ref_of p' b = ref_of p b)"
proof (cases "nf \<le> nc")
  case True
  then show ?thesis using assms by (simp add: cache_full_blocks_def)
next
  case False
  let ?bs = "take (nf - nc) (drop nc blocks)"
  from assms(3) False obtain hashes hs q where
    q: "for_each (enumerate 0 ?bs) (cache_one use_int (drop nc hashes) g bmask) ([], p) = Inr (hs, q)"
      "(if enable_kv_cache_events q then stored_event use_int sha r blocks nc nf bsize g bmask hs q else Inr (q, r)) = Inr (p', r')"
    by (auto simp: cache_full_blocks_def Let_def)
  have "\<forall>b \<in> set ?bs. b < num_gpu_blocks p" using assms(2) by (auto dest: in_set_takeD in_set_dropD)
  note L = cache_loop_ok [OF assms(1) this q(1)]
  have "\<exists>es. p' = q\<lparr>kv_event_queue := es\<rparr> \<or> p' = q"
    using q(2) stored_event_frame by (auto split: if_splits)
  then show ?thesis using L by auto
qed

section \<open>Runs\<close>

text \<open>The null block is shared and not counted. The log has the events taken from the pool so far.\<close>

abbreviation real_blocks :: "nat list \<Rightarrow> nat list" where
  "real_blocks bs \<equiv> filter (\<lambda>b. b \<noteq> 0) bs"

inductive pool_run :: "bool \<Rightarrow> ('e list \<Rightarrow> py_bytes) \<Rightarrow> block_pool \<Rightarrow> nat multiset \<Rightarrow> kv_event list \<Rightarrow> bool"
  for use_int sha where
  start: "bp_init n caching hsize events = Inr p \<Longrightarrow> pool_run use_int sha p {#} []"
| alloc: "pool_run use_int sha p H log \<Longrightarrow> get_new_blocks use_int n p = Inr (bs, p') \<Longrightarrow>
    pool_run use_int sha p' (H + mset bs) log"
| touched: "pool_run use_int sha p H log \<Longrightarrow> \<forall>b \<in> set bs. b < num_gpu_blocks p \<Longrightarrow> bp_touch bs p = Inr p' \<Longrightarrow>
    pool_run use_int sha p' (H + mset (real_blocks bs)) log"
| freed: "pool_run use_int sha p H log \<Longrightarrow> \<forall>b \<in> set bs. b < num_gpu_blocks p \<Longrightarrow> distinct (real_blocks bs) \<Longrightarrow>
    set (real_blocks bs) \<subseteq> set_mset H \<Longrightarrow> free_blocks bs p = Inr p' \<Longrightarrow>
    pool_run use_int sha p' (H - mset (real_blocks bs)) log"
| cached: "pool_run use_int sha p H log \<Longrightarrow> \<forall>b \<in> set bs. b < num_gpu_blocks p \<Longrightarrow>
    cache_full_blocks use_int sha r bs nc nf bsize g bmask p = Inr (p', r') \<Longrightarrow> pool_run use_int sha p' H log"
| evicted: "pool_run use_int sha p H log \<Longrightarrow> evict_blocks use_int ids p = Inr p' \<Longrightarrow> pool_run use_int sha p' H log"
| reset: "pool_run use_int sha p H log \<Longrightarrow> pool_run use_int sha (snd (reset_prefix_cache p)) H log"
| taken: "pool_run use_int sha p H log \<Longrightarrow> pool_run use_int sha (snd (bp_take_events p)) H (log @ fst (bp_take_events p))"

definition held_by :: "block_pool \<Rightarrow> nat multiset \<Rightarrow> bool" where
  "held_by p H \<longleftrightarrow> (\<forall>b. b \<in># H \<longrightarrow> b \<noteq> 0 \<and> b < num_gpu_blocks p) \<and>
     (\<forall>b < num_gpu_blocks p. b \<noteq> 0 \<longrightarrow> ref_of p b = int (count H b))"

lemma held_byI:
  assumes "\<And>b. b \<in># H \<Longrightarrow> b \<noteq> 0 \<and> b < num_gpu_blocks p"
    and "\<And>b. b < num_gpu_blocks p \<Longrightarrow> b \<noteq> 0 \<Longrightarrow> ref_of p b = int (count H b)"
  shows "held_by p H"
  using assms by (simp add: held_by_def)

lemma held_by_same:
  "held_by p H \<Longrightarrow> num_gpu_blocks p' = num_gpu_blocks p \<Longrightarrow> \<forall>b < num_gpu_blocks p. ref_of p' b = ref_of p b \<Longrightarrow> held_by p' H"
  by (simp add: held_by_def)

lemma count_mset_distinct: "distinct bs \<Longrightarrow> count (mset bs) b = (if b \<in> set bs then 1 else 0)"
  by (induction bs) auto

lemma alloc_held:
  assumes inv: "bp_inv {} p xs" and H: "held_by p H" and run: "get_new_blocks use_int n p = Inr (bs, p')"
  shows "bp_inv {} p' (drop n xs) \<and> held_by p' (H + mset bs) \<and> n \<le> length xs \<and> bs = take n xs"
proof -
  have s: "spells (bp_queue p) xs" "distinct xs" using inv by (auto simp: bp_inv_def spells_def)
  have n: "n \<le> length xs" using run s(1) by (simp add: get_new_blocks_def bp_num_free_blocks_def spells_def)
  from get_new_blocks_ok [OF inv n, of use_int] run
  have p': "bs = take n xs" "bp_inv {} p' (drop n xs)" "same_but (set bs) p p'" "\<forall>b \<in> set bs. ref_of p' b = 1" by auto
  have bs: "b \<in> set bs \<Longrightarrow> b \<noteq> 0 \<and> b < num_gpu_blocks p \<and> ref_of p b = 0" for b
    using bp_invD(5) [OF inv, of b] in_set_takeD [of b n xs] p'(1) by auto
  have N: "num_gpu_blocks p' = num_gpu_blocks p" using p'(3) by (simp add: same_but_def)
  have "distinct bs" using s(2) p'(1) by simp
  have "held_by p' (H + mset bs)"
  proof (rule held_byI)
    fix b
    assume "b < num_gpu_blocks p'" "b \<noteq> 0"
    then show "ref_of p' b = int (count (H + mset bs) b)"
      using H bs [of b] p'(3,4) \<open>distinct bs\<close> by (cases "b \<in> set bs") (auto simp: held_by_def N same_but_def count_mset_distinct)
  qed (use H bs N in \<open>auto simp: held_by_def\<close>)
  then show ?thesis using p'(1,2) n by simp
qed

lemma count_real: "b \<noteq> 0 \<Longrightarrow> count (mset bs) b = count_list bs b"
  by (induction bs) auto

lemma count_real_distinct:
  "distinct (real_blocks bs) \<Longrightarrow> b \<noteq> 0 \<Longrightarrow> count (mset bs) b = (if b \<in> set bs then 1 else 0)"
  using count_mset_distinct [of "real_blocks bs" b] by simp

lemma touch_held:
  assumes inv: "bp_inv {} p xs" and H: "held_by p H" and bs: "\<forall>b \<in> set bs. b < num_gpu_blocks p"
  shows "\<exists>p' ys. bp_touch bs p = Inr p' \<and> bp_inv {} p' ys \<and> held_by p' (H + mset (real_blocks bs))"
proof -
  from touch_ok [OF inv bs] obtain p' where p': "bp_touch bs p = Inr p'" "bp_inv {} p' (fold remove1 bs xs)"
      "num_gpu_blocks p' = num_gpu_blocks p"
      "\<forall>b. bp_blocks p' ! b = (bp_blocks p ! b)\<lparr>kb_ref_cnt := ref_of p b + int (count_list bs b)\<rparr>" by blast
  have "held_by p' (H + mset (real_blocks bs))"
  proof (rule held_byI)
    show "b \<in># H + mset (real_blocks bs) \<Longrightarrow> b \<noteq> 0 \<and> b < num_gpu_blocks p'" for b
      using H bs p'(3) by (auto simp: held_by_def)
    show "b < num_gpu_blocks p' \<Longrightarrow> b \<noteq> 0 \<Longrightarrow> ref_of p' b = int (count (H + mset (real_blocks bs)) b)" for b
      using H p'(3,4) by (simp add: held_by_def count_real)
  qed
  then show ?thesis using p'(1,2) by blast
qed

lemma free_held:
  assumes inv: "bp_inv {} p xs" and H: "held_by p H" and bs: "\<forall>b \<in> set bs. b < num_gpu_blocks p"
    and d: "distinct (real_blocks bs)" and sub: "set (real_blocks bs) \<subseteq> set_mset H"
  shows "\<exists>p' ys. free_blocks bs p = Inr p' \<and> bp_inv {} p' ys \<and> held_by p' (H - mset (real_blocks bs))"
proof -
  have refs: "\<forall>b \<in> set bs. b \<noteq> 0 \<longrightarrow> 1 \<le> ref_of p b"
  proof (intro ballI impI)
    fix b
    assume b: "b \<in> set bs" "b \<noteq> 0"
    then have "0 < count H b" using sub by auto
    then show "1 \<le> ref_of p b" using H bs b by (simp add: held_by_def)
  qed
  from free_blocks_ok [OF inv bs d refs] obtain p' ys where p': "free_blocks bs p = Inr p'" "bp_inv {} p' ys"
      "same_but (set bs) p p'"
      "\<forall>b \<in> set bs. b \<noteq> 0 \<longrightarrow> bp_blocks p' ! b = (bp_blocks p ! b)\<lparr>kb_ref_cnt := ref_of p b - 1\<rparr>" by blast
  have N: "num_gpu_blocks p' = num_gpu_blocks p" using p'(3) by (simp add: same_but_def)
  have "held_by p' (H - mset (real_blocks bs))"
  proof (rule held_byI)
    show "b \<in># H - mset (real_blocks bs) \<Longrightarrow> b \<noteq> 0 \<and> b < num_gpu_blocks p'" for b
      using H N in_diffD [of b H] by (auto simp: held_by_def)
    fix b
    assume b: "b < num_gpu_blocks p'" "b \<noteq> 0"
    then show "ref_of p' b = int (count (H - mset (real_blocks bs)) b)"
    proof (cases "b \<in> set bs")
      case True
      then have "1 \<le> count H b" using sub b(2) by (auto simp: Suc_le_eq)
      then show ?thesis using True b p'(4) H N by (simp add: held_by_def count_real_distinct [OF d] of_nat_diff)
    next
      case False
      then show ?thesis using b p'(3) H N by (simp add: held_by_def same_but_def count_real_distinct [OF d])
    qed
  qed
  then show ?thesis using p'(1,2) by blast
qed

lemma pool_run_inv:
  assumes "pool_run use_int sha p H log"
  shows "\<exists>xs. bp_inv {} p xs \<and> held_by p H"
  using assms
proof induction
  case (start n caching hsize events p)
  then show ?case using bp_init_ok [OF start] by (auto simp: held_by_def)
next
  case (alloc p H log n bs p')
  then show ?case using alloc_held by blast
next
  case (touched p H log bs p')
  then show ?case using touch_held by (metis Inr_inject)
next
  case (freed p H log bs p')
  then show ?case using free_held by (metis Inr_inject)
next
  case (cached p H log bs r nc nf bsize g bmask p' r')
  then show ?case using cache_full_ok held_by_same by meson
next
  case (evicted p H log ids p')
  then show ?case using evict_blocks_ok held_by_same by meson
next
  case (reset p H log)
  then show ?case using reset_ok held_by_same by meson
next
  case (taken p H log)
  then show ?case by (auto simp: bp_take_events_def held_by_def)
qed

lemma free_count:
  assumes inv: "bp_inv {} p xs" and H: "held_by p H"
  shows "length xs = num_gpu_blocks p - 1 - card (set_mset H)" "bp_num_free_blocks p = int (length xs)"
proof -
  have "distinct xs" "bp_num_free_blocks p = int (length xs)"
    using bp_invD(3) [OF inv] by (simp_all add: spells_def bp_num_free_blocks_def)
  then show "bp_num_free_blocks p = int (length xs)" by simp
  have "set xs = {1 ..< num_gpu_blocks p} - set_mset H"
    using bp_invD(5) [OF inv] H by (auto simp: held_by_def set_eq_iff count_eq_zero_iff)
  moreover have "set_mset H \<subseteq> {1 ..< num_gpu_blocks p}" using H by (auto simp: held_by_def Suc_le_eq)
  ultimately have "card (set xs) = num_gpu_blocks p - 1 - card (set_mset H)" by (simp add: card_Diff_subset)
  then show "length xs = num_gpu_blocks p - 1 - card (set_mset H)" using distinct_card [OF \<open>distinct xs\<close>] by simp
qed

end
