(* ===== verification/Pool_Events.thy ===== *)
theory Pool_Events
  imports Pool_Steps
begin

text \<open>
  The event stream of the block pool describes its prefix cache: a consumer that adds the
  hashes of every \<open>BlockStored\<close>, removes those of every \<open>BlockRemoved\<close> and forgets all at
  \<open>AllBlocksCleared\<close> holds, at any moment, one entry for every cached block.
\<close>

section \<open>The consumer\<close>

type_synonym hash_bag = "(external_hash \<times> int) multiset"

fun apply_event :: "kv_event \<Rightarrow> hash_bag \<Rightarrow> hash_bag" where
  "apply_event (Block_stored hs _ _ _ _ _ _ _ g) B = B + mset (map (\<lambda>h. (h, g)) hs)"
| "apply_event (Block_removed hs _ g) B = B - mset (map (\<lambda>h. (h, g)) hs)"
| "apply_event All_blocks_cleared B = {#}"

definition replay :: "kv_event list \<Rightarrow> hash_bag" where
  "replay es = fold apply_event es {#}"

definition external :: "bool \<Rightarrow> py_bytes \<Rightarrow> external_hash \<times> int" where
  "external use_int key = (maybe_convert_block_hash use_int (get_block_hash key), get_group_id key)"

definition cached_bag :: "bool \<Rightarrow> block_pool \<Rightarrow> hash_bag" where
  "cached_bag use_int p = image_mset (external use_int) (mset (List.map_filter kb_hash (bp_blocks p)))"

section \<open>What an operation adds to the stream\<close>

text \<open>The new events take the consumer from the bag of the pool before to the bag after.\<close>

definition told :: "bool \<Rightarrow> block_pool \<Rightarrow> block_pool \<Rightarrow> bool" where
  "told use_int p p' \<longleftrightarrow>
     enable_kv_cache_events p' = enable_kv_cache_events p \<and>
     (enable_kv_cache_events p \<longrightarrow>
        (\<exists>es. kv_event_queue p' = kv_event_queue p @ es \<and>
          fold apply_event es (cached_bag use_int p) = cached_bag use_int p'))"

lemma told_trans: "told u p q \<Longrightarrow> told u q r \<Longrightarrow> told u p r"
  by (auto simp: told_def)

lemma told_same:
  assumes "map kb_hash (bp_blocks p') = map kb_hash (bp_blocks p)"
    "enable_kv_cache_events p' = enable_kv_cache_events p" "kv_event_queue p' = kv_event_queue p"
  shows "told u p p'"
proof -
  have "List.map_filter kb_hash xs = List.map_filter id (map kb_hash xs)" for xs :: "kv_block list"
    by (induction xs) (auto simp: List.map_filter_simps split: option.split)
  then show ?thesis using assms by (simp add: told_def cached_bag_def)
qed

lemma told_refl [simp]: "told u p p"
  by (rule told_same) simp_all

lemma told_for_each:
  assumes "for_each xs f p = Inr p'" "\<And>x q q'. f x q = Inr q' \<Longrightarrow> told u q q'"
  shows "told u p p'"
  using assms(1) by (rule for_each_inv [where P = "told u p"]) (use assms(2) told_trans in auto)

lemma map_filter_add:
  "i < length xs \<Longrightarrow> f (xs ! i) = None \<Longrightarrow> f y = Some k \<Longrightarrow>
   mset (List.map_filter f (xs[i := y])) = add_mset k (mset (List.map_filter f xs))"
proof (induction xs arbitrary: i)
  case (Cons x xs)
  then show ?case by (cases i) (auto simp: List.map_filter_simps split: option.split)
qed simp

lemma map_hash_upd:
  assumes "\<And>x. kb_hash (f x) = kb_hash x"
  shows "map kb_hash (bp_blocks (upd_block b f p)) = map kb_hash (bp_blocks p)"
  using assms by (cases "b < length (bp_blocks p)") (simp_all add: upd_block_def map_update list_update_same_conv list_update_beyond)

lemma bag_insert:
  assumes "b < length (bp_blocks p)" "hash_of p b = None" "bp_blocks p' = bp_blocks (upd_block b (kb_hash_update (\<lambda>_. Some key)) p)"
  shows "cached_bag u p' = add_mset (external u key) (cached_bag u p)"
  using map_filter_add [of b "bp_blocks p" kb_hash "(bp_blocks p ! b)\<lparr>kb_hash := Some key\<rparr>" key] assms
  by (simp add: cached_bag_def upd_block_def)

lemma bag_remove:
  assumes "b < length (bp_blocks p)" "hash_of p b = Some key" "bp_blocks p' = bp_blocks (upd_block b (kb_hash_update (\<lambda>_. None)) p)"
  shows "cached_bag u p = add_mset (external u key) (cached_bag u p')"
proof (rule bag_insert)
  have "bp_blocks (upd_block b (kb_hash_update (\<lambda>_. Some key)) p') = (bp_blocks p)[b := (bp_blocks p ! b)\<lparr>kb_hash := Some key\<rparr>]"
    using assms by (simp add: upd_block_def)
  also have "(bp_blocks p ! b)\<lparr>kb_hash := Some key\<rparr> = bp_blocks p ! b"
    using assms(2) by (cases "bp_blocks p ! b") simp
  finally show "bp_blocks p = bp_blocks (upd_block b (kb_hash_update (\<lambda>_. Some key)) p')" by simp
qed (use assms in \<open>simp_all add: upd_block_nth\<close>)

lemma told_evict:
  assumes inv: "bp_inv L p xs" and b: "b < num_gpu_blocks p"
  shows "told u p (snd (maybe_evict_cached_block u b p))"
proof (cases "hash_of p b")
  case None
  then show ?thesis by (simp add: maybe_evict_cached_block_def)
next
  case (Some h)
  note I = bp_invD [OF inv]
  have "cached_under (bp_cached p) h b" using I(9) Some b by simp
  then obtain m where m: "bm_pop (bp_cached p) h b = (Some b, m)"
    using bm_pop_ok(2) [OF I(7), of h b] by (metis prod.collapse)
  let ?p = "snd (maybe_evict_cached_block u b p)"
  have "bp_blocks ?p = bp_blocks (upd_block b (kb_hash_update (\<lambda>_. None)) p)"
    by (simp add: maybe_evict_cached_block_def Some m Let_def upd_block_def)
  from bag_remove [OF _ Some this] b I(1) have "cached_bag u p = add_mset (external u h) (cached_bag u ?p)" by simp
  then show ?thesis
    by (auto simp: told_def maybe_evict_cached_block_def Some m Let_def upd_block_def external_def)
qed

lemma told_events [simp]:
  "told u p (q\<lparr>bp_queue := x\<rparr>) = told u p q" "told u (q\<lparr>bp_queue := x\<rparr>) p = told u q p"
  by (simp_all add: told_def cached_bag_def)

lemma told_ref [simp]: "told u p (upd_block b (kb_ref_cnt_update f) q) = told u p q"
proof -
  have "told u q (upd_block b (kb_ref_cnt_update f) q)" "told u (upd_block b (kb_ref_cnt_update f) q) q"
    by (auto intro!: told_same simp: map_hash_upd) (simp_all add: upd_block_def)
  then show ?thesis using told_trans by blast
qed

lemma told_new_blocks:
  assumes "bp_inv (set bs) p xs" "distinct bs" "\<forall>b \<in> set bs. b \<noteq> 0 \<and> b < num_gpu_blocks p \<and> ref_of p b = 0"
    "for_each bs (new_block u) p = Inr p'"
  shows "told u p p'"
  using assms
proof (induction bs arbitrary: p)
  case (Cons b bs)
  from Cons.prems have b: "bp_inv (insert b (set bs)) p xs" "b \<notin> set bs" "b \<noteq> 0" "b < num_gpu_blocks p" "ref_of p b = 0" by auto
  from new_block_ok [OF b, of u] obtain q where q: "new_block u b p = Inr q" "bp_inv (set bs) q xs" "same_but {b} p q" by blast
  have "told u p q"
    using q(1) told_evict [OF b(1,4), of u] by (auto simp: new_block_def Let_def split: if_splits)
  moreover have "\<forall>c \<in> set bs. c \<noteq> 0 \<and> c < num_gpu_blocks q \<and> ref_of q c = 0"
    using Cons.prems(2,3) q(3) by (auto simp: same_but_def)
  then have "told u q p'" using Cons.IH [OF q(2)] Cons.prems(2,4) q(1) by auto
  ultimately show ?case by (rule told_trans)
qed simp

lemma told_get_new_blocks:
  assumes inv: "bp_inv {} p xs" and run: "get_new_blocks u n p = Inr (bs, p')"
  shows "told u p p'"
proof -
  have s: "spells (bp_queue p) xs" "distinct xs" using inv by (auto simp: bp_inv_def spells_def)
  have n: "n \<le> length xs" using run s(1) by (simp add: get_new_blocks_def bp_num_free_blocks_def spells_def)
  from take_off_queue [OF inv n] obtain q where q: "popleft_ids n (bp_queue p) = Inr (take n xs, q)"
      "bp_inv (set (take n xs)) (p\<lparr>bp_queue := q\<rparr>) (drop n xs)" by blast
  have "for_each (take n xs) (new_block u) (p\<lparr>bp_queue := q\<rparr>) = Inr p'"
    using run q(1) by (auto simp: get_new_blocks_def)
  moreover have "b \<noteq> 0 \<and> b < num_gpu_blocks p \<and> ref_of p b = 0" if "b \<in> set (take n xs)" for b
    using bp_invD(5) [OF inv, of b] in_set_takeD [OF that] by simp
  ultimately have "told u (p\<lparr>bp_queue := q\<rparr>) p'" using told_new_blocks [OF q(2)] s(2) by simp
  then show ?thesis by simp
qed

lemma told_touch: "bp_touch bs p = Inr p' \<Longrightarrow> told u p p'"
  unfolding bp_touch_def by (erule told_for_each) (auto simp: touch_block_def split: if_splits)

lemma told_free: "free_blocks bs p = Inr p' \<Longrightarrow> told u p p'"
proof -
  have "told u p (fold (\<lambda>b. upd_block b (kb_ref_cnt_update (\<lambda>r. r - 1))) bs q)" if "told u p q" for q
    using that by (induction bs arbitrary: q) simp_all
  then show "free_blocks bs p = Inr p' \<Longrightarrow> told u p p'" by (auto simp: free_blocks_def Let_def)
qed

lemma told_evict_blocks:
  assumes "bp_inv L p xs" "evict_blocks u ids p = Inr p'"
  shows "told u p p'"
proof -
  have "bp_inv L p' xs \<and> told u p p'"
    using assms(2) unfolding evict_blocks_def
  proof (rule for_each_inv [where P = "\<lambda>q. bp_inv L q xs \<and> told u p q"])
    fix b q q'
    assume q: "bp_inv L q xs \<and> told u p q"
      and "chain (guard (b < length (bp_blocks q)) AssertionError) (\<lambda>_. Inr (snd (maybe_evict_cached_block u b q))) = Inr q'"
    then have b: "b < num_gpu_blocks q" and q': "q' = snd (maybe_evict_cached_block u b q)"
      by (auto simp: bp_inv_def)
    show "bp_inv L q' xs \<and> told u p q'"
      using maybe_evict_ok(1) [OF conjunct1 [OF q] b] told_evict [OF conjunct1 [OF q] b] q told_trans unfolding q' by blast
  qed (use assms(1) in simp)
  then show ?thesis ..
qed

lemma told_reset: "told u p (snd (reset_prefix_cache p))"
proof -
  have "List.map_filter kb_hash (map (kb_hash_update (\<lambda>_. None)) bs) = []" for bs
    by (induction bs) (simp_all add: List.map_filter_simps)
  then show ?thesis by (auto simp: told_def reset_prefix_cache_def Let_def cached_bag_def)
qed

section \<open>Caching\<close>

lemma external_make:
  assumes "make_block_hash_with_group_id bh g = Inr key"
  shows "external u key = (maybe_convert_block_hash u bh, g)"
  using assms to_bytes4_length from_to_bytes4
  by (auto simp: make_block_hash_with_group_id_def external_def get_block_hash_def get_group_id_def)

definition grown :: "bool \<Rightarrow> int \<Rightarrow> external_hash list \<times> block_pool \<Rightarrow> external_hash list \<times> block_pool \<Rightarrow> bool" where
  "grown u g s s' \<longleftrightarrow>
     enable_kv_cache_events (snd s') = enable_kv_cache_events (snd s) \<and> kv_event_queue (snd s') = kv_event_queue (snd s) \<and>
     (enable_kv_cache_events (snd s) \<longrightarrow>
        (\<exists>new. fst s' = fst s @ new \<and> cached_bag u (snd s') = cached_bag u (snd s) + mset (map (\<lambda>h. (h, g)) new)))"

lemma grown_refl [simp]: "grown u g s s"
  by (simp add: grown_def)

lemma grown_trans: "grown u g s s' \<Longrightarrow> grown u g s' s'' \<Longrightarrow> grown u g s s''"
  by (auto simp: grown_def add.assoc)

lemma cache_one_grown:
  assumes inv: "bp_inv L p xs" and b: "b < num_gpu_blocks p"
    and run: "cache_one u hashes g bmask (i, b) (hs, p) = Inr (hs', p')"
  shows "grown u g (hs, p) (hs', p')"
proof (cases "kb_is_null (bp_blocks p ! b) \<or> (\<exists>m. bmask = Some m \<and> \<not> m ! i)")
  case True
  then show ?thesis using run by (auto simp: cache_one_def)
next
  case False
  from False run obtain bh key where key: "hash_of p b = None" "make_block_hash_with_group_id bh g = Inr key"
      "p' = (upd_block b (kb_hash_update (\<lambda>_. Some key)) p)\<lparr>bp_cached := bm_insert (bp_cached p) key b\<rparr>"
      "hs' = (if enable_kv_cache_events p then hs @ [maybe_convert_block_hash u bh] else hs)"
    unfolding cache_one_def prod.case if_not_P [OF False] by auto
  have "cached_bag u p' = add_mset (external u key) (cached_bag u p)"
    by (rule bag_insert) (use b bp_invD(1) [OF inv] key(1,3) in simp_all)
  moreover have "kv_event_queue p' = kv_event_queue p" by (simp add: key(3) upd_block_def)
  ultimately show ?thesis using key(4) external_make [OF key(2), of u] by (simp add: grown_def key(3))
qed

lemma cache_loop_grown:
  assumes "bp_inv {} p xs" "\<forall>b \<in> set bs. b < num_gpu_blocks p"
    and "for_each (enumerate k bs) (cache_one u hashes g bmask) (hs, p) = Inr (hs', p')"
  shows "grown u g (hs, p) (hs', p')"
  using assms
proof (induction bs arbitrary: k hs p)
  case (Cons b bs)
  then obtain hs1 q where q: "cache_one u hashes g bmask (k, b) (hs, p) = Inr (hs1, q)"
      "for_each (enumerate (Suc k) bs) (cache_one u hashes g bmask) (hs1, q) = Inr (hs', p')" by auto
  have b: "b < num_gpu_blocks p" using Cons.prems(2) by simp
  note c = cache_one_ok [OF Cons.prems(1) b q(1)]
  then have "\<forall>c \<in> set bs. c < num_gpu_blocks q" using Cons.prems(2) by (simp add: same_but_def)
  then show ?case
    using cache_one_grown [OF Cons.prems(1) b q(1)] Cons.IH [OF conjunct1 [OF c] _ q(2)] grown_trans by blast
qed simp

lemma told_cache:
  assumes inv: "bp_inv {} p xs" and bs: "\<forall>b \<in> set blocks. b < num_gpu_blocks p"
    and run: "cache_full_blocks u sha r blocks nc nf bsize g bmask p = Inr (p', r')"
  shows "told u p p'"
proof (cases "nf \<le> nc")
  case True
  then show ?thesis using run by (simp add: cache_full_blocks_def)
next
  case False
  let ?bs = "take (nf - nc) (drop nc blocks)"
  from run False obtain hashes hs q where
    q: "for_each (enumerate 0 ?bs) (cache_one u (drop nc hashes) g bmask) ([], p) = Inr (hs, q)"
      "(if enable_kv_cache_events q then stored_event u sha r blocks nc nf bsize g bmask hs q else Inr (q, r)) = Inr (p', r')"
    by (auto simp: cache_full_blocks_def Let_def)
  have "\<forall>b \<in> set ?bs. b < num_gpu_blocks p" using bs by (auto dest: in_set_takeD in_set_dropD)
  from cache_loop_grown [OF inv this q(1)] have G: "grown u g ([], p) (hs, q)" .
  show ?thesis
  proof (cases "enable_kv_cache_events q")
    case True
    then obtain e where "p' = q\<lparr>kv_event_queue := kv_event_queue q @ [e]\<rparr>" "\<And>B. apply_event e B = B + mset (map (\<lambda>h. (h, g)) hs)"
      using q(2) by (auto simp: stored_event_def)
    then show ?thesis using G by (auto simp: told_def grown_def cached_bag_def)
  next
    case False
    then show ?thesis using q(2) G by (auto simp: told_def grown_def)
  qed
qed

lemma replay_told:
  assumes "told u p p'" "enable_kv_cache_events p \<Longrightarrow> replay (log @ kv_event_queue p) = cached_bag u p"
  shows "enable_kv_cache_events p' \<Longrightarrow> replay (log @ kv_event_queue p') = cached_bag u p'"
  using assms by (auto simp: told_def replay_def)

lemma init_hashes:
  assumes "bp_init n caching hsize events = Inr p" "b < n"
  shows "hash_of p b = None"
  using bp_invD(9) [OF bp_init_ok(1) [OF assms(1)], of "the (hash_of p b)" b] bp_init_ok(2,5) [OF assms(1)] assms(2)
  by (cases "hash_of p b") (simp_all add: cached_under_def)

lemma bag_init:
  assumes "bp_init n caching hsize events = Inr p"
  shows "cached_bag u p = {#}" "kv_event_queue p = []"
proof -
  have "\<forall>x \<in> set (bp_blocks p). kb_hash x = None"
    using bp_invD(1) [OF bp_init_ok(1) [OF assms]] init_hashes [OF assms] bp_init_ok(2) [OF assms]
    by (auto simp: in_set_conv_nth)
  moreover have "List.map_filter kb_hash bs = []" if "\<forall>b \<in> set bs. kb_hash b = None" for bs
    using that by (induction bs) (simp_all add: List.map_filter_simps)
  ultimately show "cached_bag u p = {#}" by (simp add: cached_bag_def)
  show "kv_event_queue p = []" using assms by (auto simp: bp_init_def upd_block_def)
qed

lemma replay_run:
  assumes "pool_run u sha p H log"
  shows "enable_kv_cache_events p \<longrightarrow> replay (log @ kv_event_queue p) = cached_bag u p"
  using assms
proof induction
  case (start n caching hsize events p)
  then show ?case using bag_init [OF start] by (simp add: replay_def)
next
  case (alloc p H log n bs p')
  then show ?case using pool_run_inv told_get_new_blocks replay_told by meson
next
  case (touched p H log bs p')
  then show ?case using told_touch replay_told by meson
next
  case (freed p H log bs p')
  then show ?case using told_free replay_told by meson
next
  case (cached p H log bs r nc nf bsize g bmask p' r')
  then show ?case using pool_run_inv told_cache replay_told by meson
next
  case (evicted p H log ids p')
  then show ?case using pool_run_inv told_evict_blocks replay_told by meson
next
  case (reset p H log)
  then show ?case using told_reset replay_told by meson
next
  case (taken p H log)
  then show ?case by (auto simp: bp_take_events_def cached_bag_def)
qed

text \<open>A pool of four blocks and a request with one full block.\<close>

definition pool4 :: block_pool where
  "pool4 = projr (bp_init 4 True 16 True)"

definition one_block_request :: "unit request" where
  "one_block_request = \<lparr>all_token_ids = replicate 16 5, mm_features = [], rq_lora = None, cache_salt = None,
     prompt_embeds = None, embeds_memo = [], block_hashes = [[7]]\<rparr>"

lemma pool4_init: "bp_init 4 True 16 True = Inr pool4"
proof -
  have "spells (fq_init [0 ..< 4]) (0 # [1 ..< 4])" using spells_init [of "[0 ..< 4]"] by (simp add: upt_rec)
  from spells_popleft(1) [OF this] show ?thesis by (auto simp: pool4_def bp_init_def)
qed

lemma pool4_run:
  obtains p where "get_new_blocks False 1 pool4 = Inr ([1], p)" "pool_run False (\<lambda>_ :: unit list. []) p {#1#} []"
    "bp_inv {} p [2, 3]" "\<forall>b < 4. hash_of p b = None" "enable_kv_cache_events p" "hash_block_size p = 16"
    "num_gpu_blocks p = 4"
proof -
  note I = bp_init_ok [OF pool4_init]
  have xs: "[1 ..< 4] = [1, 2, 3 :: nat]" by (simp add: upt_rec)
  have "bp_inv {} pool4 [1, 2, 3]" using I(1) unfolding xs .
  from get_new_blocks_ok [OF this, of 1 False] obtain p
    where p: "get_new_blocks False 1 pool4 = Inr ([1], p)" "bp_inv {} p [2, 3]" "same_but {1} pool4 p" "hash_of p 1 = None"
    using I(4) by auto
  have "pool_run False (\<lambda>_ :: unit list. []) p {#1#} []"
    using pool_run.alloc [OF pool_run.start [OF pool4_init] p(1)] by simp
  moreover have "hash_of p b = None" if "b < 4" for b
    using p(3,4) init_hashes [OF pool4_init that] by (cases "b = 1") (auto simp: same_but_def)
  ultimately show ?thesis using that p I(2,6,7) by (auto simp: same_but_def)
qed

lemma pool4_cached:
  obtains p q where "pool_run False (\<lambda>_ :: unit list. []) p {#1#} []" "num_gpu_blocks p = 4" "hash_block_size p = 16"
    "cache_full_blocks False (\<lambda>_. []) one_block_request [1] 0 1 16 0 None p = Inr (q, one_block_request)"
    "pool_run False (\<lambda>_ :: unit list. []) q {#1#} []" "enable_kv_cache_events q" "num_gpu_blocks q = 4"
    "\<forall>b < 4. hash_of q b = (if b = 1 then Some [7, 0, 0, 0, 0] else None)"
proof -
  obtain p where p: "pool_run False (\<lambda>_ :: unit list. []) p {#1#} []" "bp_inv {} p [2, 3]" "\<forall>b < 4. hash_of p b = None"
      "enable_kv_cache_events p" "hash_block_size p = 16" "num_gpu_blocks p = 4" by (rule pool4_run)
  have len: "length (bp_blocks p) = 4" using bp_invD(1) [OF p(2)] p(6) by simp
  have nn: "\<not> kb_is_null (bp_blocks p ! 1)" using bp_invD(4) [OF p(2), of 1] p(6) by simp
  define q where "q = (upd_block 1 (kb_hash_update (\<lambda>_. Some [7, 0, 0, 0, 0])) p)
      \<lparr>bp_cached := bm_insert (bp_cached p) [7, 0, 0, 0, 0] 1\<rparr>"
  define e where "e = Block_stored [Hash_bytes [7]] None (py_slice (replicate 16 5) 0 16) 16 None ''GPU'' None (Some [None]) 0"
  have c: "cache_full_blocks False (\<lambda>_. []) one_block_request [1] 0 1 16 0 None p =
      Inr (q\<lparr>kv_event_queue := kv_event_queue q @ [e]\<rparr>, one_block_request)"
    using p(3-5) len nn
    by (simp add: cache_full_blocks_def group_hashes_def one_block_request_def cache_one_def Let_def
        make_block_hash_with_group_id_def to_bytes4_def stored_event_def event_keys_one_def py_nth_def upd_block_nth
        generate_block_hash_extra_keys_def gen_mm_extra_hash_keys_def gen_prompt_embeds_extra_hash_keys_def
        gen_lora_extra_hash_keys_def cache_salt_keys_def maybe_convert_block_hash_def q_def e_def del: chain_eq_Inr)
  let ?q = "q\<lparr>kv_event_queue := kv_event_queue q @ [e]\<rparr>"
  have "pool_run False (\<lambda>_ :: unit list. []) ?q {#1#} []"
    by (rule pool_run.cached [OF p(1) _ c]) (simp add: p(6))
  moreover have "hash_of q b = (if b = 1 then Some [7, 0, 0, 0, 0] else hash_of p b)" for b
    using len by (simp add: q_def upd_block_nth)
  moreover have "enable_kv_cache_events ?q" "num_gpu_blocks ?q = 4" using p(4,6) by (simp_all add: q_def)
  ultimately show ?thesis using that [OF p(1,6,5) c] p(3) by simp
qed

text \<open>
  C26. With events enabled, a consumer that replays every event taken so far and those still
  queued has exactly the hashes of the cached blocks, with one entry for each block that is
  cached, whatever was allocated, touched, freed, cached, evicted or reset in between.
\<close>

theorem events_replay_cache:
  assumes "pool_run use_int sha p H log" "enable_kv_cache_events p"
  shows "replay (log @ kv_event_queue p) =
    mset (map (\<lambda>b. external use_int (the (hash_of p b))) (filter (\<lambda>b. hash_of p b \<noteq> None) [0 ..< num_gpu_blocks p]))"
proof -
  obtain xs where "bp_inv {} p xs" using pool_run_inv [OF assms(1)] by blast
  then have len: "length (bp_blocks p) = num_gpu_blocks p" by (rule bp_invD(1))
  have "List.map_filter kb_hash bs =
      map (\<lambda>b. the (kb_hash (bs ! b))) (filter (\<lambda>b. kb_hash (bs ! b) \<noteq> None) [0 ..< length bs])" for bs
    by (subst map_nth [of bs, symmetric]) (simp add: List.map_filter_def filter_map comp_def)
  note this [of "bp_blocks p", unfolded len]
  then show ?thesis
    using replay_run [OF assms(1)] assms(2) by (simp only: cached_bag_def mset_map [symmetric] map_map comp_def)
qed

theorem events_replay_cache_witness:
  "\<exists>p H log. pool_run False (\<lambda>_ :: unit list. []) p H log \<and> enable_kv_cache_events p \<and>
     replay (log @ kv_event_queue p) = {#(Hash_bytes [7], 0)#}"
proof -
  obtain p q where q: "pool_run False (\<lambda>_ :: unit list. []) q {#1#} []" "enable_kv_cache_events q" "num_gpu_blocks q = 4"
      "\<forall>b < 4. hash_of q b = (if b = 1 then Some [7, 0, 0, 0, 0] else None)" by (rule pool4_cached)
  have "[0 ..< 4] = [0, 1, 2, 3 :: nat]" by (simp add: upt_rec)
  then have F: "filter (\<lambda>b. hash_of q b \<noteq> None) [0 ..< 4] = [1]" using q(4) by simp
  have "replay ([] @ kv_event_queue q) = {#(Hash_bytes [7], 0)#}"
    using events_replay_cache [OF q(1,2), unfolded q(3) F] q(4)
    by (simp add: external_def get_block_hash_def get_group_id_def from_bytes_def maybe_convert_block_hash_def del: upt_Suc)
  then show ?thesis using q(1,2) by blast
qed

end
