(* ===== verification/Pool_Correct.thy ===== *)
theory Pool_Correct
  imports Pool_Events
begin

text \<open>
  What the block pool promises its clients, over all runs: allocation hands out unused
  blocks only, fails exactly when too few are left, lookups agree with the hashes on the
  blocks, what was cached is found, and touching and freeing cancel.
\<close>

text \<open>
  In every reachable pool the walk through the free queue returns, and gives exactly
  the blocks that nobody holds, once each; the null block is never among them; and the
  reference count of every other block is the number of its holders.
\<close>

theorem free_list_is_unheld:
  assumes "pool_run use_int sha p H log"
  shows "\<exists>xs. get_all_free_blocks (bp_queue p) = Some (Inr (map Blk xs)) \<and> distinct xs \<and>
    set xs = {1 ..< num_gpu_blocks p} - set_mset H \<and> bp_num_free_blocks p = int (length xs) \<and>
    set_mset H \<subseteq> {1 ..< num_gpu_blocks p} \<and> (\<forall>b \<in> {1 ..< num_gpu_blocks p}. ref_of p b = int (count H b))"
proof -
  obtain xs where xs: "bp_inv {} p xs" "held_by p H" using pool_run_inv [OF assms] by blast
  have "set xs = {1 ..< num_gpu_blocks p} - set_mset H"
    using bp_invD(5) [OF xs(1)] xs(2) by (auto simp: held_by_def set_eq_iff count_eq_zero_iff)
  moreover have "get_all_free_blocks (bp_queue p) = Some (Inr (map Blk xs))"
    using bp_invD(3) [OF xs(1)] by (rule spells_walk)
  ultimately show ?thesis
    using bp_invD(3) [OF xs(1)] free_count(2) [OF xs] xs(2)
    by (intro exI [of _ xs]) (auto simp: spells_def held_by_def Suc_le_eq)
qed

theorem free_list_is_unheld_witness:
  "\<exists>p xs. pool_run False (\<lambda>_ :: unit list. []) p {#1#} [] \<and> set xs = {1 ..< num_gpu_blocks p} - {1} \<and>
     get_all_free_blocks (bp_queue p) = Some (Inr (map Blk xs)) \<and> ref_of p 1 = 1"
proof -
  obtain p where p: "pool_run False (\<lambda>_ :: unit list. []) p {#1#} []" "num_gpu_blocks p = 4" by (rule pool4_run)
  from free_list_is_unheld [OF p(1)] obtain xs where xs: "get_all_free_blocks (bp_queue p) = Some (Inr (map Blk xs))"
      "set xs = {1 ..< num_gpu_blocks p} - set_mset {#1#}" "\<forall>b \<in> {1 ..< num_gpu_blocks p}. ref_of p b = int (count {#1#} b)"
    by blast
  have "ref_of p 1 = 1" using xs(3) p(2) by simp
  then show ?thesis using p(1) xs(1,2) by (intro exI [of _ p] exI [of _ xs]) simp
qed

text \<open>
  C25. A block that is handed out is in use by nobody: the blocks are as many as asked for,
  distinct, not the null block, held by no client; with caching on they have left the
  prefix cache, and no other block was changed.
\<close>

theorem allocated_blocks_unused:
  assumes "pool_run use_int sha p H log" "get_new_blocks use_int n p = Inr (bs, p')"
  shows "length bs = n \<and> distinct bs \<and>
    (\<forall>b \<in> set bs. b \<noteq> 0 \<and> b < num_gpu_blocks p \<and> b \<notin># H \<and> ref_of p' b = 1 \<and>
       (enable_caching p \<longrightarrow> (\<forall>key. get_one_block (bp_cached p') key \<noteq> Inr (Some b)))) \<and>
    (\<forall>b. b \<notin> set bs \<longrightarrow> bp_blocks p' ! b = bp_blocks p ! b)"
proof -
  obtain xs where xs: "bp_inv {} p xs" "held_by p H" using pool_run_inv [OF assms(1)] by blast
  note A = alloc_held [OF xs assms(2)]
  then have bs: "bs = take n xs" "n \<le> length xs" and inv': "bp_inv {} p' (drop n xs)" by auto
  from get_new_blocks_ok [OF xs(1) bs(2), of use_int] assms(2)
  have p': "same_but (set bs) p p'" "\<forall>b \<in> set bs. ref_of p' b = 1 \<and> (enable_caching p \<longrightarrow> hash_of p' b = None)"
    by (auto simp: bs(1))
  have in_bs: "b \<noteq> 0 \<and> b < num_gpu_blocks p \<and> b \<notin># H" if "b \<in> set bs" for b
    using bp_invD(5) [OF xs(1), of b] in_set_takeD [of b n xs] that xs(2)
    by (auto simp: bs(1) held_by_def count_eq_zero_iff)
  have "get_one_block (bp_cached p') key \<noteq> Inr (Some b)" if "b \<in> set bs" "enable_caching p" for b key
    using get_one_block_ok [OF bp_invD(7) [OF inv'], of key] bp_invD(9) [OF inv', of key b] p'(2) that by auto
  moreover have "length bs = n \<and> distinct bs"
    using bs bp_invD(3) [OF xs(1)] by (simp add: spells_def)
  ultimately show ?thesis using in_bs p' by (auto simp: same_but_def)
qed

theorem allocated_blocks_unused_witness:
  "\<exists>p bs p'. pool_run False (\<lambda>_ :: unit list. []) p {#1#} [] \<and> get_new_blocks False 2 p = Inr (bs, p') \<and> 1 \<notin> set bs \<and> distinct bs"
proof -
  obtain p where p: "pool_run False (\<lambda>_ :: unit list. []) p {#1#} []" "bp_inv {} p [2, 3]" by (rule pool4_run)
  obtain bs p' where run: "get_new_blocks False 2 p = Inr (bs, p')" using get_new_blocks_ok [OF p(2), of 2 False] by auto
  have "1 \<notin> set bs" "distinct bs" using allocated_blocks_unused [OF p(1) run] by auto
  then show ?thesis using p(1) run by (intro exI [of _ p] exI [of _ bs] exI [of _ p']) simp
qed

text \<open>
  C27. Allocation succeeds exactly when enough blocks are unheld, and otherwise raises
  \<open>ValueError\<close>: no other exception is possible in a reachable pool.
\<close>

theorem allocation_succeeds_iff:
  assumes "pool_run use_int sha p H log"
  shows "get_new_blocks use_int n p = Inl ValueError \<and> num_gpu_blocks p - 1 < n + card (set_mset H) \<or>
    (\<exists>bs p'. get_new_blocks use_int n p = Inr (bs, p')) \<and> n + card (set_mset H) \<le> num_gpu_blocks p - 1"
proof -
  obtain xs where xs: "bp_inv {} p xs" "held_by p H" using pool_run_inv [OF assms] by blast
  note F = free_count [OF xs]
  have "set_mset H \<subseteq> {1 ..< num_gpu_blocks p}" using xs(2) by (auto simp: held_by_def Suc_le_eq)
  from card_mono [OF _ this] have "card (set_mset H) \<le> num_gpu_blocks p - 1" by simp
  then show ?thesis
    using F get_new_blocks_ok [OF xs(1), of n use_int] by (cases "n \<le> length xs") (auto simp: get_new_blocks_def)
qed

theorem allocation_succeeds_iff_witness:
  "\<exists>p. pool_run False (\<lambda>_ :: unit list. []) p {#1#} [] \<and> get_new_blocks False 3 p = Inl ValueError \<and>
     (\<exists>bs p'. get_new_blocks False 2 p = Inr (bs, p'))"
proof -
  obtain p where p: "pool_run False (\<lambda>_ :: unit list. []) p {#1#} []" "num_gpu_blocks p = 4" by (rule pool4_run)
  have "get_new_blocks False 3 p = Inl ValueError" using allocation_succeeds_iff [OF p(1), of 3] p(2) by simp
  moreover have "\<exists>bs p'. get_new_blocks False 2 p = Inr (bs, p')" using allocation_succeeds_iff [OF p(1), of 2] p(2) by simp
  ultimately show ?thesis using p(1) by blast
qed

section \<open>Lookups\<close>

definition carries :: "block_pool \<Rightarrow> py_bytes \<Rightarrow> int \<Rightarrow> nat \<Rightarrow> bool" where
  "carries p h g b \<longleftrightarrow>
     (\<exists>key. make_block_hash_with_group_id h g = Inr key \<and> b < num_gpu_blocks p \<and> hash_of p b = Some key)"

lemma lookup_one:
  assumes inv: "bp_inv L p xs" and key: "make_block_hash_with_group_id h g = Inr key"
  shows "get_one_block (bp_cached p) key = Inr None \<and> (\<forall>b. \<not> carries p h g b) \<or>
    (\<exists>b. get_one_block (bp_cached p) key = Inr (Some b) \<and> carries p h g b)"
  using get_one_block_ok [OF bp_invD(7) [OF inv], of key] bp_invD(9) [OF inv, of key] key by (simp add: carries_def)

lemma lookup_inv:
  assumes inv: "bp_inv L p xs" and gs: "\<forall>g \<in> set gs. 0 \<le> g \<and> g < 2 ^ 32"
  shows "get_cached_block p h gs = Inr None \<and> (\<exists>g \<in> set gs. \<forall>b. \<not> carries p h g b) \<or>
    (\<exists>bs. get_cached_block p h gs = Inr (Some bs) \<and> list_all2 (carries p h) gs bs)"
  using gs
proof (induction gs)
  case (Cons g gs)
  then obtain key where key: "make_block_hash_with_group_id h g = Inr key"
    by (simp add: make_block_hash_with_group_id_def to_bytes4_def)
  from lookup_one [OF inv key] show ?case
  proof (elim disjE exE conjE)
    fix b
    assume b: "get_one_block (bp_cached p) key = Inr (Some b)" "carries p h g b"
    from Cons have "get_cached_block p h gs = Inr None \<and> (\<exists>g \<in> set gs. \<forall>b. \<not> carries p h g b) \<or>
      (\<exists>bs. get_cached_block p h gs = Inr (Some bs) \<and> list_all2 (carries p h) gs bs)" by simp
    then show ?thesis by (elim disjE exE conjE) (use b key in simp_all)
  qed (use key in simp)
qed simp

text \<open>
  A lookup in a reachable pool never raises for group ids that fit the key, misses
  exactly when some group has no block with the hash, and otherwise gives for each group a
  block that carries it.
\<close>

theorem lookup_agrees_with_hashes:
  assumes "pool_run use_int sha p H log" "\<forall>g \<in> set gs. 0 \<le> g \<and> g < 2 ^ 32"
  shows "get_cached_block p h gs = Inr None \<and> (\<exists>g \<in> set gs. \<forall>b. \<not> carries p h g b) \<or>
    (\<exists>bs. get_cached_block p h gs = Inr (Some bs) \<and> list_all2 (carries p h) gs bs)"
  using pool_run_inv [OF assms(1)] lookup_inv [OF _ assms(2)] by blast

theorem lookup_agrees_with_hashes_witness:
  "get_cached_block pool4 [7] [0, 1] = Inr None"
proof -
  have "\<not> carries pool4 [7] g b" for g b
    using init_hashes [OF pool4_init, of b] bp_init_ok(2) [OF pool4_init] by (auto simp: carries_def)
  moreover have "pool_run False (\<lambda>_ :: unit list. []) pool4 {#} []" by (rule pool_run.start [OF pool4_init])
  from lookup_agrees_with_hashes [OF this, of "[0, 1]" "[7]"] have "get_cached_block pool4 [7] [0, 1] = Inr None \<or>
      (\<exists>bs. get_cached_block pool4 [7] [0, 1] = Inr (Some bs) \<and> list_all2 (carries pool4 [7]) [0, 1] bs)" by auto
  ultimately show ?thesis by (auto simp: list_all2_Cons1)
qed

lemma cache_loop_hash:
  assumes "bp_inv {} p xs" "\<forall>b \<in> set bs. b < num_gpu_blocks p"
    and "for_each (enumerate k bs) (cache_one use_int hashes g None) (hs, p) = Inr (hs', p')"
    and "j < length bs" "bs ! j \<noteq> 0"
  shows "\<exists>key. k + j < length hashes \<and> make_block_hash_with_group_id (hashes ! (k + j)) g = Inr key \<and> hash_of p' (bs ! j) = Some key"
  using assms
proof (induction bs arbitrary: k hs p j)
  case (Cons b bs)
  then obtain hs1 q where q: "cache_one use_int hashes g None (k, b) (hs, p) = Inr (hs1, q)"
      "for_each (enumerate (Suc k) bs) (cache_one use_int hashes g None) (hs1, q) = Inr (hs', p')" by auto
  have b: "b < num_gpu_blocks p" using Cons.prems(2) by simp
  note c = cache_one_ok [OF Cons.prems(1) b q(1)]
  then have bs: "\<forall>c \<in> set bs. c < num_gpu_blocks q" using Cons.prems(2) by (simp add: same_but_def)
  note L = cache_loop_ok [OF conjunct1 [OF c] bs q(2)]
  show ?case
  proof (cases j)
    case 0
    then have "\<not> kb_is_null (bp_blocks p ! b)" using bp_invD(4) [OF Cons.prems(1) b] Cons.prems(5) by simp
    then obtain key where "k < length hashes" "make_block_hash_with_group_id (hashes ! k) g = Inr key"
        "q = (upd_block b (kb_hash_update (\<lambda>_. Some key)) p)\<lparr>bp_cached := bm_insert (bp_cached p) key b\<rparr>"
      using q(1) by (auto simp: cache_one_def)
    moreover have "b < length (bp_blocks p)" using bp_invD(1) [OF Cons.prems(1)] b by simp
    ultimately show ?thesis using 0 L by (auto simp: upd_block_nth)
  next
    case (Suc i)
    then show ?thesis using Cons.IH [OF conjunct1 [OF c] bs q(2), of i] Cons.prems(4,5) by simp
  qed
qed simp

text \<open>
  C28. What was cached is found: after \<open>cache_full_blocks\<close> without a mask, the hash of every
  new full block that is not null is a hit for its group, at the block's own granularity.
\<close>

theorem cached_blocks_hit:
  assumes "pool_run use_int sha p H log" "\<forall>b \<in> set blocks. b < num_gpu_blocks p"
    and "cache_full_blocks use_int sha r blocks num_cached num_full block_size g None p = Inr (p', r')"
    and "group_hashes p r block_size = Inr hashes"
    and "num_cached \<le> i" "i < num_full" "i < length blocks" "blocks ! i \<noteq> 0"
  shows "carries p' (hashes ! i) g (blocks ! i) \<and>
    (\<exists>b. get_cached_block p' (hashes ! i) [g] = Inr (Some [b]) \<and> carries p' (hashes ! i) g b)"
proof -
  obtain xs where xs: "bp_inv {} p xs" using pool_run_inv [OF assms(1)] by blast
  let ?bs = "take (num_full - num_cached) (drop num_cached blocks)"
  from assms(3-6) obtain hs q where
    q: "for_each (enumerate 0 ?bs) (cache_one use_int (drop num_cached hashes) g None) ([], p) = Inr (hs, q)"
      "(if enable_kv_cache_events q then stored_event use_int sha r blocks num_cached num_full block_size g None hs q else Inr (q, r)) = Inr (p', r')"
    by (auto simp: cache_full_blocks_def Let_def)
  have bs: "\<forall>b \<in> set ?bs. b < num_gpu_blocks p" using assms(2) by (auto dest: in_set_takeD in_set_dropD)
  have i: "i - num_cached < length ?bs" "?bs ! (i - num_cached) = blocks ! i" using assms(5-7) by auto
  from cache_loop_hash [OF xs bs q(1) i(1)] i(2) assms(5,8) obtain key
    where key: "make_block_hash_with_group_id (hashes ! i) g = Inr key" "hash_of q (blocks ! i) = Some key" by auto
  have "\<exists>es. p' = q\<lparr>kv_event_queue := es\<rparr> \<or> p' = q" using q(2) stored_event_frame by (auto split: if_splits)
  then have "hash_of p' (blocks ! i) = Some key" using key(2) by auto
  moreover note C = cache_full_ok [OF xs assms(2,3)]
  ultimately have "carries p' (hashes ! i) g (blocks ! i)" using key(1) assms(2,7) by (auto simp: carries_def)
  then show ?thesis using lookup_one [OF conjunct1 [OF C] key(1)] key(1) by auto
qed

theorem cached_blocks_hit_witness:
  "\<exists>p q b. cache_full_blocks False (\<lambda>_. []) one_block_request [1] 0 1 16 0 None p = Inr (q, one_block_request) \<and>
     get_cached_block q [7] [0] = Inr (Some [b]) \<and> carries q [7] 0 b"
proof -
  obtain p q where p: "pool_run False (\<lambda>_ :: unit list. []) p {#1#} []" "num_gpu_blocks p = 4" "hash_block_size p = 16"
      "cache_full_blocks False (\<lambda>_. []) one_block_request [1] 0 1 16 0 None p = Inr (q, one_block_request)"
    by (rule pool4_cached)
  have "group_hashes p one_block_request 16 = Inr [[7]]" by (simp add: group_hashes_def p(3) one_block_request_def)
  from cached_blocks_hit [OF p(1) _ p(4) this, of 0] p(2)
  have "\<exists>b. get_cached_block q [7] [0] = Inr (Some [b]) \<and> carries q [7] 0 b" by (simp del: get_cached_block.simps)
  then show ?thesis using p(4) by blast
qed

section \<open>Touch and free\<close>

lemma fold_remove1: "distinct xs \<Longrightarrow> fold remove1 bs xs = filter (\<lambda>x. x \<notin> set bs) xs"
proof (induction bs arbitrary: xs)
  case (Cons b bs)
  then show ?case by (simp add: distinct_remove1_removeAll removeAll_filter_not_eq conj_commute eq_commute [of b])
qed simp

text \<open>
  Touching blocks and freeing them again neither raises nor changes any block's
  reference count or hash; the touched blocks that were evictable move to the end of the
  eviction order, in the order of the call, and the prefix cache is as before.
\<close>

theorem touch_free_roundtrip:
  assumes "pool_run use_int sha p H log" "distinct bs" "\<forall>b \<in> set bs. b \<noteq> 0 \<and> b < num_gpu_blocks p"
  shows "\<exists>xs q p'. get_all_free_blocks (bp_queue p) = Some (Inr (map Blk xs)) \<and>
    bp_touch bs p = Inr q \<and> free_blocks bs q = Inr p' \<and>
    (\<forall>b < num_gpu_blocks p. bp_blocks p' ! b = bp_blocks p ! b) \<and>
    get_all_free_blocks (bp_queue p') =
      Some (Inr (map Blk (filter (\<lambda>b. b \<notin> set bs) xs @ filter (\<lambda>b. b \<notin># H) bs))) \<and>
    (\<forall>key b. cached_under (bp_cached p') key b \<longleftrightarrow> cached_under (bp_cached p) key b)"
proof -
  obtain xs where xs: "bp_inv {} p xs" "held_by p H" using pool_run_inv [OF assms(1)] by blast
  have d: "distinct xs" using bp_invD(3) [OF xs(1)] by (simp add: spells_def)
  have lt: "\<forall>b \<in> set bs. b < num_gpu_blocks p" using assms(3) by blast
  from touch_ok [OF xs(1) lt] obtain q where q: "bp_touch bs p = Inr q"
      "bp_inv {} q (filter (\<lambda>x. x \<notin> set bs) xs)" "num_gpu_blocks q = num_gpu_blocks p"
      "\<forall>b. bp_blocks q ! b = (bp_blocks p ! b)\<lparr>kb_ref_cnt := ref_of p b + int (count_list bs b)\<rparr>"
    by (auto simp: fold_remove1 [OF d])
  have real: "real_blocks bs = bs" using assms(3) by (simp add: filter_id_conv)
  have q1: "b \<in> set bs \<Longrightarrow> bp_blocks q ! b = (bp_blocks p ! b)\<lparr>kb_ref_cnt := ref_of p b + 1\<rparr>" for b
    using q(4) count_list_distinct [of bs b] assms(2,3) real by simp
  have pos: "0 \<le> ref_of p b" if "b \<in> set bs" for b using bp_invD(6) [OF xs(1)] assms(3) that by blast
  have "\<forall>b \<in> set bs. b < num_gpu_blocks q" using lt q(3) by simp
  from free_blocks_ok [OF q(2) this] real assms(2) pos q1 obtain p' where p': "free_blocks bs q = Inr p'"
      "bp_inv {} p' (filter (\<lambda>x. x \<notin> set bs) xs @ filter (\<lambda>b. b \<noteq> 0 \<and> ref_of q b = 1) bs)" "same_but (set bs) q p'"
      "\<forall>b \<in> set bs. b \<noteq> 0 \<longrightarrow> bp_blocks p' ! b = (bp_blocks q ! b)\<lparr>kb_ref_cnt := ref_of q b - 1\<rparr>" by auto
  have F: "filter (\<lambda>b. b \<noteq> 0 \<and> ref_of q b = 1) bs = filter (\<lambda>b. b \<notin># H) bs"
    using q1 assms(3) xs(2) by (intro filter_cong) (auto simp: held_by_def count_eq_zero_iff)
  have B: "bp_blocks p' ! b = bp_blocks p ! b" for b
  proof (cases "b \<in> set bs")
    case True
    then show ?thesis using p'(4) q1 assms(3) by simp
  next
    case False
    then show ?thesis using p'(3) q(4) by (simp add: same_but_def)
  qed
  have "num_gpu_blocks p' = num_gpu_blocks p" using p'(3) q(3) by (simp add: same_but_def)
  then have "cached_under (bp_cached p') key b \<longleftrightarrow> cached_under (bp_cached p) key b" for key b
    using bp_invD(9) [OF xs(1), of key b] bp_invD(9) [OF p'(2), of key b] B by simp
  then show ?thesis
    using spells_walk [OF bp_invD(3) [OF xs(1)]] spells_walk [OF bp_invD(3) [OF p'(2)]] q(1) p'(1) B
    unfolding F by blast
qed

theorem touch_free_roundtrip_witness:
  "\<exists>p q p'. pool_run False (\<lambda>_ :: unit list. []) p {#1#} [] \<and> bp_touch [3, 1] p = Inr q \<and> free_blocks [3, 1] q = Inr p' \<and>
     bp_blocks p' ! 3 = bp_blocks p ! 3"
proof -
  obtain p where p: "pool_run False (\<lambda>_ :: unit list. []) p {#1#} []" "num_gpu_blocks p = 4" by (rule pool4_run)
  from touch_free_roundtrip [OF p(1), of "[3, 1]"] p(2) obtain q p' where "bp_touch [3, 1] p = Inr q"
      "free_blocks [3, 1] q = Inr p'" "\<forall>b < 4. bp_blocks p' ! b = bp_blocks p ! b" by auto
  then show ?thesis using p(1) by (intro exI [of _ p] exI [of _ q] exI [of _ p']) simp
qed

end
