(* ===== verification/Tier_Shape.thy ===== *)
theory Tier_Shape
  imports Tier_Tokens
begin

text \<open>
  What an operation of a tier manager leaves alone in the stores that the managers of all
  layers share: the rows of the other layers, the size of the host pool, and the extent of the
  summary table. The set of requests last seen is not changed either.
\<close>

section \<open>The rows of other layers\<close>

definition rows_apart :: "nat \<Rightarrow> 'x list \<Rightarrow> 'x list \<Rightarrow> bool" where
  "rows_apart l xs ys \<longleftrightarrow> length ys = length xs \<and> (\<forall>j. j \<noteq> l \<longrightarrow> ys ! j = xs ! j)"

lemma rows_apart_simps [simp]: "rows_apart l xs xs" "rows_apart l xs (ys[l := r]) = rows_apart l xs ys"
  by (auto simp: rows_apart_def)

lemma rows_apart_trans: "rows_apart l xs ys \<Longrightarrow> rows_apart l ys zs \<Longrightarrow> rows_apart l xs zs"
  by (simp add: rows_apart_def)

definition res_apart :: "nat \<Rightarrow> residency \<Rightarrow> residency \<Rightarrow> bool" where
  "res_apart l r r' \<longleftrightarrow> rows_apart l (res_states r) (res_states r')"

definition ss_apart :: "nat \<Rightarrow> 'a summary_store \<Rightarrow> 'a summary_store \<Rightarrow> bool" where
  "ss_apart l ss ss' \<longleftrightarrow>
     rows_apart l (ss_summary ss) (ss_summary ss') \<and> ss_block_size ss' = ss_block_size ss \<and> ss_in_range ss' = ss_in_range ss"

definition cs_apart :: "nat \<Rightarrow> 'a cpu_store \<Rightarrow> 'a cpu_store \<Rightarrow> bool" where
  "cs_apart l cs cs' \<longleftrightarrow>
     rows_apart l (cs_k cs) (cs_k cs') \<and> rows_apart l (cs_v cs) (cs_v cs') \<and> rows_apart l (cs_free cs) (cs_free cs') \<and>
     cs_blocks_per_layer cs' = cs_blocks_per_layer cs"

lemma apart_refl [simp]: "res_apart l r r" "ss_apart l ss ss" "cs_apart l cs cs"
  by (simp_all add: res_apart_def ss_apart_def cs_apart_def)

lemma apart_trans:
  "res_apart l r r' \<Longrightarrow> res_apart l r' r'' \<Longrightarrow> res_apart l r r''"
  "ss_apart l ss ss' \<Longrightarrow> ss_apart l ss' ss'' \<Longrightarrow> ss_apart l ss ss''"
  "cs_apart l cs cs' \<Longrightarrow> cs_apart l cs' cs'' \<Longrightarrow> cs_apart l cs cs''"
  by (auto simp: res_apart_def ss_apart_def cs_apart_def intro: rows_apart_trans)

text \<open>Every method of the stores that takes a layer writes the row of that layer.\<close>

lemma cs_writes_row:
  "cs_alloc cs l = Inr (c, cs') \<Longrightarrow> cs_apart l cs cs'"
  "cs_release cs l c = Inr cs' \<Longrightarrow> cs_apart l cs cs'"
  "store_block cs l c k v = Inr cs' \<Longrightarrow> cs_apart l cs cs'"
  "load_block cs l c k v = Inr (kv, cs') \<Longrightarrow> cs_apart l cs cs'"
  "cs_apart l cs (count_store cs') = cs_apart l cs cs'"
  by (auto simp: cs_apart_def cs_alloc_def cs_release_def store_block_def cs_put_def load_block_def count_store_def count_load_def
      split: if_splits)

lemma res_writes_row:
  "mark_on_gpu r l b = Inr r' \<Longrightarrow> res_apart l r r'" "begin_evict r l b = Inr r' \<Longrightarrow> res_apart l r r'"
  "complete_evict r l b = Inr r' \<Longrightarrow> res_apart l r r'" "begin_load r l b = Inr r' \<Longrightarrow> res_apart l r r'"
  "complete_load r l b = Inr r' \<Longrightarrow> res_apart l r r'"
  by (auto simp: res_apart_def res_write_def mark_on_gpu_def begin_evict_def complete_evict_def begin_load_def complete_load_def
      split: if_splits)

lemma ss_writes_row: "ss_on_block_filled ops ss l b k = Inr ss' \<Longrightarrow> ss_apart l ss ss'"
  by (auto simp: ss_apart_def ss_on_block_filled_def ss_in_range_def nth_list_update fun_eq_iff split: if_splits)

section \<open>The operations of a tier manager\<close>

definition same_shape :: "('q, 'a) tier \<Rightarrow> ('q, 'a) tier \<Rightarrow> bool" where
  "same_shape t t' \<longleftrightarrow>
     layer_idx t' = layer_idx t \<and> cs_apart (layer_idx t) (cpu_store t) (cpu_store t') \<and>
     ss_apart (layer_idx t) (summary_store t) (summary_store t') \<and> res_apart (layer_idx t) (residency t) (residency t') \<and>
     active_seqs t' = active_seqs t"

lemma same_shapeD:
  assumes "same_shape t t'"
  shows "cs_blocks_per_layer (cpu_store t') = cs_blocks_per_layer (cpu_store t)"
    "ss_in_range (summary_store t') = ss_in_range (summary_store t)" "active_seqs t' = active_seqs t" "layer_idx t' = layer_idx t"
  using assms by (simp_all add: same_shape_def cs_apart_def ss_apart_def)

lemma same_shape_refl [simp]: "same_shape t t"
  by (simp add: same_shape_def)

lemma same_shape_trans [trans]: "same_shape t u \<Longrightarrow> same_shape u w \<Longrightarrow> same_shape t w"
  by (auto simp: same_shape_def intro: apart_trans)

lemma same_shape_upd [simp]:
  "same_shape t (u\<lparr>slot_map := m\<rparr>) = same_shape t u"
  "same_shape t (u\<lparr>stats := st\<rparr>) = same_shape t u" "same_shape t (u\<lparr>cpu_slots := d\<rparr>) = same_shape t u"
  "same_shape t (u\<lparr>host_slots := d\<rparr>) = same_shape t u" "same_shape t (u\<lparr>gpu_k := k\<rparr>) = same_shape t u"
  "same_shape t (u\<lparr>gpu_v := k\<rparr>) = same_shape t u" "same_shape t (u\<lparr>stream_pool := p\<rparr>) = same_shape t u"
  "same_shape t (u\<lparr>trimmed := T\<rparr>) = same_shape t u" "same_shape t (u\<lparr>selected_log := g\<rparr>) = same_shape t u"
  "same_shape (t\<lparr>stats := st\<rparr>) u = same_shape t u" "same_shape (t\<lparr>slot_map := m\<rparr>) u = same_shape t u"
  "same_shape (t\<lparr>trimmed := T\<rparr>) u = same_shape t u" "same_shape (t\<lparr>selected_log := g\<rparr>) u = same_shape t u"
  by (simp_all add: same_shape_def)

lemma same_shape_cpu: "cs_apart (layer_idx u) (cpu_store u) cs \<Longrightarrow> same_shape u (u\<lparr>cpu_store := cs\<rparr>)"
  by (simp add: same_shape_def)

lemma residency_shape:
  "tm_residency mark_on_gpu t b = Inr t' \<Longrightarrow> same_shape t t'" "tm_residency begin_evict t b = Inr t' \<Longrightarrow> same_shape t t'"
  "tm_residency complete_evict t b = Inr t' \<Longrightarrow> same_shape t t'" "tm_residency begin_load t b = Inr t' \<Longrightarrow> same_shape t t'"
  "tm_residency complete_load t b = Inr t' \<Longrightarrow> same_shape t t'"
  by (auto simp: tm_residency_def same_shape_def dest: res_writes_row)

lemma write_shape:
  "write_arena t s k v = Inr t' \<Longrightarrow> same_shape t t'" "write_arena_prefix t s n k v = Inr t' \<Longrightarrow> same_shape t t'"
  "write_arena_row t s i kt vt = Inr t' \<Longrightarrow> same_shape t t'"
  by (auto simp: write_arena_def write_arena_prefix_def write_arena_row_def)

lemma store_from_shape: "store_from t c src = Inr t' \<Longrightarrow> same_shape t t'"
  by (auto simp: store_from_def same_shape_cpu cs_writes_row split: option.splits)

lemma mirror_shape:
  assumes "mirror_to_host t q b src = Inr t'"
  shows "same_shape t t'"
proof (cases "od_has (host_slots t) (q, b)")
  case False
  with assms obtain c cs where c: "cs_alloc (cpu_store t) (layer_idx t) = Inr (c, cs)"
    "store_from (t\<lparr>cpu_store := cs, host_slots := AList.update (q, b) c (host_slots t)\<rparr>) c src = Inr t'"
    by (auto simp: mirror_to_host_def)
  have "same_shape t (t\<lparr>cpu_store := cs, host_slots := AList.update (q, b) c (host_slots t)\<rparr>)"
    using cs_writes_row(1) [OF c(1)] by (simp add: same_shape_cpu)
  then show ?thesis using store_from_shape [OF c(2)] by (rule same_shape_trans)
qed (use assms in \<open>simp add: mirror_to_host_def\<close>)

lemma spill_to_cpu_shape:
  assumes "spill_to_cpu t q b slot = Inr t'"
  shows "same_shape t t'"
proof -
  from assms obtain c cs t1 t2 t3 where s: "cs_alloc (cpu_store t) (layer_idx t) = Inr (c, cs)"
      "tm_residency begin_evict (t\<lparr>cpu_store := cs\<rparr>) b = Inr t1" "store_from t1 c (Arena (layer_idx t1) slot) = Inr t2"
      "tm_residency complete_evict (if stream_pool t2 = None \<and> enable_event_timing t2
         then t2\<lparr>stats := stats t2\<lparr>evict_stall_events := Suc (evict_stall_events (stats t2))\<rparr>\<rparr> else t2) b = Inr t3"
      "same_shape t3 t'"
    by (auto simp: spill_to_cpu_def Let_def)
  have "same_shape t (t\<lparr>cpu_store := cs\<rparr>)" using cs_writes_row(1) [OF s(1)] by (rule same_shape_cpu)
  also note residency_shape(2) [OF s(2)]
  also note store_from_shape [OF s(3)]
  also have "same_shape t2 t3" using residency_shape(3) [OF s(4)] by (auto split: if_splits)
  also note s(5)
  finally show ?thesis .
qed

lemma spill_hook_shape: "spill_hook t v slot = Inr t' \<Longrightarrow> same_shape t t'"
  by (auto simp: spill_hook_def drop_gpu_slot_def split: if_splits dest!: residency_shape
      intro: spill_to_cpu_shape same_shape_trans)

lemma claim_slot_shape: "claim_slot t k prot = Inr (slot, t') \<Longrightarrow> same_shape t t'"
  by (auto simp: claim_slot_def Let_def dest!: spill_hook_shape split: option.splits)

lemma claim_free_shape: "claim_free_slot t k = Inr (slot, t') \<Longrightarrow> same_shape t t'"
  by (auto simp: claim_free_slot_def)

lemma register_shape:
  assumes "register_prefill_summary ops t q b k = Inr t'"
  shows "same_shape t t'"
  using assms by (auto simp: register_prefill_summary_def same_shape_def dest: ss_writes_row)

lemma append_shape:
  assumes "append_decode_token_kvshare ops t q n kt vt bs = Inr t'"
  shows "same_shape t t'"
proof -
  let ?b = "n div bs" and ?o = "n mod bs"
  from assms obtain slot t1 t2 t3 where s: "claim_slot t (q, ?b) {} = Inr (slot, t1)"
      "write_arena_row t1 slot ?o kt vt = Inr t2" "tm_residency mark_on_gpu t2 ?b = Inr t3"
      "(if ?o = bs - 1 then
          chain (src_block t3 (Arena (layer_idx t3) slot)) (\<lambda>(k, v).
          chain (register_prefill_summary ops t3 q ?b k) (\<lambda>t.
          let t = t\<lparr>stats := stats t\<lparr>block_filled := Suc (block_filled (stats t))\<rparr>\<rparr>
          in if enable_write_through t
             then mirror_to_host t q ?b (Arena (layer_idx t) slot) else Inr t))
        else Inr t3) = Inr t'"
    by (auto simp: append_decode_token_kvshare_def Let_def)
  note claim_slot_shape [OF s(1)]
  also note write_shape(3) [OF s(2)]
  also note residency_shape(1) [OF s(3)]
  also have "same_shape t3 t'"
    using s(4) by (auto simp: Let_def split: if_splits dest!: register_shape mirror_shape intro: same_shape_trans)
  finally show ?thesis .
qed

lemma offload_block_shape:
  assumes "offload_block t q b k v = Inr t'"
  shows "same_shape t t'"
proof (cases "enable_write_through t")
  case True
  then show ?thesis
    using assms by (auto simp: offload_block_def dest!: mirror_shape residency_shape intro: same_shape_trans)
next
  case False
  with assms obtain c cs cs' t1 t2 where s: "cs_alloc (cpu_store t) (layer_idx t) = Inr (c, cs)"
      "store_block cs (layer_idx t) c k v = Inr cs'"
      "tm_residency begin_evict (t\<lparr>cpu_store := cs', cpu_slots := AList.update (q, b) c (cpu_slots t)\<rparr>) b = Inr t1"
      "tm_residency complete_evict t1 b = Inr t2" "same_shape t2 t'"
    by (auto simp: offload_block_def Let_def)
  have "same_shape t (t\<lparr>cpu_store := cs', cpu_slots := AList.update (q, b) c (cpu_slots t)\<rparr>)"
    using apart_trans(3) [OF cs_writes_row(1) [OF s(1)] cs_writes_row(3) [OF s(2)]] by (simp add: same_shape_cpu)
  also note residency_shape(2) [OF s(3)]
  also note residency_shape(3) [OF s(4)]
  also note s(5)
  finally show ?thesis .
qed

lemma ingest_block_shape: "ingest_block ops q lo key val bs b t = Inr t' \<Longrightarrow> same_shape t t'"
  by (auto simp: ingest_block_def Let_def split: if_splits
      dest!: register_shape claim_free_shape write_shape(1) residency_shape(1) mirror_shape offload_block_shape)
    (blast intro: same_shape_trans)+

lemma prefill_ingest_shape:
  assumes "prefill_ingest_kvshare ops t q n key val bs len = Inr t'"
  shows "same_shape t t'"
proof (cases "q \<in> trimmed t")
  case True
  then show ?thesis using assms by (simp add: prefill_ingest_kvshare_def)
next
  case False
  let ?t = "t\<lparr>trimmed := insert q (trimmed t)\<rparr>"
  obtain lo u where u: "for_each [0..<n] (ingest_block ops q lo key val bs) ?t = Inr u"
      "(case len of None \<Rightarrow> Inr u | Some m \<Rightarrow> ingest_rest q n key val m bs u) = Inr t'"
    using assms unfolding prefill_ingest_kvshare_def Let_def if_not_P [OF False] chain_eq_Inr ingest_rest_def by blast
  have "same_shape u t'"
    using u(2) by (auto simp: ingest_rest_def Let_def split: option.splits if_splits
        dest!: claim_slot_shape write_shape(2) residency_shape(1) intro: same_shape_trans)
  have "same_shape ?t u"
    by (rule for_each_inv [OF u(1)]) (auto dest: ingest_block_shape intro: same_shape_trans)
  then have "same_shape t u" by simp
  then show ?thesis using \<open>same_shape u t'\<close> by (rule same_shape_trans)
qed

lemma touch_one_shape: "touch_one q b t = Inr t' \<Longrightarrow> same_shape t t'"
  by (auto simp: touch_one_def split: if_splits)

lemma take_backup_shape: "take_backup t k = Inr (c, t') \<Longrightarrow> same_shape t t'"
  by (auto simp: take_backup_def split: if_splits option.splits)

lemma load_into_shape: "load_into t c s = Inr t' \<Longrightarrow> same_shape t t'"
  by (auto simp: load_into_def same_shape_def dest: cs_writes_row(4))

lemma ensure_one_shape:
  assumes "ensure_one_sync q b t = Inr t'"
  shows "same_shape t t'"
proof (cases "sm_contains (slot_map t) (q, b)")
  case True
  then show ?thesis using assms by (auto simp: ensure_one_sync_def ensure_one_def Let_def)
next
  case False
  with assms obtain c t1 slot t2 t3 t4 t5 t6 where s: "take_backup t (q, b) = Inr (c, t1)"
      "claim_slot t1 (q, b) (protected_keys t1 q) = Inr (slot, t2)" "tm_residency begin_load t2 b = Inr t3"
      "load_into t3 c slot = Inr t4"
      "(if enable_write_through t4 then Inr t4
        else chain (cs_release (cpu_store t4) (layer_idx t4) c) (\<lambda>cs. Inr (t4\<lparr>cpu_store := cs\<rparr>))) = Inr t5"
      "tm_residency complete_load t5 b = Inr t6" "t' = t6\<lparr>stats := stats t6\<lparr>load_h2d := Suc (load_h2d (stats t6))\<rparr>\<rparr>"
    unfolding ensure_one_sync_def ensure_one_def Let_def if_not_P [OF False] chain_eq_Inr split_paired_Ex prod.case
    by (elim exE conjE) (rule that, assumption+, simp)
  note take_backup_shape [OF s(1)]
  also note claim_slot_shape [OF s(2)]
  also note residency_shape(4) [OF s(3)]
  also note load_into_shape [OF s(4)]
  also have "same_shape t4 t5" using s(5) by (auto split: if_splits dest: cs_writes_row(2) intro: same_shape_cpu)
  also note residency_shape(5) [OF s(6)]
  also have "same_shape t6 t'" by (simp add: s(7))
  finally show ?thesis .
qed

lemma for_each_shape:
  assumes "for_each xs f t = Inr t'" "\<And>x t t'. f x t = Inr t' \<Longrightarrow> same_shape t t'"
  shows "same_shape t t'"
  by (rule for_each_inv [OF assms(1)]) (auto dest: assms(2) intro: same_shape_trans)

lemma ensure_resident_shape:
  fixes t :: "('a, 'b) tier"
  assumes "ensure_resident t q ids keep = Inr (ev, t')" "stream_pool t = None"
  shows "same_shape t t'"
proof -
  from assms(1) obtain u where u: "touch_resident t q ids keep = Inr u" by (auto simp: ensure_resident_def)
  then obtain w where w: "for_each keep (touch_one q) t = Inr w" "for_each ids (touch_one q) w = Inr u"
    by (auto simp: touch_resident_def)
  have tu: "same_shape t u"
    using for_each_shape [OF w(1) touch_one_shape] for_each_shape [OF w(2) touch_one_shape] by (rule same_shape_trans)
  have step: "stream_pool t1 = None" if "stream_pool t0 = None" "touch_one q b t0 = Inr t1" for b and t0 t1 :: "('a, 'b) tier"
    using that by (auto simp: touch_one_def split: if_splits)
  have "stream_pool w = None" by (rule for_each_inv [OF w(1), of "\<lambda>t. stream_pool t = None"]) (use assms(2) step in auto)
  then have "stream_pool u = None"
    by (intro for_each_inv [OF w(2), of "\<lambda>t. stream_pool t = None"]) (use step in auto)
  with assms(1) have E: "chain (if enable_event_timing u then timed_ensure_sync u q ids
      else for_each ids (ensure_one_sync q) u) (\<lambda>t. Inr (None, t)) = Inr (ev, t')"
    unfolding ensure_resident_def u chain_Inr by (simp only: option.case)
  have "\<exists>v. for_each ids (ensure_one_sync q) u = Inr v \<and> same_shape v t'"
  proof (cases "enable_event_timing u")
    case True
    then have "timed_ensure_sync u q ids = Inr t'" using E by simp
    then show ?thesis by (cases "for_each ids (ensure_one_sync q) u") (auto simp: timed_ensure_sync_def split: if_splits)
  next
    case False
    then show ?thesis using E by simp
  qed
  then obtain v where v: "for_each ids (ensure_one_sync q) u = Inr v" "same_shape v t'" by blast
  note tu
  also note for_each_shape [OF v(1) ensure_one_shape]
  also note v(2)
  finally show ?thesis .
qed

end
