(* ===== verification/Quest_Config.thy ===== *)
theory Quest_Config
  imports Py_Prelude
begin

text \<open>
  The two configurations of the sparse backend (\<^verbatim>\<open>config/arkvale.py\<close> and
  \<^verbatim>\<open>config/quest.py\<close>), their validation, the sizing of the host pool, and the checks the
  backend makes before it binds (\<^verbatim>\<open>quest/compatibility.py\<close>,
  \<open>validate_quest_configuration\<close> of \<^verbatim>\<open>quest/backend.py\<close>). The quest configuration has
  the fields of the arkvale one and two more. The \<open>isinstance\<close> checks of \<open>validate\<close> hold by
  the types of the fields.
\<close>

section \<open>Configurations\<close>

record arkvale_config =
  qc_enabled :: bool
  qc_backend_name :: string
  qc_block_size :: int
  qc_top_k :: int
  qc_full_kv_layers :: "int list"
  qc_digest_mode :: string
  qc_gpu_cache_blocks_per_seq :: int
  qc_cpu_cache_blocks :: int
  qc_cpu_cache_gib :: "int option"
  qc_eviction_policy :: string
  qc_enable_write_through :: bool
  qc_footprint_kvshare :: bool
  qc_enable_async_prefetch :: bool
  qc_enable_double_buffering :: bool
  qc_num_h2d_streams :: int
  qc_num_d2h_streams :: int
  qc_prefetch_window_blocks :: int
  qc_selection_impl :: string
  qc_enable_debug_counters :: bool
  qc_unsupported_model_policy :: string

record quest_config = arkvale_config +
  qc_block_ordering :: string
  qc_prefetch_touch :: bool

text \<open>The defaults of the fields.\<close>

definition arkvale_defaults :: arkvale_config where
  "arkvale_defaults =
     \<lparr>qc_enabled = False, qc_backend_name = ''ARKVALE_SPARSE_OFFLOAD'', qc_block_size = 32, qc_top_k = 64,
      qc_full_kv_layers = [0, 1], qc_digest_mode = ''arkvale_cuboid_mean'', qc_gpu_cache_blocks_per_seq = 256,
      qc_cpu_cache_blocks = 65536, qc_cpu_cache_gib = None, qc_eviction_policy = ''lru'',
      qc_enable_write_through = False, qc_footprint_kvshare = False, qc_enable_async_prefetch = False,
      qc_enable_double_buffering = False, qc_num_h2d_streams = 1, qc_num_d2h_streams = 1,
      qc_prefetch_window_blocks = 0, qc_selection_impl = ''torch'', qc_enable_debug_counters = False,
      qc_unsupported_model_policy = ''error''\<rparr>"

definition quest_defaults :: quest_config where
  "quest_defaults =
     arkvale_config.extend (arkvale_defaults\<lparr>qc_backend_name := ''QUEST_SPARSE_OFFLOAD'', qc_digest_mode := ''quest_minmax''\<rparr>)
       \<lparr>qc_block_ordering = ''lru'', qc_prefetch_touch = False\<rparr>"

text \<open>\<open>ArkValeConfig.validate\<close>; \<open>QuestConfig.validate\<close> begins with the same checks.\<close>

definition arkvale_validate :: "'z arkvale_config_scheme \<Rightarrow> unit result" where
  "arkvale_validate c =
     chain (guard (\<not> qc_top_k c \<le> 0) ValueError) (\<lambda>_.
     chain (guard (\<not> qc_gpu_cache_blocks_per_seq c < qc_top_k c) ValueError) (\<lambda>_.
     chain (guard (\<not> qc_block_size c \<le> 0) ValueError) (\<lambda>_.
     chain (guard (\<not> qc_cpu_cache_blocks c < 0) ValueError) (\<lambda>_.
     chain (guard (case qc_cpu_cache_gib c of None \<Rightarrow> True | Some gib \<Rightarrow> \<not> gib \<le> 0) ValueError) (\<lambda>_.
     chain (guard (qc_eviction_policy c \<in> {''lru'', ''arc''}) ValueError) (\<lambda>_.
     chain (guard (qc_selection_impl c \<in> {''torch'', ''triton'', ''cuda''}) ValueError) (\<lambda>_.
     chain (guard (qc_unsupported_model_policy c \<in> {''error'', ''fallback''}) ValueError) (\<lambda>_.
     chain (guard (qc_digest_mode c \<in> {''quest_minmax'', ''arkvale_cuboid_mean''}) ValueError) (\<lambda>_.
     chain (guard (\<not> qc_prefetch_window_blocks c < 0) ValueError) (\<lambda>_.
       guard (\<not> (0 < qc_prefetch_window_blocks c \<and> \<not> qc_enable_async_prefetch c)) ValueError))))))))))"

text \<open>The window after the back-fill: \<open>prefetch_window_blocks or top_k\<close>.\<close>

definition eff_window :: "'z arkvale_config_scheme \<Rightarrow> int \<Rightarrow> int" where
  "eff_window c top_k = (if qc_prefetch_window_blocks c \<noteq> 0 then qc_prefetch_window_blocks c else top_k)"

definition quest_validate :: "quest_config \<Rightarrow> unit result" where
  "quest_validate c =
     chain (arkvale_validate c) (\<lambda>_.
     chain (guard (qc_block_ordering c \<in> {''lru'', ''prefetch'', ''mixture''}) ValueError) (\<lambda>_.
     chain (if qc_block_ordering c \<in> {''prefetch'', ''mixture''} then
              chain (guard (qc_enable_async_prefetch c) ValueError) (\<lambda>_.
              chain (guard (\<not> eff_window c (qc_top_k c) \<le> 0) ValueError) (\<lambda>_.
                guard (\<not> qc_gpu_cache_blocks_per_seq c \<le> eff_window c (qc_top_k c)) ValueError))
            else Inr ()) (\<lambda>_.
       guard (\<not> (qc_prefetch_touch c \<and> qc_block_ordering c \<in> {''lru'', ''prefetch''})) ValueError)))"

text \<open>
  The two \<open>resolve_cpu_blocks_per_layer\<close> are the same code. The sizing arguments are given
  together or one of them is missing.
\<close>

definition resolve_cpu_blocks_per_layer ::
  "'z arkvale_config_scheme \<Rightarrow> int \<Rightarrow> int \<Rightarrow> int option \<Rightarrow> int option \<Rightarrow> int option \<Rightarrow> int result" where
  "resolve_cpu_blocks_per_layer c page_size_bytes num_quest_layers max_model_len max_num_seqs block_size =
     (if num_quest_layers \<le> 0 then Inr 0
      else
        chain (case qc_cpu_cache_gib c of
                 None \<Rightarrow> Inr (qc_cpu_cache_blocks c)
               | Some gib \<Rightarrow>
                   chain (guard (page_size_bytes \<noteq> 0) ZeroDivisionError) (\<lambda>_.
                     Inr (min (qc_cpu_cache_blocks c) (gib * 1024 ^ 3 div page_size_bytes div num_quest_layers))))
          (\<lambda>ceiling.
             case (max_model_len, max_num_seqs, block_size) of
               (Some len, Some seqs, Some bs) \<Rightarrow>
                 chain (guard (bs \<noteq> 0) ZeroDivisionError) (\<lambda>_.
                   let need = - (- len div bs) * seqs
                   in if ceiling < need
                      then if qc_enable_write_through c then Inl RuntimeError else Inr ceiling
                      else Inr need)
             | _ \<Rightarrow> Inr ceiling))"

text \<open>
  \<open>get_active_sparse_cfg\<close>: an arkvale configuration is handed to the backend, which reads
  the two quest fields with \<open>getattr\<close> and their defaults.
\<close>

definition as_quest :: "arkvale_config \<Rightarrow> quest_config" where
  "as_quest c = arkvale_config.extend c \<lparr>qc_block_ordering = ''lru'', qc_prefetch_touch = False\<rparr>"

definition get_active_sparse_cfg :: "arkvale_config option \<Rightarrow> quest_config option \<Rightarrow> quest_config option" where
  "get_active_sparse_cfg arkvale quest =
     (case arkvale of
        Some a \<Rightarrow> if qc_enabled a then Some (as_quest a) else
          (case quest of Some q \<Rightarrow> if qc_enabled q then Some q else None | None \<Rightarrow> None)
      | None \<Rightarrow> (case quest of Some q \<Rightarrow> if qc_enabled q then Some q else None | None \<Rightarrow> None))"

section \<open>Compatibility\<close>

record model_config =
  mc_architecture :: "string option"
  mc_is_mla :: bool
  mc_has_sliding_window :: bool

record cache_config =
  cc_block_size :: int
  cc_enable_prefix_caching :: bool

text \<open>The reasons, one constructor for each message.\<close>

datatype config_error =
    No_architecture
  | Unsupported_architecture string
  | Mla_model
  | Sliding_window_model
  | Block_size_not_256
  | Kvshare_with_prefix_caching
  | Top_k_too_large

text \<open>\<open>str.lower\<close> on ASCII letters and \<open>str.removesuffix\<close>.\<close>

definition ascii_lower :: "string \<Rightarrow> string" where
  "ascii_lower = map (\<lambda>c. if 65 \<le> (of_char c :: nat) \<and> (of_char c :: nat) \<le> 90 then char_of ((of_char c :: nat) + 32) else c)"

definition remove_suffix :: "string \<Rightarrow> string \<Rightarrow> string" where
  "remove_suffix suffix s =
     (if suffix \<noteq> [] \<and> length suffix \<le> length s \<and> drop (length s - length suffix) s = suffix
      then take (length s - length suffix) s else s)"

definition check_model_compat :: "model_config \<Rightarrow> config_error list" where
  "check_model_compat m =
     (case mc_architecture m of
        None \<Rightarrow> [No_architecture]
      | Some a \<Rightarrow>
          if remove_suffix ''forcausallm'' (ascii_lower a) \<in> {''llama'', ''mistral'', ''qwen2'', ''qwen2.5'', ''yi''}
          then [] else [Unsupported_architecture a]) @
     (if mc_is_mla m then [Mla_model] else []) @
     (if mc_has_sliding_window m then [Sliding_window_model] else [])"

definition validate_quest_configuration :: "model_config \<Rightarrow> cache_config \<Rightarrow> quest_config option \<Rightarrow> config_error list" where
  "validate_quest_configuration m cc quest =
     (case quest of
        None \<Rightarrow> []
      | Some c \<Rightarrow>
          if \<not> qc_enabled c then []
          else
            (if cc_block_size cc mod 256 \<noteq> 0 then [Block_size_not_256] else []) @
            (if qc_footprint_kvshare c \<and> cc_enable_prefix_caching cc then [Kvshare_with_prefix_caching] else []) @
            (if qc_gpu_cache_blocks_per_seq c - 1 < qc_top_k c then [Top_k_too_large] else []) @
            (if check_model_compat m \<noteq> [] \<and> qc_unsupported_model_policy c = ''error'' then check_model_compat m else []))"

section \<open>Properties\<close>

lemma arkvale_validD:
  assumes "arkvale_validate c = Inr ()"
  shows "0 < qc_top_k c" "qc_top_k c \<le> qc_gpu_cache_blocks_per_seq c" "0 < qc_block_size c" "0 \<le> qc_cpu_cache_blocks c"
    "qc_cpu_cache_gib c = Some gib \<Longrightarrow> 0 < gib" "0 \<le> qc_prefetch_window_blocks c"
  using assms by (auto simp: arkvale_validate_def)

lemma quest_validD:
  assumes "quest_validate c = Inr ()"
  shows "arkvale_validate c = Inr ()" "qc_block_ordering c \<in> {''lru'', ''prefetch'', ''mixture''}"
    "qc_block_ordering c \<noteq> ''lru'' \<Longrightarrow> qc_enable_async_prefetch c"
    "qc_block_ordering c \<noteq> ''lru'' \<Longrightarrow> eff_window c (qc_top_k c) < qc_gpu_cache_blocks_per_seq c"
  using assms by (auto simp: quest_validate_def split: if_splits)

text \<open>The number of blocks of a sequence, rounded up, and what it covers.\<close>

lemma cdiv_covers: "0 < bs \<Longrightarrow> len \<le> - (- len div bs) * (bs :: int)"
  using div_mult_mod_eq [of "- len" bs] pos_mod_sign [of bs "- len"] by linarith

lemma div_times_le: "0 < d \<Longrightarrow> a div d * d \<le> (a :: int)"
  using div_mult_mod_eq [of a d] pos_mod_sign [of d a] by linarith

lemma gib_budget:
  assumes "0 < page" "0 < layers" "n \<le> budget div page div (layers :: int)" "0 \<le> n"
  shows "n * page * layers \<le> budget"
proof -
  have "n * layers \<le> budget div page div layers * layers" using assms by (intro mult_right_mono) auto
  also have "\<dots> \<le> budget div page" using assms(2) by (rule div_times_le)
  finally have "n * layers * page \<le> budget div page * page" using assms(1) by (intro mult_right_mono) auto
  also have "\<dots> \<le> budget" using assms(1) by (rule div_times_le)
  finally show ?thesis by (simp add: ac_simps)
qed

text \<open>
  The host pool that a validated configuration resolves to is not negative, never
  exceeds the block ceiling, never exceeds the byte budget over all layers when one is set,
  and under write-through holds every block of every concurrent sequence of full length.
\<close>

theorem resolved_pool_bounds:
  assumes "arkvale_validate c = Inr ()" "0 < page" "0 < layers" "0 \<le> len" "0 \<le> seqs" "0 < bs"
    and "resolve_cpu_blocks_per_layer c page layers (Some len) (Some seqs) (Some bs) = Inr n"
  shows "0 \<le> n \<and> n \<le> qc_cpu_cache_blocks c \<and>
    (\<forall>gib. qc_cpu_cache_gib c = Some gib \<longrightarrow> n * page * layers \<le> gib * 1024 ^ 3) \<and>
    (qc_enable_write_through c \<longrightarrow> len * seqs \<le> n * bs)"
proof -
  define cap where "cap = (case qc_cpu_cache_gib c of None \<Rightarrow> qc_cpu_cache_blocks c
    | Some gib \<Rightarrow> min (qc_cpu_cache_blocks c) (gib * 1024 ^ 3 div page div layers))"
  define need where "need = - (- len div bs) * seqs"
  note V = arkvale_validD [OF assms(1)]
  have n: "n = (if cap < need then cap else need)" "qc_enable_write_through c \<Longrightarrow> need \<le> cap"
    using assms(2,3,6,7)
    by (auto simp: resolve_cpu_blocks_per_layer_def cap_def need_def Let_def split: option.splits if_splits)
  have "- len div bs \<le> 0" using assms(4,6) by (simp add: div_nonpos_pos_le0)
  then have pos: "0 \<le> need" using assms(5) by (simp add: need_def mult_nonpos_nonneg)
  have "0 \<le> cap" using V(4,5) assms(2,3) by (auto simp: cap_def pos_imp_zdiv_nonneg_iff split: option.split)
  with pos n(1) have n0: "0 \<le> n" "n \<le> cap" by auto
  have "n * page * layers \<le> gib * 1024 ^ 3" if "qc_cpu_cache_gib c = Some gib" for gib
    using gib_budget [OF assms(2,3) _ n0(1), of "gib * 1024 ^ 3"] n0(2) that by (simp add: cap_def)
  moreover have "len * seqs \<le> n * bs" if "qc_enable_write_through c"
  proof -
    have "len * seqs \<le> - (- len div bs) * bs * seqs" using cdiv_covers [OF assms(6)] assms(5) by (rule mult_right_mono)
    then show ?thesis using n that by (simp add: need_def ac_simps)
  qed
  moreover have "cap \<le> qc_cpu_cache_blocks c" by (auto simp: cap_def split: option.split)
  ultimately show ?thesis using n0 by auto
qed

theorem resolved_pool_bounds_witness:
  "resolve_cpu_blocks_per_layer (arkvale_defaults\<lparr>qc_cpu_cache_gib := Some 1, qc_enable_write_through := True\<rparr>)
     1048576 26 (Some 1000) (Some 1) (Some 256) = Inr 4 \<and> 4 * 1048576 * 26 \<le> (1024 ^ 3 :: int) \<and> 1000 * 1 \<le> (4 * 256 :: int)"
  using resolved_pool_bounds [of "arkvale_defaults\<lparr>qc_cpu_cache_gib := Some 1, qc_enable_write_through := True\<rparr>" 1048576 26 1000 1 256 4]
  by (simp add: arkvale_validate_def arkvale_defaults_def resolve_cpu_blocks_per_layer_def Let_def)

text \<open>
  With \<open>unsupported_model_policy='fallback'\<close> the checks before binding accept a model
  of any architecture: nothing refuses the sparse backend for it.
\<close>

theorem fallback_accepts_unsupported_model:
  "validate_quest_configuration \<lparr>mc_architecture = Some ''GPTNeoXForCausalLM'', mc_is_mla = True, mc_has_sliding_window = True\<rparr>
     \<lparr>cc_block_size = 256, cc_enable_prefix_caching = False\<rparr>
     (Some (quest_defaults\<lparr>qc_enabled := True, qc_unsupported_model_policy := ''fallback''\<rparr>)) = [] \<and>
   check_model_compat \<lparr>mc_architecture = Some ''GPTNeoXForCausalLM'', mc_is_mla = True, mc_has_sliding_window = True\<rparr> =
     [Unsupported_architecture ''GPTNeoXForCausalLM'', Mla_model, Sliding_window_model]"
  by (simp add: validate_quest_configuration_def check_model_compat_def quest_defaults_def arkvale_defaults_def
      arkvale_config.defs) code_simp

end
