(* ===== verification/Quest_Step.thy ===== *)
theory Quest_Step
  imports Tier_Release Tier_Write Tier_Shape Quest_Config
begin

text \<open>
  The per-step orchestration of the sparse backend (\<^verbatim>\<open>quest/impl_helpers.py\<close>): what one
  forward pass of one layer does to the layer's tier manager. The selection function and
  the attention kernel are arguments; the CUDA waits between streams have no counterpart.
  The order in which Python iterates over a set is an argument as well.
\<close>

section \<open>Metadata and layers\<close>

text \<open>A stable key of a request: its id, or its position in a batch without ids.\<close>

datatype 'r seq_id = Rid 'r | Pos nat

record 'r quest_md =
  md_seq_lens :: "nat list"
  md_query_start_loc :: "nat list"
  md_slot_mapping :: "int list"
  md_num_actual_tokens :: nat
  md_max_query_len :: nat
  md_block_table :: "int list list"
  md_request_ids :: "'r list"
  md_quest_top_k :: int
  md_quest_layer_indices :: "int list"

text \<open>The attributes of an attention layer that the backend reads and writes.\<close>

record ('r, 'a) quest_layer =
  ql_layer_idx :: nat
  ql_tier_manager :: "('r seq_id, 'a) tier option"
  ql_config :: "quest_config option"
  ql_indices_view :: "nat list option"
  ql_kv_sharing_target :: "string option"
  ql_scratch_ptr :: "nat option"

definition seq_id_for :: "'r quest_md \<Rightarrow> nat \<Rightarrow> 'r seq_id" where
  "seq_id_for md i =
     (if md_request_ids md \<noteq> [] \<and> i < length (md_request_ids md) then Rid (md_request_ids md ! i) else Pos i)"

text \<open>\<open>tm.gpu_k.shape[1]\<close> of an arena with at least one block.\<close>

definition arena_block_size :: "('q, 'a) tier \<Rightarrow> nat" where
  "arena_block_size t = (case gpu_k t of [] \<Rightarrow> 0 | blk # _ \<Rightarrow> length blk)"

text \<open>Early return of a helper on a layer without a tier manager.\<close>

definition on_tier ::
  "(('r seq_id, 'a) tier \<Rightarrow> ('r seq_id, 'a) tier result) \<Rightarrow> ('r, 'a) quest_layer \<Rightarrow> ('r, 'a) quest_layer result" where
  "on_tier f l =
     (case ql_tier_manager l of
        None \<Rightarrow> Inr l
      | Some t \<Rightarrow> chain (f t) (\<lambda>t. Inr (l\<lparr>ql_tier_manager := Some t\<rparr>)))"

section \<open>Garbage collection\<close>

text \<open>The requests of the current batch; the others the manager knows have finished.\<close>

definition active_of :: "'r quest_md \<Rightarrow> 'r seq_id set" where
  "active_of md =
     set (map (\<lambda>i. if i < length (md_request_ids md) then Rid (md_request_ids md ! i) else Pos i)
            [0 ..< length (md_seq_lens md)])"

definition gc_finished ::
  "('r seq_id set \<Rightarrow> 'r seq_id list) \<Rightarrow> 'r quest_md \<Rightarrow> ('r seq_id, 'a) tier \<Rightarrow> ('r seq_id, 'a) tier result" where
  "gc_finished iter md t =
     chain (case active_seqs t of
              None \<Rightarrow> Inr t
            | Some prev \<Rightarrow> for_each (iter (prev - active_of md)) (\<lambda>old t. free_request t old) t)
       (\<lambda>t. Inr (t\<lparr>active_seqs := Some (active_of md)\<rparr>))"

section \<open>The engine-cache path\<close>

definition prefill_summaries ::
  "'a torch_ops \<Rightarrow> 'r quest_md \<Rightarrow> 'a list \<Rightarrow> nat \<Rightarrow> ('r seq_id, 'a) tier \<Rightarrow> ('r seq_id, 'a) tier result" where
  "prefill_summaries ops md key i t =
     (let bs = arena_block_size t
      in chain (py_nth (md_query_start_loc md) i) (\<lambda>beg.
         chain (py_nth (md_query_start_loc md) (i + 1)) (\<lambda>end.
           if int end - int beg < int bs then Inr t
           else chain (guard (bs \<noteq> 0) ZeroDivisionError) (\<lambda>_.
             for_each [0 ..< (end - beg) div bs] (\<lambda>b t.
               register_prefill_summary ops t (seq_id_for md i) b
                 (Tier_Manager.py_slice key (beg + b * bs) (beg + b * bs + bs))) t))))"

definition notify_filled_blocks_after_prefill ::
  "'a torch_ops \<Rightarrow> 'r quest_md \<Rightarrow> 'a list \<Rightarrow> ('r, 'a) quest_layer \<Rightarrow> ('r, 'a) quest_layer result" where
  "notify_filled_blocks_after_prefill ops md key l =
     on_tier (\<lambda>t.
       if take (md_num_actual_tokens md) (md_slot_mapping md) = [] then Inr t
       else for_each [0 ..< length (md_seq_lens md)] (prefill_summaries ops md key) t) l"

text \<open>One request of the decode bookkeeping: trim, filled block, live block.\<close>

definition decode_notify ::
  "'a torch_ops \<Rightarrow> 'r quest_md \<Rightarrow> ('a list \<times> 'a list) list \<Rightarrow> nat \<Rightarrow> ('r seq_id, 'a) tier \<Rightarrow>
   ('r seq_id, 'a) tier result" where
  "decode_notify ops md kv_cache i t =
     (let bs = arena_block_size t; sl = md_seq_lens md ! i; q = seq_id_for md i
      in chain (guard (bs \<noteq> 0) ZeroDivisionError) (\<lambda>_.
         chain (py_nth (md_block_table md) i) (\<lambda>row.
         chain (trim_to_working_set t q (sl div bs) kv_cache row) (\<lambda>t.
         chain (if sl \<noteq> 0 \<and> sl mod bs = 0
                then chain (py_nth row (sl div bs - 1)) (\<lambda>phys. chain (py_index kv_cache phys) (\<lambda>(k, v).
                     chain (tm_on_block_filled ops t q (sl div bs - 1) k v) (\<lambda>(_, t). Inr t)))
                else Inr t) (\<lambda>t.
           if sl mod bs \<noteq> 0
           then chain (py_nth row (sl div bs)) (\<lambda>phys. chain (py_index kv_cache phys) (\<lambda>(k, v).
                chain (write_live_block t q (sl div bs) k v) (\<lambda>(_, t). Inr t)))
           else Inr t)))))"

definition notify_filled_blocks_after_decode ::
  "('r seq_id set \<Rightarrow> 'r seq_id list) \<Rightarrow> 'a torch_ops \<Rightarrow> 'r quest_md \<Rightarrow> ('a list \<times> 'a list) list \<Rightarrow>
   ('r, 'a) quest_layer \<Rightarrow> ('r, 'a) quest_layer result" where
  "notify_filled_blocks_after_decode iter ops md kv_cache l =
     on_tier (\<lambda>t.
       chain (gc_finished iter md t) (\<lambda>t.
         for_each [0 ..< length (md_seq_lens md)] (decode_notify ops md kv_cache) t)) l"

section \<open>The shared scratch tensor\<close>

text \<open>
  \<open>_SCRATCH_OWNER\<close>: for each scratch tensor, by its address, the last layer that wrote it
  and whether that layer's offload is done.
\<close>

type_synonym scratch_owners = "nat \<rightharpoonup> nat \<times> bool"

text \<open>
  \<open>write\<close> is \<open>do_kv_cache_update\<close> of the slots of the step; the maximum of an empty tensor
  raises.
\<close>

definition kvshare_write_scratch ::
  "('kv \<Rightarrow> int list \<Rightarrow> 'kv) \<Rightarrow> 'r quest_md \<Rightarrow> nat \<Rightarrow> nat \<Rightarrow> scratch_owners \<times> ('r, 'a) quest_layer \<times> 'kv \<Rightarrow>
   (scratch_owners \<times> ('r, 'a) quest_layer \<times> 'kv) result" where
  "kvshare_write_scratch write md ptr scratch_slots s =
     (case s of (owners, l, kv) \<Rightarrow>
        let slots = take (md_num_actual_tokens md) (md_slot_mapping md)
        in chain (guard (slots \<noteq> []) RuntimeError) (\<lambda>_.
           chain (guard (Max (set slots) < int scratch_slots) AssertionError) (\<lambda>_.
           chain (guard (case owners ptr of None \<Rightarrow> True | Some (_, finished) \<Rightarrow> finished) AssertionError) (\<lambda>_.
             Inr (owners(ptr \<mapsto> (ql_layer_idx l, False)), l\<lparr>ql_scratch_ptr := Some ptr\<rparr>, write kv slots)))))"

definition offload_request ::
  "'a torch_ops \<Rightarrow> 'r quest_md \<Rightarrow> 'a list \<Rightarrow> 'a list \<Rightarrow> nat \<Rightarrow> ('r seq_id, 'a) tier \<Rightarrow> ('r seq_id, 'a) tier result" where
  "offload_request ops md key val i t =
     chain (py_nth (md_query_start_loc md) i) (\<lambda>beg.
     chain (py_nth (md_query_start_loc md) (i + 1)) (\<lambda>end.
       if end \<le> beg then Inr t
       else chain (guard (arena_block_size t \<noteq> 0) ZeroDivisionError) (\<lambda>_.
         prefill_ingest_kvshare ops t (seq_id_for md i) ((end - beg) div arena_block_size t)
           (Tier_Manager.py_slice key beg end) (Tier_Manager.py_slice val beg end) (arena_block_size t)
           (Some (end - beg)))))"

definition release_scratch :: "('r, 'a) quest_layer \<Rightarrow> scratch_owners \<Rightarrow> scratch_owners" where
  "release_scratch l owners =
     (case ql_scratch_ptr l of
        None \<Rightarrow> owners
      | Some ptr \<Rightarrow> (case owners ptr of None \<Rightarrow> owners | Some (w, _) \<Rightarrow> owners(ptr \<mapsto> (w, True))))"

definition kvshare_prefill_offload ::
  "('r seq_id set \<Rightarrow> 'r seq_id list) \<Rightarrow> 'a torch_ops \<Rightarrow> 'r quest_md \<Rightarrow> 'a list \<Rightarrow> 'a list \<Rightarrow>
   scratch_owners \<times> ('r, 'a) quest_layer \<Rightarrow> (scratch_owners \<times> ('r, 'a) quest_layer) result" where
  "kvshare_prefill_offload iter ops md key val s =
     (case s of (owners, l) \<Rightarrow>
        if ql_tier_manager l = None then Inr (owners, l)
        else chain (on_tier (\<lambda>t.
               chain (gc_finished iter md t) (\<lambda>t.
                 for_each [0 ..< length (md_seq_lens md)] (offload_request ops md key val) t)) l)
             (\<lambda>l. Inr (release_scratch l owners, l)))"

text \<open>
  The length of a request includes the token of the step, so it is at least one.
\<close>

definition decode_write ::
  "'a torch_ops \<Rightarrow> 'r quest_md \<Rightarrow> 'a list \<Rightarrow> 'a list \<Rightarrow> nat \<Rightarrow> ('r seq_id, 'a) tier \<Rightarrow> ('r seq_id, 'a) tier result" where
  "decode_write ops md key val i t =
     chain (py_nth key i) (\<lambda>k_tok. chain (py_nth val i) (\<lambda>v_tok.
       append_decode_token_kvshare ops t (seq_id_for md i) (md_seq_lens md ! i - 1) k_tok v_tok (arena_block_size t)))"

definition kvshare_decode_write ::
  "('r seq_id set \<Rightarrow> 'r seq_id list) \<Rightarrow> 'a torch_ops \<Rightarrow> 'r quest_md \<Rightarrow> 'a list \<Rightarrow> 'a list \<Rightarrow>
   ('r, 'a) quest_layer \<Rightarrow> ('r, 'a) quest_layer result" where
  "kvshare_decode_write iter ops md key val l =
     on_tier (\<lambda>t.
       chain (gc_finished iter md t) (\<lambda>t.
         for_each [0 ..< length (md_seq_lens md)] (decode_write ops md key val) t)) l"

section \<open>Cross-layer prefetch\<close>

definition next_quest_layer_idx :: "('r, 'a) quest_layer \<Rightarrow> nat option" where
  "next_quest_layer_idx l =
     (case ql_indices_view l of
        None \<Rightarrow> None
      | Some indices \<Rightarrow> (case filter (\<lambda>i. ql_layer_idx l < i) indices of [] \<Rightarrow> None | i # _ \<Rightarrow> Some i))"

definition prefetch_window :: "('r, 'a) quest_layer \<Rightarrow> int \<Rightarrow> int" where
  "prefetch_window l top_k =
     (case ql_config l of
        None \<Rightarrow> 0
      | Some c \<Rightarrow> if qc_block_ordering c = ''lru'' then 0 else min (eff_window c top_k) top_k)"

text \<open>
  The stores that all tier managers share by reference, handed from one manager to
  another.
\<close>

definition hand_on :: "('q, 'a) tier \<Rightarrow> ('q, 'a) tier \<Rightarrow> ('q, 'a) tier" where
  "hand_on t t' = t'\<lparr>summary_store := summary_store t, residency := residency t, cpu_store := cpu_store t,
     stream_pool := stream_pool t\<rparr>"

definition prefetch_request ::
  "'r quest_md \<Rightarrow> int \<Rightarrow> nat \<times> nat list \<Rightarrow> ('r seq_id, 'a) tier \<Rightarrow> ('r seq_id, 'a) tier result" where
  "prefetch_request md window iids t =
     (case iids of (i, top_ids) \<Rightarrow>
        let ids = take (nat window) top_ids
        in prefetch_top_ids (set_prev_selected t (seq_id_for md i) ids) (seq_id_for md i) ids)"

text \<open>The postamble, on the tier manager of the layer and the registry of the others.\<close>

definition prefetch_next ::
  "'r quest_md \<Rightarrow> ('r, 'a) quest_layer \<Rightarrow> int \<Rightarrow> nat list list \<Rightarrow>
   ('r seq_id, 'a) tier \<times> (nat \<rightharpoonup> ('r seq_id, 'a) tier) \<Rightarrow>
   (('r seq_id, 'a) tier \<times> (nat \<rightharpoonup> ('r seq_id, 'a) tier)) result" where
  "prefetch_next md l top_k per_req_top_ids s =
     (case s of (t, registry) \<Rightarrow>
        if stream_pool t = None then Inr s
        else case next_quest_layer_idx l of
               None \<Rightarrow> Inr s
             | Some j \<Rightarrow>
                 let window = prefetch_window l top_k
                 in if window \<le> 0 then Inr s
                    else case registry j of
                           None \<Rightarrow> Inr s
                         | Some nt \<Rightarrow>
                             chain (for_each (enumerate 0 per_req_top_ids) (prefetch_request md window) (hand_on t nt))
                               (\<lambda>nt. Inr (hand_on nt t, registry(j \<mapsto> nt))))"

section \<open>Sparse decode\<close>

text \<open>
  The preamble: events of prefetches into this layer are taken out of the pool. They are
  looked up under the index of the layer in the model.
\<close>

definition pop_prefetch_events :: "'r quest_md \<Rightarrow> nat \<Rightarrow> ('r seq_id, 'a) tier \<Rightarrow> ('r seq_id, 'a) tier" where
  "pop_prefetch_events md layer t =
     (case stream_pool t of
        None \<Rightarrow> t
      | Some p \<Rightarrow> t\<lparr>stream_pool := Some (fold (\<lambda>i p. snd (pop_prefetch_event p (seq_id_for md i) layer))
                                          [0 ..< length (md_seq_lens md)] p)\<rparr>)"

definition count_selected :: "'q \<Rightarrow> nat list \<Rightarrow> ('q, 'a) tier \<Rightarrow> ('q, 'a) tier" where
  "count_selected q top_ids t =
     (let t = record_selected t (select_calls (stats t) - 1) q top_ids
      in t\<lparr>stats := stats t\<lparr>selected_total := selected_total (stats t) + length top_ids,
             selected_on_gpu := selected_on_gpu (stats t) + count_resident t q top_ids\<rparr>\<rparr>)"

definition gather_slot :: "'q \<Rightarrow> nat \<Rightarrow> nat list \<times> ('q, 'a) tier \<Rightarrow> (nat list \<times> ('q, 'a) tier) result" where
  "gather_slot q b s =
     (case s of (slots, t) \<Rightarrow> chain (logical_to_slot t q b) (\<lambda>(slot, t). Inr (slots @ [slot], t)))"

text \<open>The live block of a sequence whose last block is partial.\<close>

definition live_ids :: "nat \<Rightarrow> nat \<Rightarrow> nat list" where
  "live_ids bs sl = (if sl mod bs \<noteq> 0 then [sl div bs] else [])"

text \<open>
  One request: score the full blocks, make the selection resident, gather its arena slots
  and the live block's, and call the kernel on the arena. \<open>select\<close> takes the query, the
  summaries of the layer, the candidates and the number to select; \<open>flash\<close> is
  \<open>flash_attn_with_kvcache\<close> with a block table of one row.
\<close>

definition attend_request ::
  "('w \<Rightarrow> ('a \<times> 'a) list \<Rightarrow> nat list \<Rightarrow> int \<Rightarrow> nat list result) \<Rightarrow>
   ('w \<Rightarrow> 'a list list \<Rightarrow> 'a list list \<Rightarrow> nat list \<Rightarrow> nat \<Rightarrow> 'o) \<Rightarrow> 'r quest_md \<Rightarrow> 'w list \<Rightarrow> nat \<Rightarrow>
   'o list \<times> nat list list \<times> ('r seq_id, 'a) tier \<Rightarrow> ('o list \<times> nat list list \<times> ('r seq_id, 'a) tier) result" where
  "attend_request select flash md query i s =
     (case s of (outs, selected, t) \<Rightarrow>
        let bs = arena_block_size t; sl = md_seq_lens md ! i; q = seq_id_for md i
        in chain (guard (bs \<noteq> 0) ZeroDivisionError) (\<lambda>_.
           chain (py_nth query i) (\<lambda>q_token.
           chain (py_nth (ss_summary (summary_store t)) (layer_idx t)) (\<lambda>summary_layer.
           chain (select q_token summary_layer [0 ..< sl div bs] (min (md_quest_top_k md) (int (sl div bs)))) (\<lambda>top_ids.
           chain (ensure_resident (count_selected q top_ids t) q top_ids (live_ids bs sl))
             (\<lambda>(_, t).
           chain (for_each (top_ids @ (live_ids bs sl)) (gather_slot q) ([], t))
             (\<lambda>(slots, t).
              Inr (outs @ [flash q_token (gpu_k t) (gpu_v t) slots (length top_ids * bs + sl mod bs)],
                   selected @ [top_ids], t))))))))"

definition run_sparse_decode ::
  "('w \<Rightarrow> ('a \<times> 'a) list \<Rightarrow> nat list \<Rightarrow> int \<Rightarrow> nat list result) \<Rightarrow>
   ('w \<Rightarrow> 'a list list \<Rightarrow> 'a list list \<Rightarrow> nat list \<Rightarrow> nat \<Rightarrow> 'o) \<Rightarrow> 'r quest_md \<Rightarrow> 'w list \<Rightarrow>
   ('r, 'a) quest_layer \<times> (nat \<rightharpoonup> ('r seq_id, 'a) tier) \<Rightarrow>
   ('o list \<times> ('r, 'a) quest_layer \<times> (nat \<rightharpoonup> ('r seq_id, 'a) tier)) result" where
  "run_sparse_decode select flash md query s =
     (case s of (l, registry) \<Rightarrow>
        case ql_tier_manager l of
          None \<Rightarrow> Inl AttributeError
        | Some t \<Rightarrow>
            let t = t\<lparr>stats := stats t\<lparr>select_calls := Suc (select_calls (stats t))\<rparr>\<rparr>;
                t = pop_prefetch_events md (ql_layer_idx l) t
            in chain (for_each [0 ..< length (md_seq_lens md)] (attend_request select flash md query) ([], [], t))
                 (\<lambda>(outs, selected, t).
               chain (guard (outs \<noteq> []) RuntimeError) (\<lambda>_.
               chain (prefetch_next md l (md_quest_top_k md) selected (t, registry)) (\<lambda>(t, registry).
                 Inr (outs, l\<lparr>ql_tier_manager := Some t\<rparr>, registry)))))"

end
