(* ===== verification/Quest_Decode.thy ===== *)
theory Quest_Decode
  imports Quest_Step
begin

text \<open>
  What one sparse decode attends to. For a tier that holds the tokens of its sequence the
  kernel is called on the tokens of the selected blocks, in the order of the selection,
  followed by the tokens of the live block, wherever those blocks were before the step.
\<close>

section \<open>Tokens of blocks\<close>

definition block_tokens :: "nat \<Rightarrow> 'x list \<Rightarrow> nat \<Rightarrow> 'x list" where
  "block_tokens bs toks b = take bs (drop (b * bs) toks)"

text \<open>What a paged kernel reads: the first \<open>n\<close> rows of the blocks of the table, in order.\<close>

definition paged_rows :: "'a list list \<Rightarrow> 'a list list \<Rightarrow> nat list \<Rightarrow> nat \<Rightarrow> ('a \<times> 'a) list" where
  "paged_rows k v slots n = take n (concat (map (\<lambda>s. zip (k ! s) (v ! s)) slots))"

lemma arena_block_size_bsz:
  assumes "tier_inv q t"
  shows "arena_block_size t = bsz t"
proof -
  note A = tier_step_invD(1,5) [OF assms [unfolded tier_inv_def]]
  then have "gpu_k t \<noteq> []" "length (gpu_k t ! 0) = bsz t" by (auto simp: arena_ok_def)
  then show ?thesis by (cases "gpu_k t") (simp_all add: arena_block_size_def)
qed

lemma holds_at:
  assumes "holds_tokens q toks t" "b * bsz t + i < length toks" "i < bsz t" "content t (q, b) = Some (kb, vb)"
  shows "(kb ! i, vb ! i) = toks ! (b * bsz t + i)"
proof -
  have "(b * bsz t + i) div bsz t = b" "(b * bsz t + i) mod bsz t = i" using assms(3) by simp_all
  moreover obtain kb' vb' where "content t (q, (b * bsz t + i) div bsz t) = Some (kb', vb')"
    "(kb' ! ((b * bsz t + i) mod bsz t), vb' ! ((b * bsz t + i) mod bsz t)) = toks ! (b * bsz t + i)"
    using assms(1,2) unfolding holds_tokens_def by blast
  ultimately show ?thesis using assms(4) by simp
qed

lemma full_block_tokens:
  assumes inv: "tier_inv q t" and h: "holds_tokens q toks t" and bs: "0 < bsz t" and b: "b < length toks div bsz t"
    and c: "content t (q, b) = Some (kb, vb)"
  shows "zip kb vb = block_tokens (bsz t) toks b"
proof (rule nth_equalityI)
  have len: "(b + 1) * bsz t \<le> length toks"
    using b mult_le_mono1 [of "b + 1" "length toks div bsz t" "bsz t"] div_times_less_eq_dividend [of "length toks" "bsz t"]
    by linarith
  then show l: "length (zip kb vb) = length (block_tokens (bsz t) toks b)"
    using content_length [OF inv c] by (simp add: block_tokens_def)
  fix i
  assume "i < length (zip kb vb)"
  then have i: "i < bsz t" using content_length [OF inv c] by simp
  have "b * bsz t + i < length toks" using len i by simp
  from holds_at [OF h this i c] have "(kb ! i, vb ! i) = toks ! (b * bsz t + i)" .
  then show "zip kb vb ! i = block_tokens (bsz t) toks b ! i"
    using i len content_length [OF inv c] by (simp add: block_tokens_def)
qed

lemma live_block_tokens:
  assumes inv: "tier_inv q t" and h: "holds_tokens q toks t" and bs: "0 < bsz t"
    and c: "content t (q, b) = Some (kb, vb)" and b: "length toks = b * bsz t + r" "r < bsz t"
  shows "take r (zip kb vb) = drop (b * bsz t) toks"
proof (rule nth_equalityI)
  show "length (take r (zip kb vb)) = length (drop (b * bsz t) toks)"
    using content_length [OF inv c] b by simp
  fix i
  assume "i < length (take r (zip kb vb))"
  then have i: "i < r" "i < bsz t" using content_length [OF inv c] by simp_all
  then have "b * bsz t + i < length toks" using b(1) by simp
  from holds_at [OF h this i(2) c] show "take r (zip kb vb) ! i = drop (b * bsz t) toks ! i"
    using i b(1) content_length [OF inv c] by simp
qed

section \<open>Gathering\<close>

lemma gather_loop:
  assumes "tier_inv q t" "\<forall>b \<in> set ids. (q, b) \<in> dom (slot_of t)"
  shows "\<exists>m slots'. for_each ids (gather_slot q) (slots, t) = Inr (slots @ slots', t\<lparr>slot_map := m\<rparr>) \<and>
    tier_inv q (t\<lparr>slot_map := m\<rparr>) \<and> content (t\<lparr>slot_map := m\<rparr>) = content t \<and> sm_slot m = slot_of t \<and>
    sm_capacity m = sm_capacity (slot_map t) \<and> map Some slots' = map (\<lambda>b. slot_of t (q, b)) ids"
  using assms
proof (induction ids arbitrary: t slots)
  case Nil
  then show ?case by (intro exI [of _ "slot_map t"] exI [of _ "[]"]) simp
next
  case (Cons b ids)
  then obtain s where s: "slot_of t (q, b) = Some s" by auto
  from touch_step [OF Cons.prems(1) [unfolded tier_inv_def] s] obtain m where
    m: "sm_get (slot_map t) (q, b) = Inr (s, m)" "tier_step_inv q {} [] (t\<lparr>slot_map := m\<rparr>)"
      "content (t\<lparr>slot_map := m\<rparr>) = content t" "sm_slot m = slot_of t" "sm_capacity m = sm_capacity (slot_map t)" by blast
  let ?u = "t\<lparr>slot_map := m\<rparr>"
  have u: "tier_inv q ?u" "\<forall>b \<in> set ids. (q, b) \<in> dom (slot_of ?u)"
    using Cons.prems(2) m(2,4) by (simp_all add: tier_inv_def)
  from Cons.IH [OF u, of "slots @ [s]"] obtain m' slots' where
    t': "for_each ids (gather_slot q) (slots @ [s], ?u) = Inr ((slots @ [s]) @ slots', ?u\<lparr>slot_map := m'\<rparr>)"
      "tier_inv q (?u\<lparr>slot_map := m'\<rparr>)" "content (?u\<lparr>slot_map := m'\<rparr>) = content ?u" "sm_slot m' = slot_of ?u"
      "sm_capacity m' = sm_capacity (slot_map ?u)" "map Some slots' = map (\<lambda>b. slot_of ?u (q, b)) ids" by blast
  have "gather_slot q b (slots, t) = Inr (slots @ [s], ?u)"
    using m(1) by (simp add: gather_slot_def logical_to_slot_def)
  then show ?case using t' m(3-5) s
    by (intro exI [of _ m'] exI [of _ "s # slots'"]) simp
qed

section \<open>One request\<close>

text \<open>Counters, log and the set of active requests are no part of what a tier holds.\<close>

lemma idle_fields [simp]:
  "tier_inv q (t\<lparr>selected_log := g\<rparr>) = tier_inv q t" "tier_inv q (t\<lparr>active_seqs := a\<rparr>) = tier_inv q t"
  "tier_inv q (t\<lparr>stats := st\<rparr>) = tier_inv q t"
  "content (t\<lparr>selected_log := g\<rparr>) = content t" "content (t\<lparr>active_seqs := a\<rparr>) = content t"
  "evictable N (t\<lparr>selected_log := g\<rparr>) = evictable N t" "evictable N (t\<lparr>active_seqs := a\<rparr>) = evictable N t"
  "evictable N (t\<lparr>stats := st\<rparr>) = evictable N t"
  "tier_frame t (t'\<lparr>selected_log := g\<rparr>) = tier_frame t t'" "tier_frame t (t'\<lparr>active_seqs := a\<rparr>) = tier_frame t t'"
  by (auto simp: tier_frame_def tier_inv_defs content_def backup_def evictable_def arena_at_def fun_eq_iff split: option.split)

lemma count_selected_eq:
  "\<exists>st g. count_selected q ids t = t\<lparr>selected_log := g, stats := st\<rparr>"
  by (simp add: count_selected_def record_selected_def Let_def) (metis tier.surjective tier.update_convs(20))

text \<open>Where the selection sits after \<open>ensure_resident\<close>, the arena has the tokens of the blocks.\<close>

lemma arena_rows:
  assumes inv: "tier_inv q t" and h: "holds_tokens q toks t" and bs: "0 < bsz t"
    and ids: "set ids \<subseteq> {..< length toks div bsz t}" and slots: "map Some slots = map (\<lambda>b. slot_of t (q, b)) ids"
  shows "concat (map (\<lambda>s. zip (gpu_k t ! s) (gpu_v t ! s)) slots) = concat (map (block_tokens (bsz t) toks) ids)"
proof -
  have "map (\<lambda>s. zip (gpu_k t ! s) (gpu_v t ! s)) slots = map (block_tokens (bsz t) toks) ids"
  proof (rule nth_equalityI)
    show len: "length (map (\<lambda>s. zip (gpu_k t ! s) (gpu_v t ! s)) slots) = length (map (block_tokens (bsz t) toks) ids)"
      using slots by (metis length_map)
    fix i
    assume i: "i < length (map (\<lambda>s. zip (gpu_k t ! s) (gpu_v t ! s)) slots)"
    have "Some (slots ! i) = slot_of t (q, ids ! i)" using slots i len by (metis length_map nth_map)
    then have c: "content t (q, ids ! i) = Some (gpu_k t ! (slots ! i), gpu_v t ! (slots ! i))"
      using content_Some [of t "(q, ids ! i)"] by (simp add: arena_at_def)
    have "ids ! i < length toks div bsz t" using ids i len by (auto simp: subset_eq)
    from full_block_tokens [OF inv h bs this c]
    show "map (\<lambda>s. zip (gpu_k t ! s) (gpu_v t ! s)) slots ! i = map (block_tokens (bsz t) toks) ids ! i"
      using i len by simp
  qed
  then show ?thesis by simp
qed

lemma block_tokens_length:
  assumes "b < length toks div bs"
  shows "length (block_tokens bs toks b) = bs"
proof -
  have "(b + 1) * bs \<le> length toks"
    using assms mult_le_mono1 [of "b + 1" "length toks div bs" bs] div_times_less_eq_dividend [of "length toks" bs] by linarith
  then show ?thesis by (simp add: block_tokens_def)
qed

lemma concat_blocks_length:
  "set ids \<subseteq> {..< length toks div bs} \<Longrightarrow> length (concat (map (block_tokens bs toks) ids)) = length ids * bs"
  by (induction ids) (auto simp: block_tokens_length)

text \<open>The rows the kernel is pointed at.\<close>

lemma gathered_rows:
  assumes inv: "tier_inv q t" and h: "holds_tokens q toks t" and bs: "0 < bsz t"
    and ids: "set ids \<subseteq> {..< length toks div bsz t}"
    and slots: "map Some slots = map (\<lambda>b. slot_of t (q, b))
      (ids @ (if length toks mod bsz t \<noteq> 0 then [length toks div bsz t] else []))"
  shows "paged_rows (gpu_k t) (gpu_v t) slots (length ids * bsz t + length toks mod bsz t) =
    concat (map (block_tokens (bsz t) toks) ids) @ drop (length toks div bsz t * bsz t) toks"
proof (cases "length toks mod bsz t = 0")
  case True
  then have "map Some slots = map (\<lambda>b. slot_of t (q, b)) ids" using slots by simp
  note R = arena_rows [OF inv h bs ids this]
  have "length toks div bsz t * bsz t = length toks" using True div_mult_mod_eq [of "length toks" "bsz t"] by linarith
  then show ?thesis using True R concat_blocks_length [OF ids] by (simp add: paged_rows_def)
next
  case False
  let ?b = "length toks div bsz t" and ?r = "length toks mod bsz t"
  from slots False obtain ss s where s: "slots = ss @ [s]" "map Some ss = map (\<lambda>b. slot_of t (q, b)) ids"
      "slot_of t (q, ?b) = Some s"
    by (auto simp: map_eq_append_conv)
  note R = arena_rows [OF inv h bs ids s(2)]
  have c: "content t (q, ?b) = Some (gpu_k t ! s, gpu_v t ! s)"
    using content_Some [OF s(3)] by (simp add: arena_at_def)
  have "length toks = ?b * bsz t + ?r" "?r < bsz t" using bs by simp_all
  from live_block_tokens [OF inv h bs c this]
  have "take ?r (zip (gpu_k t ! s) (gpu_v t ! s)) = drop (?b * bsz t) toks" .
  then show ?thesis using R concat_blocks_length [OF ids] by (simp add: paged_rows_def s(1))
qed

text \<open>
  What a decode of a sequence needs: the tier holds its tokens in the synchronous mode
  without protected victims, the live block is resident, and what is neither selected nor
  live can be evicted.
\<close>

definition can_attend :: "'q \<Rightarrow> ('a \<times> 'a) list \<Rightarrow> nat list \<Rightarrow> ('q, 'a) tier \<Rightarrow> bool" where
  "can_attend q toks ids t \<longleftrightarrow>
     tier_inv q t \<and> stream_pool t = None \<and> block_ordering t \<noteq> Mixture \<and> 0 < bsz t \<and> holds_tokens q toks t \<and>
     layer_idx t < length (ss_summary (summary_store t)) \<and> set ids \<subseteq> {..< length toks div bsz t} \<and>
     card (set (ids @ live_ids (bsz t) (length toks))) \<le> sm_capacity (slot_map t) \<and>
     (\<forall>b \<in> set (live_ids (bsz t) (length toks)). (q, b) \<in> dom (slot_of t)) \<and>
     evictable ((\<lambda>b. (q, b)) ` set (ids @ live_ids (bsz t) (length toks))) t"

lemma attend_request_ok:
  assumes ca: "can_attend q toks ids t" and md: "md_seq_lens md ! i = length toks" "seq_id_for md i = q"
    and w: "i < length query"
    and sel: "select (query ! i) (ss_summary (summary_store t) ! layer_idx t) [0 ..< length toks div bsz t]
      (min (md_quest_top_k md) (int (length toks div bsz t))) = Inr ids"
    and flash: "\<And>w k v slots n. flash w k v slots n = attn w (paged_rows k v slots n)"
  shows "\<exists>t'. attend_request select flash md query i (outs, sels, t) =
      Inr (outs @ [attn (query ! i) (concat (map (block_tokens (bsz t) toks) ids) @ drop (length toks div bsz t * bsz t) toks)],
           sels @ [ids], t') \<and>
    tier_inv q t' \<and> content t' = content t \<and> tier_frame t t' \<and> same_shape t t' \<and>
    (\<forall>b \<in> set (live_ids (bsz t) (length toks)). (q, b) \<in> dom (slot_of t'))"
proof -
  let ?live = "live_ids (bsz t) (length toks)" and ?bs = "bsz t"
  note C = ca [unfolded can_attend_def]
  from count_selected_eq [of q ids t] obtain st g where u: "count_selected q ids t = t\<lparr>selected_log := g, stats := st\<rparr>" by blast
  let ?u = "t\<lparr>selected_log := g, stats := st\<rparr>"
  have dom: "(q, b) \<in> dom (content t)" if "b \<in> set ids" for b
  proof -
    have "b * ?bs < length toks" using C that
      by (metis div_times_less_eq_dividend lessThan_iff mult_less_cancel2 order_less_le_trans subset_eq)
    then show ?thesis using C by (simp add: holds_tokens_def)
  qed
  from ensure_resident_kept [of q ?u ids ?live] C dom obtain w where
    w': "ensure_resident ?u q ids ?live = Inr (None, w)"
      "kept q ((\<lambda>b. (q, b)) ` set (ids @ ?live)) ?u w" "(\<lambda>b. (q, b)) ` set ids \<subseteq> dom (slot_of w)"
    by auto
  note K = w'(2) [unfolded kept_def]
  have "dom (slot_of t) \<inter> (\<lambda>b. (q, b)) ` set (ids @ ?live) \<subseteq> dom (slot_of w)" using K by simp
  moreover have "(q, b) \<in> dom (slot_of t)" if "b \<in> set ?live" for b using C that by blast
  ultimately have live: "\<forall>b \<in> set ?live. (q, b) \<in> dom (slot_of w)" unfolding set_append by blast
  then have "\<forall>b \<in> set (ids @ ?live). (q, b) \<in> dom (slot_of w)" using w'(3) unfolding set_append by blast
  from gather_loop [OF conjunct1 [OF K] this, of "[]"] obtain m slots where
    m: "for_each (ids @ ?live) (gather_slot q) ([], w) = Inr (slots, w\<lparr>slot_map := m\<rparr>)"
      "tier_inv q (w\<lparr>slot_map := m\<rparr>)" "content (w\<lparr>slot_map := m\<rparr>) = content w" "sm_slot m = slot_of w"
      "sm_capacity m = sm_capacity (slot_map w)" "map Some slots = map (\<lambda>b. slot_of w (q, b)) (ids @ ?live)" by auto
  let ?t = "w\<lparr>slot_map := m\<rparr>"
  have fr: "tier_frame t ?t" using K m(5) by (auto simp: tier_frame_def)
  have bs': "bsz ?t = ?bs" using fr by (simp add: tier_frame_def)
  have ct: "content ?t = content t" using K m(3) by simp
  then have h: "holds_tokens q toks ?t" using C bs' by (simp add: holds_tokens_def)
  have rows: "paged_rows (gpu_k ?t) (gpu_v ?t) slots (length ids * ?bs + length toks mod ?bs) =
      concat (map (block_tokens ?bs toks) ids) @ drop (length toks div ?bs * ?bs) toks"
    using gathered_rows [OF m(2) h] m(4,6) bs' C by (simp add: live_ids_def)
  have ss: "same_shape t ?t" using ensure_resident_shape [OF w'(1)] C by (simp add: same_shape_def)
  have "attend_request select flash md query i (outs, sels, t) =
      Inr (outs @ [flash (query ! i) (gpu_k ?t) (gpu_v ?t) slots (length ids * ?bs + length toks mod ?bs)], sels @ [ids], ?t)"
    using C md w sel u w'(1) m(1) arena_block_size_bsz [of q t]
    by (simp add: attend_request_def Let_def del: chain_eq_Inr)
  then show ?thesis using rows flash m(2) ct fr ss live m(4) by (intro exI [of _ ?t]) simp
qed

lemma can_attend_stats [simp]: "can_attend q toks ids (t\<lparr>stats := st\<rparr>) = can_attend q toks ids t"
  by (simp add: can_attend_def holds_tokens_def)

text \<open>
  One sparse decode of a layer that serves one request: for any selection of full blocks
  that fits the arena with the live block, and a kernel that attends the rows its block
  table points at, the step returns and its output is the attention over the tokens of the
  selected blocks followed by the tokens of the live block; the tier still holds every
  token.
\<close>

lemma sparse_decode_ok:
  assumes "ql_tier_manager l = Some t" "can_attend (seq_id_for md 0) toks ids t"
    and "md_seq_lens md = [length toks]"
    and "select w (ss_summary (summary_store t) ! layer_idx t) [0 ..< length toks div bsz t]
      (min (md_quest_top_k md) (int (length toks div bsz t))) = Inr ids"
    and "\<And>w k v slots n. flash w k v slots n = attn w (paged_rows k v slots n)"
  shows "\<exists>t'. run_sparse_decode select flash md [w] (l, registry) =
      Inr ([attn w (concat (map (block_tokens (bsz t) toks) ids) @ drop (length toks div bsz t * bsz t) toks)],
           l\<lparr>ql_tier_manager := Some t'\<rparr>, registry) \<and>
    tier_inv (seq_id_for md 0) t' \<and> content t' = content t \<and> tier_frame t t' \<and> same_shape t t' \<and>
    (\<forall>b \<in> set (live_ids (bsz t) (length toks)). (seq_id_for md 0, b) \<in> dom (slot_of t'))"
proof -
  let ?t = "t\<lparr>stats := stats t\<lparr>select_calls := Suc (select_calls (stats t))\<rparr>\<rparr>"
  have sync: "stream_pool t = None" using assms(2) by (simp add: can_attend_def)
  from attend_request_ok [of "seq_id_for md 0" toks ids ?t md 0 "[w]" select flash attn "[]" "[]"] assms(2-5)
  obtain t' where t': "attend_request select flash md [w] 0 ([], [], ?t) =
      Inr ([attn w (concat (map (block_tokens (bsz t) toks) ids) @ drop (length toks div bsz t * bsz t) toks)], [ids], t')"
      "tier_inv (seq_id_for md 0) t'" "content t' = content ?t" "tier_frame ?t t'" "same_shape ?t t'"
      "\<forall>b \<in> set (live_ids (bsz t) (length toks)). (seq_id_for md 0, b) \<in> dom (slot_of t')" by auto
  have "stream_pool t' = None" using t'(4) sync by (simp add: tier_frame_def)
  then have "run_sparse_decode select flash md [w] (l, registry) =
      Inr ([attn w (concat (map (block_tokens (bsz t) toks) ids) @ drop (length toks div bsz t * bsz t) toks)],
           l\<lparr>ql_tier_manager := Some t'\<rparr>, registry)"
    using assms(1,3) sync t'(1)
    by (simp add: run_sparse_decode_def Let_def pop_prefetch_events_def prefetch_next_def del: chain_eq_Inr)
  then show ?thesis using t' by (intro exI [of _ t']) (simp add: tier_frame_def same_shape_def)
qed

end
