(* ===== verification/Quest_Forward.thy ===== *)
theory Quest_Forward
  imports Quest_Decode
begin

text \<open>
  \<open>QuestSparseOffloadImpl.forward\<close> of \<^verbatim>\<open>quest/impl.py\<close>: the dispatch of one layer's
  forward pass between dense attention, the prefill offloads and the sparse decode. The
  dense attention \<open>fa\<close> is a function of the engine cache, the cache write an argument.
\<close>

definition is_full_kv_layer :: "'r quest_md \<Rightarrow> ('r, 'a) quest_layer \<Rightarrow> bool result" where
  "is_full_kv_layer md l =
     (if md_quest_layer_indices md = [] then Inr True
      else chain (py_nth (md_quest_layer_indices md) (ql_layer_idx l)) (\<lambda>slot. Inr (slot < 0)))"

definition is_kvshare_shared_layer :: "('r, 'a) quest_layer \<Rightarrow> bool" where
  "is_kvshare_shared_layer l \<longleftrightarrow>
     (if ql_kv_sharing_target l = None then False
      else case ql_config l of None \<Rightarrow> False | Some c \<Rightarrow> qc_footprint_kvshare c)"

definition is_footprint_kvshare_layer :: "('r, 'a) quest_layer \<Rightarrow> bool" where
  "is_footprint_kvshare_layer l \<longleftrightarrow>
     (if ql_tier_manager l = None then False
      else case ql_config l of None \<Rightarrow> False | Some c \<Rightarrow> qc_footprint_kvshare c)"

text \<open>The engine cache by physical block, and its number of token slots.\<close>

type_synonym 'a kv_cache = "('a list \<times> 'a list) list"

definition scratch_slots :: "'a kv_cache \<Rightarrow> nat" where
  "scratch_slots kv = (case kv of [] \<Rightarrow> 0 | (k, _) # _ \<Rightarrow> length kv * length k)"

definition any_seq_too_short :: "'r quest_md \<Rightarrow> ('r, 'a) quest_layer \<Rightarrow> bool" where
  "any_seq_too_short md l \<longleftrightarrow>
     (let block_size = (case ql_tier_manager l of None \<Rightarrow> 0 | Some t \<Rightarrow> arena_block_size t)
      in 0 < block_size \<and> list_ex (\<lambda>sl. sl < block_size) (md_seq_lens md))"

record ('w, 'a, 'o, 'r) backend_env =
  be_iter :: "'r seq_id set \<Rightarrow> 'r seq_id list"
  be_ops :: "'a torch_ops"
  be_select :: "'w \<Rightarrow> ('a \<times> 'a) list \<Rightarrow> nat list \<Rightarrow> int \<Rightarrow> nat list result"
  be_flash :: "'w \<Rightarrow> 'a list list \<Rightarrow> 'a list list \<Rightarrow> nat list \<Rightarrow> nat \<Rightarrow> 'o"
  be_write :: "'a kv_cache \<Rightarrow> int list \<Rightarrow> 'a kv_cache"
  be_fa :: "'a kv_cache \<Rightarrow> 'o list"

type_synonym ('r, 'a) fwd_state = "scratch_owners \<times> ('r, 'a) quest_layer \<times> (nat \<rightharpoonup> ('r seq_id, 'a) tier) \<times> 'a kv_cache"

text \<open>The dense branch: prefill, full-KV layers, and batches with a sequence inside its first block.\<close>

definition dense_forward ::
  "('w, 'a, 'o, 'r) backend_env \<Rightarrow> 'r quest_md \<Rightarrow> bool \<Rightarrow> 'a list \<Rightarrow> 'a list \<Rightarrow> nat \<Rightarrow> ('r, 'a) fwd_state \<Rightarrow>
   ('o list \<times> ('r, 'a) fwd_state) result" where
  "dense_forward e md full_kv key val ptr s =
     (case s of (owners, l, registry, kv) \<Rightarrow>
        let is_prefill = 1 < md_max_query_len md;
            kvshare_layer = \<not> full_kv \<and> is_footprint_kvshare_layer l
        in chain (if kvshare_layer \<and> is_prefill \<and> is_kvshare_shared_layer l
                  then kvshare_write_scratch (be_write e) md ptr (scratch_slots kv) (owners, l, kv)
                  else Inr (owners, l, kv)) (\<lambda>(owners, l, kv).
           chain (if kvshare_layer \<and> is_prefill
                  then kvshare_prefill_offload (be_iter e) (be_ops e) md key val (owners, l)
                  else chain (notify_filled_blocks_after_prefill (be_ops e) md key l) (\<lambda>l. Inr (owners, l)))
             (\<lambda>(owners, l). Inr (be_fa e kv, owners, l, registry, kv))))"

definition sparse_forward ::
  "('w, 'a, 'o, 'r) backend_env \<Rightarrow> 'r quest_md \<Rightarrow> 'w list \<Rightarrow> 'a list \<Rightarrow> 'a list \<Rightarrow> ('r, 'a) fwd_state \<Rightarrow>
   ('o list \<times> ('r, 'a) fwd_state) result" where
  "sparse_forward e md query key val s =
     (case s of (owners, l, registry, kv) \<Rightarrow>
        chain (if is_footprint_kvshare_layer l
               then kvshare_decode_write (be_iter e) (be_ops e) md key val l
               else notify_filled_blocks_after_decode (be_iter e) (be_ops e) md kv l) (\<lambda>l.
        chain (run_sparse_decode (be_select e) (be_flash e) md query (l, registry)) (\<lambda>(outs, l, registry).
          Inr (outs, owners, l, registry, kv))))"

definition quest_forward ::
  "('w, 'a, 'o, 'r) backend_env \<Rightarrow> 'r quest_md option \<Rightarrow> 'w list \<Rightarrow> 'a list \<Rightarrow> 'a list \<Rightarrow> nat \<Rightarrow>
   ('r, 'a) fwd_state \<Rightarrow> ('o list \<times> ('r, 'a) fwd_state) result" where
  "quest_forward e attn_metadata query key val ptr s =
     (case s of (owners, l, registry, kv) \<Rightarrow>
        case attn_metadata of
          None \<Rightarrow> Inr (be_fa e kv, s)
        | Some md \<Rightarrow>
            chain (is_full_kv_layer md l) (\<lambda>full_kv.
              if 1 < md_max_query_len md \<or> full_kv \<or> any_seq_too_short md l
              then dense_forward e md full_kv key val ptr s
              else sparse_forward e md query key val s))"

section \<open>A concrete layer\<close>

text \<open>
  A layer that shares the scratch tensor: blocks of two tokens, an arena of two blocks, a
  host pool of three. The kernel returns the query and the rows it reads, the selection the
  first candidates.
\<close>

definition ex_pair_tier :: "'a \<Rightarrow> (nat seq_id, 'a) tier" where
  "ex_pair_tier z =
     \<lparr>layer_idx = 0, gpu_budget = 2, gpu_k = [[z, z], [z, z]], gpu_v = [[z, z], [z, z]],
      summary_store = \<lparr>ss_num_layers = 1, ss_max_blocks = 4, ss_block_size = 2,
        ss_digest_mode = ''quest_minmax'', ss_summary = [[(z, z), (z, z), (z, z), (z, z)]]\<rparr>,
      residency = res_init 1 4,
      cpu_store = \<lparr>cs_k = [[[z, z], [z, z], [z, z]]], cs_v = [[[z, z], [z, z], [z, z]]], cs_num_layers = 1,
        cs_blocks_per_layer = 3, cs_free = [[2, 1, 0]],
        cs_stats = \<lparr>alloc_count = 0, free_count = 0, store_calls = 0, load_calls = 0\<rparr>\<rparr>,
      stream_pool = None, enable_event_timing = False, enable_overlap_capture = False,
      enable_write_through = False, block_ordering = Lru, prefetch_touch = False,
      active_seqs = None, slot_map = sm_init 2, cpu_slots = [], host_slots = [],
      prev_selected = Map.empty, stats = quest_stats_init, selected_log = [], trimmed = {}\<rparr>"

definition ex_layer :: "(nat, int) quest_layer" where
  "ex_layer =
     \<lparr>ql_layer_idx = 2, ql_tier_manager = Some (ex_pair_tier 0),
      ql_config = Some (quest_defaults\<lparr>qc_footprint_kvshare := True\<rparr>), ql_indices_view = None,
      ql_kv_sharing_target = Some ''layers.1'', ql_scratch_ptr = None\<rparr>"

definition ex_env :: "(nat, int, nat \<times> (int \<times> int) list, nat) backend_env" where
  "ex_env =
     \<lparr>be_iter = (\<lambda>_. []), be_ops = ex_ops, be_select = (\<lambda>_ _ cands k. Inr (take (nat k) cands)),
      be_flash = (\<lambda>w k v slots n. (w, paged_rows k v slots n)), be_write = (\<lambda>kv _. kv), be_fa = (\<lambda>_. [])\<rparr>"

lemma ex_layer_simps:
  "ql_tier_manager ex_layer = Some (ex_pair_tier 0)" "is_footprint_kvshare_layer ex_layer" "ql_layer_idx ex_layer = 2"
  "arena_block_size (ex_pair_tier z) = 2" "bsz (ex_pair_tier z) = 2" "sm_capacity (slot_map (ex_pair_tier z)) = 2"
  by (simp_all add: ex_layer_def is_footprint_kvshare_layer_def ex_pair_tier_def arena_block_size_def sm_init_def)

section \<open>Short sequences\<close>

text \<open>
  C17. With \<open>footprint_kvshare\<close>, a decode step of a sequence that is still shorter than a
  block takes the dense branch, where the token of the step is written nowhere: the layer,
  the scratch and its owner are left as they were, so the tier does not receive the token
  it will be asked for once the block is full, and the output is dense attention over the
  scratch tensor that the layers share.
\<close>

theorem kvshare_short_decode_drops_token:
  assumes "is_footprint_kvshare_layer l" "ql_tier_manager l = Some t" "1 < arena_block_size t"
    and "is_full_kv_layer md l = Inr False" "md_max_query_len md = 1"
    and "md_seq_lens md = [sl]" "sl < arena_block_size t" "md_query_start_loc md = [0, 1]"
  shows "quest_forward e (Some md) query key val ptr (owners, l, registry, kv) =
    Inr (be_fa e kv, owners, l, registry, kv)"
proof -
  have "prefill_summaries (be_ops e) md key 0 t = Inr t"
    using assms(3,8) by (simp add: prefill_summaries_def Let_def py_nth_def)
  then have "notify_filled_blocks_after_prefill (be_ops e) md key l = Inr l"
    using assms(2,6) by (simp add: notify_filled_blocks_after_prefill_def on_tier_def)
  moreover have "any_seq_too_short md l" using assms(2,3,6,7) by (simp add: any_seq_too_short_def)
  ultimately show ?thesis using assms(4,5) by (simp add: quest_forward_def dense_forward_def Let_def del: chain_eq_Inr)
qed

theorem kvshare_short_decode_drops_token_witness:
  "quest_forward ex_env
     (Some \<lparr>md_seq_lens = [1], md_query_start_loc = [0, 1], md_slot_mapping = [0], md_num_actual_tokens = 1,
            md_max_query_len = 1, md_block_table = [[0]], md_request_ids = [7], md_quest_top_k = 1,
            md_quest_layer_indices = [- 1, - 1, 0]\<rparr>)
     [5] [10] [11] 0 (Map.empty, ex_layer, Map.empty, [([0, 0], [0, 0])]) =
   Inr ([], Map.empty, ex_layer, Map.empty, [([0, 0], [0, 0])])"
  using kvshare_short_decode_drops_token [of ex_layer "ex_pair_tier 0" "\<lparr>md_seq_lens = [1], md_query_start_loc = [0, 1],
      md_slot_mapping = [0], md_num_actual_tokens = 1, md_max_query_len = 1, md_block_table = [[0]],
      md_request_ids = [7], md_quest_top_k = 1, md_quest_layer_indices = [- 1, - 1, 0]\<rparr>" 1 ex_env "[5]" "[10]" "[11]" 0
      Map.empty Map.empty "[([0, 0], [0, 0])]"]
  by (simp add: ex_layer_simps is_full_kv_layer_def py_nth_def ex_env_def)

end
