(* ===== verification/Quest_Generate.thy ===== *)
theory Quest_Generate
  imports Quest_Forward
begin

text \<open>
  A whole request on one layer in the shared-KV mode: the prefill offload and any number of
  decode steps through \<open>forward\<close>, in the synchronous write-back mode. The host pool has a
  slot for every block of the longest sequence, as \<open>resolve_cpu_blocks_per_layer\<close> sizes it.
\<close>

section \<open>Room on the host\<close>

lemma host_room:
  assumes inv: "tier_inv q t" and wb: "\<not> enable_write_through t" and h: "holds_tokens q toks t"
    and ne: "dom (slot_of t) \<noteq> {}" and len: "length toks \<le> cs_blocks_per_layer (cpu_store t) * bsz t"
  shows "cpu_free t \<noteq> []"
proof -
  let ?N = "cs_blocks_per_layer (cpu_store t)"
  note D = tier_step_invD [OF inv [unfolded tier_inv_def]]
  have hd: "distinct (map fst (backup t))" "distinct (map snd (backup t) @ cpu_free t)"
    "set (map snd (backup t) @ cpu_free t) = {0..<?N}"
    using D(2) by (simp_all add: host_ok_def)
  have "length (map snd (backup t) @ cpu_free t) = ?N" using distinct_card [OF hd(2)] hd(3) by simp
  then have tot: "length (backup t) + length (cpu_free t) = ?N" by simp
  have fin: "finite (dom (slot_of t))" by (simp add: finite_dom_map_of)
  have disj: "dom (slot_of t) \<inter> dom (map_of (backup t)) = {}" using D(3) wb by (simp add: agree_def)
  have "dom (content t) \<subseteq> {q} \<times> {..<?N}"
  proof
    fix x
    assume "x \<in> dom (content t)"
    then have x: "fst x = q" "snd x * bsz t < length toks" using h by (auto simp: holds_tokens_def)
    then have "snd x * bsz t < ?N * bsz t" using len by linarith
    then show "x \<in> {q} \<times> {..<?N}" using x(1) by (cases x) simp
  qed
  from card_mono [OF _ this] have "card (dom (content t)) \<le> ?N" by (simp add: card_cartesian_product_singleton)
  moreover have "card (dom (content t)) = card (dom (slot_of t)) + card (dom (map_of (backup t)))"
    unfolding dom_content using disj fin by (simp add: card_Un_disjoint finite_dom_map_of)
  moreover have "card (dom (map_of (backup t))) = length (backup t)"
    using distinct_card [OF hd(1)] by (simp add: dom_map_of_conv_image_fst)
  moreover have "0 < card (dom (slot_of t))" using ne fin by (simp add: card_gt_0_iff)
  ultimately have "length (backup t) < ?N" by linarith
  then show ?thesis using tot by auto
qed

section \<open>A tier in the middle of a generation\<close>

definition decoding :: "nat \<Rightarrow> 'q \<Rightarrow> ('a \<times> 'a) list \<Rightarrow> ('q, 'a) tier \<Rightarrow> bool" where
  "decoding max_len q toks t \<longleftrightarrow>
     tier_inv q t \<and> stream_pool t = None \<and> \<not> enable_write_through t \<and> block_ordering t \<noteq> Mixture \<and> 0 < bsz t \<and>
     holds_tokens q toks t \<and> (\<forall>b \<in> set (live_ids (bsz t) (length toks)). (q, b) \<in> dom (slot_of t)) \<and>
     max_len \<le> cs_blocks_per_layer (cpu_store t) * bsz t \<and>
     (\<forall>b. b * bsz t < max_len \<longrightarrow> res_in_range (residency t) (layer_idx t) b \<and> ss_in_range (summary_store t) (layer_idx t) b)"

lemma decoding_append:
  assumes d: "decoding max_len q toks t" and len: "length toks < max_len"
  shows "\<exists>t'. append_decode_token_kvshare ops t q (length toks) k v (bsz t) = Inr t' \<and>
    decoding max_len q (toks @ [(k, v)]) t' \<and> tier_frame t t' \<and> same_shape t t' \<and> dom (slot_of t') \<noteq> {}"
proof -
  let ?b = "length toks div bsz t"
  note C = d [unfolded decoding_def]
  have rg: "?b * bsz t < max_len" using len div_times_less_eq_dividend [of "length toks" "bsz t"] by linarith
  have nb: "map_of (backup t) (q, ?b) = None"
  proof (cases "length toks mod bsz t = 0")
    case True
    then have "?b * bsz t = length toks" using div_mult_mod_eq [of "length toks" "bsz t"] by linarith
    then have "(q, ?b) \<notin> dom (content t)" using C by (simp add: holds_tokens_def)
    then show ?thesis by (auto simp: dom_content)
  next
    case False
    then obtain s where "slot_of t (q, ?b) = Some s" using C by (auto simp: live_ids_def)
    then show ?thesis using agreeD(4) [OF tier_step_invD(3) [of q "{}" "[]" t]] C by (simp add: tier_inv_def)
  qed
  have ev: "sm_free_slots (slot_map t) = [] \<longrightarrow> evictable {(q, ?b)} t"
  proof
    assume "sm_free_slots (slot_map t) = []"
    then have "dom (slot_of t) \<noteq> {}"
      using tier_step_invD(4,5) [of q "{}" "[]" t] C by (auto simp: tier_inv_def sm_inv_def)
    moreover have "length toks \<le> cs_blocks_per_layer (cpu_store t) * bsz t" using C len by linarith
    ultimately have "cpu_free t \<noteq> []" using host_room [of q t toks] C by (simp only: simp_thms)
    then show "evictable {(q, ?b)} t" using C by (simp add: evictable_def)
  qed
  have "res_in_range (residency t) (layer_idx t) ?b" "ss_in_range (summary_store t) (layer_idx t) ?b"
    using C rg by simp_all
  then have "\<exists>t' kb vb. append_decode_token_kvshare ops t q (length toks) k v (bsz t) = Inr t' \<and> tier_inv q t' \<and>
      holds_tokens q (toks @ [(k, v)]) t' \<and> is_resident t' q ?b \<and> tier_frame t t' \<and>
      content t' (q, ?b) = Some (kb, vb) \<and> (Suc (length toks) mod bsz t = 0 \<longrightarrow>
      ss_at (summary_store t') (layer_idx t) ?b = block_digest ops (ss_digest_mode (summary_store t)) kb)"
    by (intro append_token_ok nb ev) (use C in simp_all)
  then obtain t' where t': "append_decode_token_kvshare ops t q (length toks) k v (bsz t) = Inr t'" "tier_inv q t'"
      "holds_tokens q (toks @ [(k, v)]) t'" "is_resident t' q ?b" "tier_frame t t'"
    by (elim exE conjE) (rule that)
  note sh = append_shape [OF t'(1)] and F = tier_frame_eqs [OF t'(5)]
  have res: "(q, ?b) \<in> dom (slot_of t')" using t'(4) by (simp add: is_resident_def sm_contains_iff)
  have "b = ?b" if "b \<in> set (live_ids (bsz t) (Suc (length toks)))" for b
    using that by (auto simp: live_ids_def div_Suc split: if_splits)
  then have "decoding max_len q (toks @ [(k, v)]) t'"
    using t'(2,3) C F same_shapeD [OF sh] res by (auto simp: decoding_def)
  then show ?thesis using t'(1,5) sh res by blast
qed

lemma decoding_can_attend:
  assumes d: "decoding max_len q toks t" and len: "length toks \<le> max_len" "0 < length toks"
    and ids: "set ids \<subseteq> {..< length toks div bsz t}" "Suc (card (set ids)) \<le> sm_capacity (slot_map t)"
    and ne: "dom (slot_of t) \<noteq> {}"
  shows "can_attend q toks ids t"
proof -
  note C = d [unfolded decoding_def]
  have "card (set (ids @ live_ids (bsz t) (length toks))) \<le> card (set ids) + length (live_ids (bsz t) (length toks))"
    using card_Un_le [of "set ids" "set (live_ids (bsz t) (length toks))"] card_length [of "live_ids (bsz t) (length toks)"]
    by simp
  also have "length (live_ids (bsz t) (length toks)) \<le> 1" by (simp add: live_ids_def)
  finally have card: "card (set (ids @ live_ids (bsz t) (length toks))) \<le> sm_capacity (slot_map t)" using ids(2) by simp
  have "length toks \<le> cs_blocks_per_layer (cpu_store t) * bsz t" using C len by linarith
  then have "cpu_free t \<noteq> []" using host_room [of q t toks] C ne by (simp only: simp_thms)
  moreover have "0 * bsz t < max_len" using len by linarith
  then have "ss_in_range (summary_store t) (layer_idx t) 0" using C by blast
  then have "layer_idx t < length (ss_summary (summary_store t))" by (simp add: ss_in_range_def)
  ultimately show ?thesis using C ids(1) card by (simp add: can_attend_def evictable_def)
qed

lemma decoding_kept:
  assumes "decoding max_len q toks t" "tier_inv q t'" "content t' = content t" "tier_frame t t'" "same_shape t t'"
    and "\<forall>b \<in> set (live_ids (bsz t) (length toks)). (q, b) \<in> dom (slot_of t')"
  shows "decoding max_len q toks t'"
  using assms(1-3,6) tier_frame_eqs [OF assms(4)] same_shapeD [OF assms(5)]
  by (simp add: decoding_def holds_tokens_def)

lemma decoding_active [simp]: "decoding max_len q toks (t\<lparr>active_seqs := a\<rparr>) = decoding max_len q toks t"
  by (simp add: decoding_def holds_tokens_def)

lemma decoding_summaries:
  assumes "decoding max_len q toks t" "length toks \<le> max_len"
  shows "length toks div bsz t \<le> length (ss_summary (summary_store t) ! layer_idx t)"
proof (cases "length toks div bsz t")
  case (Suc n)
  note C = assms(1) [unfolded decoding_def]
  have "Suc n * bsz t \<le> length toks" using Suc div_times_less_eq_dividend [of "length toks" "bsz t"] by simp
  then have "n * bsz t < max_len" using assms(2) C by simp
  then have "ss_in_range (summary_store t) (layer_idx t) n" using C by blast
  then show ?thesis using Suc by (simp add: ss_in_range_def)
qed simp

section \<open>The metadata of a request\<close>

definition decode_md :: "'r \<Rightarrow> int \<Rightarrow> int list \<Rightarrow> nat \<Rightarrow> 'r quest_md" where
  "decode_md r top_k idx n =
     \<lparr>md_seq_lens = [n], md_query_start_loc = [0, 1], md_slot_mapping = [0], md_num_actual_tokens = 1,
      md_max_query_len = 1, md_block_table = [[]], md_request_ids = [r], md_quest_top_k = top_k,
      md_quest_layer_indices = idx\<rparr>"

definition prefill_md :: "'r \<Rightarrow> int \<Rightarrow> int list \<Rightarrow> int list \<Rightarrow> 'r quest_md" where
  "prefill_md r top_k idx slots =
     \<lparr>md_seq_lens = [length slots], md_query_start_loc = [0, length slots], md_slot_mapping = slots,
      md_num_actual_tokens = length slots, md_max_query_len = length slots, md_block_table = [[]],
      md_request_ids = [r], md_quest_top_k = top_k, md_quest_layer_indices = idx\<rparr>"

text \<open>A layer the sparse path serves in the shared-KV mode.\<close>

definition kvshare_served :: "int list \<Rightarrow> ('r, 'a) quest_layer \<Rightarrow> bool" where
  "kvshare_served idx l \<longleftrightarrow>
     is_footprint_kvshare_layer l \<and> ql_layer_idx l < length idx \<and> 0 \<le> idx ! ql_layer_idx l"

lemma kvshare_served_tier [simp]:
  "kvshare_served idx (l\<lparr>ql_tier_manager := Some t\<rparr>) \<longleftrightarrow> kvshare_served idx (l\<lparr>ql_tier_manager := Some t'\<rparr>)"
  "kvshare_served idx (l\<lparr>ql_scratch_ptr := a\<rparr>) \<longleftrightarrow> kvshare_served idx l"
  by (simp_all add: kvshare_served_def is_footprint_kvshare_layer_def)

lemma kvshare_served_upd: "kvshare_served idx l \<Longrightarrow> kvshare_served idx (l\<lparr>ql_tier_manager := Some t\<rparr>)"
  by (auto simp: kvshare_served_def is_footprint_kvshare_layer_def split: if_splits)

lemma kvshare_served_not_full:
  "kvshare_served idx l \<Longrightarrow> md_quest_layer_indices md = idx \<Longrightarrow> is_full_kv_layer md l = Inr False"
  by (auto simp: kvshare_served_def is_full_kv_layer_def py_nth_def)

text \<open>
  What the step expects of a selection: on candidates that have a summary it returns as
  many of them as it was asked for, none twice.
\<close>

definition selects :: "('w \<Rightarrow> ('a \<times> 'a) list \<Rightarrow> nat list \<Rightarrow> int \<Rightarrow> nat list result) \<Rightarrow> bool" where
  "selects select \<longleftrightarrow>
     (\<forall>w summ cands k. 0 \<le> k \<and> k \<le> int (length cands) \<and> distinct cands \<and> (\<forall>c \<in> set cands. c < length summ) \<longrightarrow>
        (\<exists>ids. select w summ cands k = Inr ids \<and> set ids \<subseteq> set cands \<and> distinct ids \<and> int (length ids) = k))"

lemma selectsE:
  assumes "selects select" "0 \<le> k" "k \<le> int n" "n \<le> length summ"
  obtains ids where "select w summ [0 ..< n] k = Inr ids" "set ids \<subseteq> {..< n}" "distinct ids" "int (length ids) = k"
proof -
  have "\<exists>ids. select w summ [0 ..< n] k = Inr ids \<and> set ids \<subseteq> set [0 ..< n] \<and> distinct ids \<and> int (length ids) = k"
    using assms(2-4) by (intro assms(1) [unfolded selects_def, rule_format]) auto
  then show thesis using that by (auto simp: lessThan_atLeast0)
qed

section \<open>One decode step\<close>

definition attended :: "nat \<Rightarrow> ('w \<Rightarrow> 'x list \<Rightarrow> 'o) \<Rightarrow> nat \<Rightarrow> 'w \<Rightarrow> 'x list \<Rightarrow> 'o \<Rightarrow> bool" where
  "attended bs attn top_k w toks out \<longleftrightarrow>
     (\<exists>ids. set ids \<subseteq> {..< length toks div bs} \<and> distinct ids \<and> length ids = min top_k (length toks div bs) \<and>
        out = attn w (concat (map (block_tokens bs toks) ids) @ drop (length toks div bs * bs) toks))"

lemma decode_write_ok:
  assumes l: "ql_tier_manager l = Some t" and d: "decoding max_len (Rid r) toks t"
    and act: "active_seqs t = Some {Rid r}" and len: "length toks < max_len" and it: "iter {} = []"
  shows "\<exists>t'. kvshare_decode_write iter ops (decode_md r top_k idx (Suc (length toks))) [k] [v] l =
      Inr (l\<lparr>ql_tier_manager := Some t'\<rparr>) \<and>
    decoding max_len (Rid r) (toks @ [(k, v)]) t' \<and> tier_frame t t' \<and> same_shape t t' \<and> dom (slot_of t') \<noteq> {}"
proof -
  let ?md = "decode_md r top_k idx (Suc (length toks))"
  have a: "active_of ?md = {Rid r}" and q: "seq_id_for ?md 0 = Rid r" "md_seq_lens ?md = [Suc (length toks)]"
    by (simp_all add: active_of_def seq_id_for_def decode_md_def)
  have same: "t\<lparr>active_seqs := Some {Rid r}\<rparr> = t" using act by simp
  then have gc: "gc_finished iter ?md t = Inr t" using act it a by (simp add: gc_finished_def)
  have bs: "arena_block_size t = bsz t" using d arena_block_size_bsz by (auto simp: decoding_def)
  from decoding_append [OF d len, of ops k v] obtain t' where
    t': "append_decode_token_kvshare ops t (Rid r) (length toks) k v (bsz t) = Inr t'"
      "decoding max_len (Rid r) (toks @ [(k, v)]) t' \<and> tier_frame t t' \<and> same_shape t t' \<and> dom (slot_of t') \<noteq> {}" by blast
  have "kvshare_decode_write iter ops ?md [k] [v] l = Inr (l\<lparr>ql_tier_manager := Some t'\<rparr>)"
    using l t'(1) gc bs q
    by (simp add: kvshare_decode_write_def on_tier_def decode_write_def py_nth_def del: chain_eq_Inr)
  then show ?thesis using t'(2) by blast
qed

lemma decode_forward_ok:
  assumes l: "ql_tier_manager l = Some t" and ks: "kvshare_served idx l" and d: "decoding max_len (Rid r) toks t"
    and act: "active_seqs t = Some {Rid r}" and len: "length toks < max_len" "bsz t \<le> Suc (length toks)"
    and cap: "0 \<le> top_k" "nat top_k < sm_capacity (slot_map t)"
    and it: "be_iter e {} = []" and sel: "selects (be_select e)"
    and flash: "\<And>w k v slots n. be_flash e w k v slots n = attn w (paged_rows k v slots n)"
  shows "\<exists>out t'. quest_forward e (Some (decode_md r top_k idx (Suc (length toks)))) [w] [k] [v] ptr (owners, l, registry, kv) =
      Inr ([out], owners, l\<lparr>ql_tier_manager := Some t'\<rparr>, registry, kv) \<and>
    attended (bsz t) attn (nat top_k) w (toks @ [(k, v)]) out \<and> decoding max_len (Rid r) (toks @ [(k, v)]) t' \<and>
    tier_frame t t' \<and> same_shape t t'"
proof -
  let ?md = "decode_md r top_k idx (Suc (length toks))" and ?toks = "toks @ [(k, v)]"
  from decode_write_ok [where iter = "be_iter e" and ops = "be_ops e" and top_k = top_k and idx = idx and k = k and v = v,
      OF l d act len(1) it] obtain u where
    u: "kvshare_decode_write (be_iter e) (be_ops e) ?md [k] [v] l = Inr (l\<lparr>ql_tier_manager := Some u\<rparr>)"
      "decoding max_len (Rid r) ?toks u" "tier_frame t u" "same_shape t u" "dom (slot_of u) \<noteq> {}" by blast
  note F = tier_frame_eqs [OF u(3)]
  have q: "seq_id_for ?md 0 = Rid r" "md_seq_lens ?md = [length ?toks]" "md_max_query_len ?md = 1"
    "md_quest_layer_indices ?md = idx" "md_quest_top_k ?md = top_k" by (simp_all add: seq_id_for_def decode_md_def)
  let ?n = "length ?toks div bsz u"
  have "?n \<le> length (ss_summary (summary_store u) ! layer_idx u)" using decoding_summaries [OF u(2)] len(1) by simp
  then obtain ids where ids: "be_select e w (ss_summary (summary_store u) ! layer_idx u) [0 ..< ?n] (min top_k (int ?n)) = Inr ids"
      "set ids \<subseteq> {..< ?n}" "distinct ids" "int (length ids) = min top_k (int ?n)"
    using selectsE [OF sel, of "min top_k (int ?n)" ?n] cap(1) by auto
  then have small: "length ids = min (nat top_k) ?n" using cap(1) by linarith
  have "Suc (card (set ids)) \<le> sm_capacity (slot_map u)"
    using card_length [of ids] small cap(2) F by linarith
  then have ca: "can_attend (seq_id_for ?md 0) ?toks ids u"
    using decoding_can_attend [OF u(2) _ _ ids(2) _ u(5)] len(1) q(1) by simp
  let ?l = "l\<lparr>ql_tier_manager := Some u\<rparr>"
  let ?out = "attn w (concat (map (block_tokens (bsz u) ?toks) ids) @ drop (length ?toks div bsz u * bsz u) ?toks)"
  from sparse_decode_ok [of ?l u ?md ?toks ids "be_select e" w "be_flash e" attn registry] ca q ids(1) flash obtain t' where
    t': "run_sparse_decode (be_select e) (be_flash e) ?md [w] (?l, registry) =
        Inr ([?out], ?l\<lparr>ql_tier_manager := Some t'\<rparr>, registry)"
      "tier_inv (Rid r) t'" "content t' = content u" "tier_frame u t'" "same_shape u t'"
      "\<forall>b \<in> set (live_ids (bsz u) (length ?toks)). (Rid r, b) \<in> dom (slot_of t')" by auto
  have "\<not> any_seq_too_short ?md l"
    using l len(2) q(2) d arena_block_size_bsz [of "Rid r" t] by (simp add: any_seq_too_short_def decoding_def)
  then have "quest_forward e (Some ?md) [w] [k] [v] ptr (owners, l, registry, kv) =
      Inr ([?out], owners, l\<lparr>ql_tier_manager := Some t'\<rparr>, registry, kv)"
    using kvshare_served_not_full [OF ks q(4)] ks q(3) u(1) t'(1)
    by (simp add: quest_forward_def sparse_forward_def kvshare_served_def del: chain_eq_Inr)
  moreover have "attended (bsz t) attn (nat top_k) w ?toks ?out"
    using ids(2,3) small F(7) unfolding attended_def by (intro exI [of _ ids]) simp
  moreover have "decoding max_len (Rid r) ?toks t'" using decoding_kept [OF u(2) t'(2-6)] .
  ultimately show ?thesis
    using tier_frame_trans [OF u(3) t'(4)] same_shape_trans [OF u(4) t'(5)] by blast
qed

section \<open>Any number of decode steps\<close>

fun generate ::
  "('w, 'a, 'o, 'r) backend_env \<Rightarrow> 'r \<Rightarrow> int \<Rightarrow> int list \<Rightarrow> nat \<Rightarrow> nat \<Rightarrow> ('w \<times> 'a \<times> 'a) list \<Rightarrow>
   ('r, 'a) fwd_state \<Rightarrow> ('o list \<times> ('r, 'a) fwd_state) result" where
  "generate e r top_k idx ptr n [] s = Inr ([], s)"
| "generate e r top_k idx ptr n ((w, k, v) # steps) s =
     chain (quest_forward e (Some (decode_md r top_k idx (Suc n))) [w] [k] [v] ptr s) (\<lambda>(outs, s).
     chain (generate e r top_k idx ptr (Suc n) steps s) (\<lambda>(more, s). Inr (outs @ more, s)))"

lemma generate_ok:
  assumes "ql_tier_manager l = Some t" "kvshare_served idx l" "decoding max_len (Rid r) toks t"
    and "active_seqs t = Some {Rid r}" "length toks + length steps \<le> max_len" "bsz t \<le> Suc (length toks)"
    and "0 \<le> top_k" "nat top_k < sm_capacity (slot_map t)" "be_iter e {} = []" "selects (be_select e)"
    and "\<And>w k v slots n. be_flash e w k v slots n = attn w (paged_rows k v slots n)"
  shows "\<exists>outs t'. generate e r top_k idx ptr (length toks) steps (owners, l, registry, kv) =
      Inr (outs, owners, l\<lparr>ql_tier_manager := Some t'\<rparr>, registry, kv) \<and>
    length outs = length steps \<and> decoding max_len (Rid r) (toks @ map snd steps) t' \<and>
    (\<forall>i < length steps. attended (bsz t) attn (nat top_k) (fst (steps ! i))
       (toks @ map snd (take (Suc i) steps)) (outs ! i))"
  using assms(1-8)
proof (induction steps arbitrary: l t toks)
  case Nil
  have "l\<lparr>ql_tier_manager := Some t\<rparr> = l" using Nil.prems(1) by simp
  then show ?case using Nil.prems(3) by (intro exI [of _ "[]"] exI [of _ t]) simp
next
  case (Cons st steps)
  obtain w k v where st: "st = (w, k, v)" by (cases st) auto
  have len: "length toks < max_len" using Cons.prems(5) by simp
  from decode_forward_ok [where w = w and k = k and v = v and ptr = ptr and owners = owners and registry = registry and kv = kv,
      OF Cons.prems(1-4) len Cons.prems(6-8) assms(9-11)]
  obtain out u where u: "quest_forward e (Some (decode_md r top_k idx (Suc (length toks)))) [w] [k] [v] ptr (owners, l, registry, kv) =
      Inr ([out], owners, l\<lparr>ql_tier_manager := Some u\<rparr>, registry, kv)"
    "attended (bsz t) attn (nat top_k) w (toks @ [(k, v)]) out" "decoding max_len (Rid r) (toks @ [(k, v)]) u"
    "tier_frame t u" "same_shape t u" by blast
  let ?l = "l\<lparr>ql_tier_manager := Some u\<rparr>"
  have "\<exists>outs t'. generate e r top_k idx ptr (length (toks @ [(k, v)])) steps (owners, ?l, registry, kv) =
      Inr (outs, owners, ?l\<lparr>ql_tier_manager := Some t'\<rparr>, registry, kv) \<and>
    length outs = length steps \<and> decoding max_len (Rid r) ((toks @ [(k, v)]) @ map snd steps) t' \<and>
    (\<forall>i < length steps. attended (bsz u) attn (nat top_k) (fst (steps ! i))
       ((toks @ [(k, v)]) @ map snd (take (Suc i) steps)) (outs ! i))"
    using Cons.prems(4-8) tier_frame_eqs [OF u(4)] u(3) same_shapeD [OF u(5)] kvshare_served_upd [OF Cons.prems(2)]
    by (intro Cons.IH) simp_all
  then obtain outs t' where g: "generate e r top_k idx ptr (Suc (length toks)) steps (owners, ?l, registry, kv) =
      Inr (outs, owners, l\<lparr>ql_tier_manager := Some t'\<rparr>, registry, kv)" "length outs = length steps"
    "decoding max_len (Rid r) (toks @ (k, v) # map snd steps) t'"
    "\<And>i. i < length steps \<Longrightarrow> attended (bsz t) attn (nat top_k) (fst (steps ! i))
       (toks @ (k, v) # map snd (take (Suc i) steps)) (outs ! i)"
    using tier_frame_eqs(7) [OF u(4)] by auto
  have "attended (bsz t) attn (nat top_k) (fst ((st # steps) ! i)) (toks @ map snd (take (Suc i) (st # steps)))
      ((out # outs) ! i)" if "i < length (st # steps)" for i
    using that u(2) g(4) by (cases i) (simp_all add: st)
  then show ?case using u(1) g(1-3)
    by (intro exI [of _ "out # outs"] exI [of _ t']) (simp add: st)
qed

section \<open>The prefill\<close>

text \<open>A tier ready for a request of at most \<open>max_len\<close> tokens.\<close>

definition ready :: "nat \<Rightarrow> 'q \<Rightarrow> ('q, 'a) tier \<Rightarrow> bool" where
  "ready max_len q t \<longleftrightarrow>
     tier_fresh q t \<and> stream_pool t = None \<and> \<not> enable_write_through t \<and> block_ordering t \<noteq> Mixture \<and>
     q \<notin> trimmed t \<and> 0 < bsz t \<and> active_seqs t = None \<and> max_len \<le> cs_blocks_per_layer (cpu_store t) * bsz t \<and>
     (\<forall>b. b * bsz t < max_len \<longrightarrow> res_in_range (residency t) (layer_idx t) b \<and> ss_in_range (summary_store t) (layer_idx t) b)"

lemma fresh_active [simp]: "tier_fresh q (t\<lparr>active_seqs := a\<rparr>) = tier_fresh q t"
  by (simp add: tier_fresh_def)

lemma fresh_host_free:
  assumes "tier_fresh q t"
  shows "length (cpu_free t) = cs_blocks_per_layer (cpu_store t)"
proof -
  have "backup t = []" using assms content_empty(2) [of t] by (simp add: tier_fresh_def)
  moreover have "host_ok [] t" using assms tier_step_invD(2) [of q "{}" "[]" t] by (simp add: tier_fresh_def tier_inv_def)
  ultimately have "distinct (cpu_free t)" "set (cpu_free t) = {0..<cs_blocks_per_layer (cpu_store t)}"
    by (simp_all add: host_ok_def)
  then show ?thesis using distinct_card by fastforce
qed

lemma ready_ingest:
  assumes rd: "ready max_len q t" and L: "L \<le> max_len" "length key = L" "length val = L"
  shows "\<exists>t'. prefill_ingest_kvshare ops (t\<lparr>active_seqs := a\<rparr>) q (L div bsz t) key val (bsz t) (Some L) = Inr t' \<and>
    decoding max_len q (zip key val) t' \<and> same_shape (t\<lparr>active_seqs := a\<rparr>) t' \<and> bsz t' = bsz t \<and>
    sm_capacity (slot_map t') = sm_capacity (slot_map t)"
proof -
  let ?t = "t\<lparr>active_seqs := a\<rparr>"
  note R = rd [unfolded ready_def]
  have "L \<le> cs_blocks_per_layer (cpu_store t) * bsz t" using R L(1) by linarith
  then have "L div bsz t \<le> cs_blocks_per_layer (cpu_store t)"
    using R by (metis div_le_mono nonzero_mult_div_cancel_right not_gr_zero)
  then have room: "L div bsz t - keep_n ?t (L div bsz t) \<le> length (cpu_free ?t)"
    using fresh_host_free [of q t] R by simp
  have rg: "\<forall>b. b * bsz ?t < L \<longrightarrow> res_in_range (residency ?t) (layer_idx ?t) b \<and> ss_in_range (summary_store ?t) (layer_idx ?t) b"
    using R L(1) by simp
  from ingest_prompt_ok [of q ?t L key val ops] obtain t' where
    t': "prefill_ingest_kvshare ops ?t q (L div bsz t) key val (bsz t) (Some L) = Inr t'" "tier_inv q t'"
      "holds_tokens q (zip (take L key) (take L val)) t'" "tier_frame (?t\<lparr>trimmed := insert q (trimmed ?t)\<rparr>) t'"
      "\<forall>b. is_resident t' q b \<longleftrightarrow> L div bsz t - keep_n ?t (L div bsz t) \<le> b \<and> b * bsz t < L"
    using R L room rg by auto
  note F = tier_frame_eqs [OF t'(4)] and sh = prefill_ingest_shape [OF t'(1)]
  have "(q, b) \<in> dom (slot_of t')" if "b \<in> set (live_ids (bsz t) L)" for b
  proof -
    have b: "b = L div bsz t" "L mod bsz t \<noteq> 0" using that by (auto simp: live_ids_def split: if_splits)
    moreover have "L div bsz t * bsz t + L mod bsz t = L" by simp
    ultimately have "L div bsz t * bsz t < L" by linarith
    then have "is_resident t' q b" using t'(5) b(1) by simp
    then show ?thesis by (simp add: is_resident_def sm_contains_iff)
  qed
  then have "decoding max_len q (zip key val) t'"
    using t'(2,3) R L F same_shapeD [OF sh] by (simp add: decoding_def)
  then show ?thesis using t'(1) F sh by (intro exI [of _ t']) simp
qed

lemma prefill_forward_ok:
  assumes l: "ql_tier_manager l = Some t" and ks: "kvshare_served idx l" and rd: "ready max_len (Rid r) t"
    and L: "length slots \<le> max_len" "length key = length slots" "length val = length slots" "1 < length slots"
    and fit: "\<forall>x \<in> set slots. x < int (scratch_slots kv)"
    and own: "case owners ptr of None \<Rightarrow> True | Some (_, finished) \<Rightarrow> finished"
  shows "\<exists>t' owners' kv' scr. quest_forward e (Some (prefill_md r top_k idx slots)) query key val ptr (owners, l, registry, kv) =
      Inr (be_fa e kv', owners', l\<lparr>ql_scratch_ptr := scr, ql_tier_manager := Some t'\<rparr>, registry, kv') \<and>
    decoding max_len (Rid r) (zip key val) t' \<and> same_shape (t\<lparr>active_seqs := Some {Rid r}\<rparr>) t' \<and> bsz t' = bsz t \<and>
    sm_capacity (slot_map t') = sm_capacity (slot_map t) \<and>
    (case owners' ptr of None \<Rightarrow> True | Some (_, finished) \<Rightarrow> finished) \<and> kv' \<in> {kv, be_write e kv slots}"
proof -
  let ?md = "prefill_md r top_k idx slots" and ?L = "length slots"
  have md: "active_of ?md = {Rid r}" "seq_id_for ?md 0 = Rid r" "md_seq_lens ?md = [?L]" "md_max_query_len ?md = ?L"
    "md_query_start_loc ?md = [0, ?L]" "md_quest_layer_indices ?md = idx"
    "take (md_num_actual_tokens ?md) (md_slot_mapping ?md) = slots"
    by (simp_all add: active_of_def seq_id_for_def prefill_md_def)
  have ne: "slots \<noteq> []" using L(4) by auto
  then have mx: "Max (set slots) < int (scratch_slots kv)" using fit by simp
  from ready_ingest [OF rd L(1-3), of "be_ops e" "Some {Rid r}"] obtain t' where
    t': "prefill_ingest_kvshare (be_ops e) (t\<lparr>active_seqs := Some {Rid r}\<rparr>) (Rid r) (?L div bsz t) key val (bsz t) (Some ?L) = Inr t'"
      "decoding max_len (Rid r) (zip key val) t' \<and> same_shape (t\<lparr>active_seqs := Some {Rid r}\<rparr>) t' \<and> bsz t' = bsz t \<and>
       sm_capacity (slot_map t') = sm_capacity (slot_map t)" by blast
  have bs: "arena_block_size (t\<lparr>active_seqs := Some {Rid r}\<rparr>) = bsz t" "0 < bsz t" "active_seqs t = None"
    using rd arena_block_size_bsz [of "Rid r" t] by (simp_all add: ready_def tier_fresh_def arena_block_size_def)
  have off: "kvshare_prefill_offload (be_iter e) (be_ops e) ?md key val (ow, l\<lparr>ql_scratch_ptr := scr\<rparr>) =
      Inr (release_scratch (l\<lparr>ql_scratch_ptr := scr, ql_tier_manager := Some t'\<rparr>) ow,
           l\<lparr>ql_scratch_ptr := scr, ql_tier_manager := Some t'\<rparr>)" for ow scr
    using l md t'(1) bs L ne
    by (simp add: kvshare_prefill_offload_def on_tier_def gc_finished_def offload_request_def py_nth_def
        Tier_Manager.py_slice_def del: chain_eq_Inr)
  have wr: "kvshare_write_scratch (be_write e) ?md ptr (scratch_slots kv) (owners, l, kv) =
      Inr (owners(ptr \<mapsto> (ql_layer_idx l, False)), l\<lparr>ql_scratch_ptr := Some ptr\<rparr>, be_write e kv slots)"
    using md(7) ne mx own unfolding kvshare_write_scratch_def Let_def prod.case md(7) by (simp del: chain_eq_Inr)
  have fwd: "quest_forward e (Some ?md) query key val ptr (owners, l, registry, kv) =
      dense_forward e ?md False key val ptr (owners, l, registry, kv)"
    using kvshare_served_not_full [OF ks md(6)] md(4) L(4) by (simp add: quest_forward_def del: chain_eq_Inr)
  have ks': "is_footprint_kvshare_layer l" using ks by (simp add: kvshare_served_def)
  have same: "l\<lparr>ql_scratch_ptr := ql_scratch_ptr l\<rparr> = l" by simp
  have rel: "case release_scratch l' ow ptr of None \<Rightarrow> True | Some (_, finished) \<Rightarrow> finished"
    if "ql_scratch_ptr l' = Some ptr \<or> (case ow ptr of None \<Rightarrow> True | Some (_, finished) \<Rightarrow> finished)"
    for l' :: "('a, 'b) quest_layer" and ow
    using that by (auto simp: release_scratch_def split: option.splits)
  have "\<exists>owners' kv' scr. quest_forward e (Some ?md) query key val ptr (owners, l, registry, kv) =
      Inr (be_fa e kv', owners', l\<lparr>ql_scratch_ptr := scr, ql_tier_manager := Some t'\<rparr>, registry, kv') \<and>
    (case owners' ptr of None \<Rightarrow> True | Some (_, finished) \<Rightarrow> finished) \<and> kv' \<in> {kv, be_write e kv slots}"
  proof (cases "is_kvshare_shared_layer l")
    case True
    let ?l = "l\<lparr>ql_scratch_ptr := Some ptr, ql_tier_manager := Some t'\<rparr>" and ?ow = "owners(ptr \<mapsto> (ql_layer_idx l, False))"
    have "quest_forward e (Some ?md) query key val ptr (owners, l, registry, kv) =
        Inr (be_fa e (be_write e kv slots), release_scratch ?l ?ow, ?l, registry, be_write e kv slots)"
      unfolding fwd using True wr off ks' md(4) L(4) by (simp add: dense_forward_def Let_def del: chain_eq_Inr)
    then show ?thesis using rel [of ?l ?ow] by auto
  next
    case False
    let ?l = "l\<lparr>ql_scratch_ptr := ql_scratch_ptr l, ql_tier_manager := Some t'\<rparr>"
    have "quest_forward e (Some ?md) query key val ptr (owners, l, registry, kv) =
        Inr (be_fa e kv, release_scratch ?l owners, ?l, registry, kv)"
      unfolding fwd using False off [of owners "ql_scratch_ptr l", unfolded same] ks' md(4) L(4)
      by (simp add: dense_forward_def Let_def del: chain_eq_Inr)
    then show ?thesis using rel [of ?l owners] own by blast
  qed
  then show ?thesis using t'(2) by blast
qed

lemma generation_ok:
  assumes "ql_tier_manager l = Some t" "kvshare_served idx l" "ready max_len (Rid r) t"
    and "length key = length slots" "length val = length slots" "1 < length slots"
    and "\<forall>x \<in> set slots. x < int (scratch_slots kv)"
    and "case owners ptr of None \<Rightarrow> True | Some (_, finished) \<Rightarrow> finished"
    and "length slots + length steps \<le> max_len" "bsz t \<le> Suc (length slots)"
    and "0 \<le> top_k" "nat top_k < sm_capacity (slot_map t)" "be_iter e {} = []" "selects (be_select e)"
    and "\<And>w k v table n. be_flash e w k v table n = attn w (paged_rows k v table n)"
  shows "\<exists>dense s outs owners' l' kv' t'.
    quest_forward e (Some (prefill_md r top_k idx slots)) query key val ptr (owners, l, registry, kv) = Inr (dense, s) \<and>
    generate e r top_k idx ptr (length slots) steps s = Inr (outs, owners', l', registry, kv') \<and>
    length outs = length steps \<and>
    (\<forall>i < length steps. attended (bsz t) attn (nat top_k) (fst (steps ! i))
       (zip key val @ map snd (take (Suc i) steps)) (outs ! i)) \<and>
    ql_tier_manager l' = Some t' \<and> holds_tokens (Rid r) (zip key val @ map snd steps) t'"
proof -
  have "length slots \<le> max_len" using assms(9) by simp
  from prefill_forward_ok [where e = e and query = query and registry = registry and top_k = top_k and key = key and
      val = val and kv = kv and owners = owners and ptr = ptr, OF assms(1-3) this assms(4-8)]
  obtain u owners' kv' scr where u: "quest_forward e (Some (prefill_md r top_k idx slots)) query key val ptr (owners, l, registry, kv) =
      Inr (be_fa e kv', owners', l\<lparr>ql_scratch_ptr := scr, ql_tier_manager := Some u\<rparr>, registry, kv')"
    "decoding max_len (Rid r) (zip key val) u" "same_shape (t\<lparr>active_seqs := Some {Rid r}\<rparr>) u" "bsz u = bsz t"
    "sm_capacity (slot_map u) = sm_capacity (slot_map t)" by blast
  have act: "active_seqs u = Some {Rid r}" using same_shapeD(3) [OF u(3)] by simp
  let ?l = "l\<lparr>ql_scratch_ptr := scr, ql_tier_manager := Some u\<rparr>"
  have len: "length (zip key val) = length slots" using assms(4,5) by simp
  have "kvshare_served idx ?l" using kvshare_served_upd [of idx "l\<lparr>ql_scratch_ptr := scr\<rparr>"] assms(2) by simp
  from generate_ok [where e = e and attn = attn and top_k = top_k and steps = steps and ptr = ptr and owners = owners' and
      registry = registry and kv = kv', OF _ this u(2) act] len u(4,5) assms(9-15)
  obtain outs t' where g: "generate e r top_k idx ptr (length slots) steps (owners', ?l, registry, kv') =
      Inr (outs, owners', ?l\<lparr>ql_tier_manager := Some t'\<rparr>, registry, kv')" "length outs = length steps"
    "decoding max_len (Rid r) (zip key val @ map snd steps) t'"
    "\<forall>i < length steps. attended (bsz t) attn (nat top_k) (fst (steps ! i))
       (zip key val @ map snd (take (Suc i) steps)) (outs ! i)" by auto
  have "holds_tokens (Rid r) (zip key val @ map snd steps) t'" using g(3) by (simp add: decoding_def)
  then show ?thesis using u(1) g(1,2,4)
    by (intro exI [of _ "be_fa e kv'"] exI [of _ "(owners', ?l, registry, kv')"] exI [of _ outs] exI [of _ owners']
        exI [of _ "?l\<lparr>ql_tier_manager := Some t'\<rparr>"] exI [of _ kv'] exI [of _ t']) simp
qed

text \<open>
  C2. A whole request on one layer of the shared-KV mode. On a tier that is ready for it and
  a host pool with a slot for every block of \<open>max_len\<close> tokens, the prefill of a prompt of at
  least a block less one token and every decode step up to \<open>max_len\<close> tokens return. Step
  \<open>i\<close> outputs the attention of its query over selected full blocks of the prompt and the tokens
  generated so far, its own included, and over the whole live block; at the end the tier
  holds all tokens. The selection may return any \<open>top_k\<close> of its candidates, all when there are
  fewer, and the arena has room for those and the live block.
\<close>

theorem generation_attends_own_tokens:
  assumes "ql_tier_manager l = Some t" "kvshare_served idx l" "ready max_len (Rid r) t"
    and "length key = length slots" "length val = length slots" "1 < length slots"
    and "\<forall>x \<in> set slots. x < int (scratch_slots kv)"
    and "case owners ptr of None \<Rightarrow> True | Some (_, finished) \<Rightarrow> finished"
    and "length slots + length steps \<le> max_len" "bsz t \<le> Suc (length slots)"
    and "0 \<le> top_k" "nat top_k < sm_capacity (slot_map t)" "be_iter e {} = []" "selects (be_select e)"
    and "\<And>w k v table n. be_flash e w k v table n = attn w (paged_rows k v table n)"
  shows "\<exists>dense s outs owners' l' kv' t'.
    quest_forward e (Some (prefill_md r top_k idx slots)) query key val ptr (owners, l, registry, kv) = Inr (dense, s) \<and>
    generate e r top_k idx ptr (length slots) steps s = Inr (outs, owners', l', registry, kv') \<and>
    length outs = length steps \<and>
    (\<forall>i < length steps. attended (bsz t) attn (nat top_k) (fst (steps ! i))
       (zip key val @ map snd (take (Suc i) steps)) (outs ! i)) \<and>
    ql_tier_manager l' = Some t' \<and> holds_tokens (Rid r) (zip key val @ map snd steps) t'"
  using assms by (rule generation_ok)

lemma ex_pair_inv: "tier_inv q (ex_pair_tier z)"
  by (auto simp: ex_simps ex_pair_tier_def sm_init_def res_init_def less_Suc_eq numeral_eq_Suc nth_Cons'
      atLeast0_lessThan_Suc)

lemma ex_pair_fresh: "tier_fresh q (ex_pair_tier z)"
  unfolding tier_fresh_def using ex_pair_inv [of q z]
  by (auto simp: ex_pair_tier_def content_def sm_init_def backup_def fun_eq_iff)

lemma ex_pair_ready: "ready 6 (Rid 7) (ex_pair_tier z)"
  using ex_pair_fresh [of "Rid 7" z] by (simp add: ready_def ex_pair_tier_def ss_in_range_def)

definition ex_steps :: "(nat \<times> int \<times> int) list" where
  "ex_steps = [(5, 40, 41), (6, 50, 51)]"

theorem generation_attends_own_tokens_witness:
  "\<exists>dense s outs owners' l' kv' t'.
    quest_forward ex_env (Some (prefill_md 7 1 [- 1, - 1, 0] [0, 1, 2])) [] [10, 20, 30] [11, 21, 31] 0
      (Map.empty, ex_layer, Map.empty, [([0, 0], [0, 0]), ([0, 0], [0, 0])]) = Inr (dense, s) \<and>
    generate ex_env 7 1 [- 1, - 1, 0] 0 (length [0, 1, 2 :: int]) ex_steps s = Inr (outs, owners', l', Map.empty, kv') \<and>
    length outs = length ex_steps \<and>
    attended 2 Pair 1 5 [(10, 11), (20, 21), (30, 31), (40, 41)] (outs ! 0) \<and>
    attended 2 Pair 1 6 [(10, 11), (20, 21), (30, 31), (40, 41), (50, 51)] (outs ! 1) \<and>
    ql_tier_manager l' = Some t' \<and> holds_tokens (Rid 7) (zip [10, 20, 30] [11, 21, 31] @ map snd ex_steps) t'"
proof -
  have s: "selects (be_select ex_env)"
    by (auto simp: selects_def ex_env_def dest: in_set_takeD)
  have k: "kvshare_served [- 1, - 1, 0] ex_layer" by (simp add: kvshare_served_def ex_layer_simps)
  have f: "be_flash ex_env w k v table n = (w, paged_rows k v table n)" for w k v table n by (simp add: ex_env_def)
  have "\<exists>dense s outs owners' l' kv' t'.
    quest_forward ex_env (Some (prefill_md 7 1 [- 1, - 1, 0] [0, 1, 2])) [] [10, 20, 30] [11, 21, 31] 0
      (Map.empty, ex_layer, Map.empty, [([0, 0], [0, 0]), ([0, 0], [0, 0])]) = Inr (dense, s) \<and>
    generate ex_env 7 1 [- 1, - 1, 0] 0 (length [0, 1, 2 :: int]) ex_steps s = Inr (outs, owners', l', Map.empty, kv') \<and>
    length outs = length ex_steps \<and>
    (\<forall>i < length ex_steps. attended (bsz (ex_pair_tier (0 :: int))) Pair (nat 1) (fst (ex_steps ! i))
       (zip [10, 20, 30] [11, 21, 31] @ map snd (take (Suc i) ex_steps)) (outs ! i)) \<and>
    ql_tier_manager l' = Some t' \<and> holds_tokens (Rid 7) (zip [10, 20, 30] [11, 21, 31] @ map snd ex_steps) t'"
    by (rule generation_attends_own_tokens [OF ex_layer_simps(1) k ex_pair_ready _ _ _ _ _ _ _ _ _ _ s f])
      (simp_all add: ex_layer_simps scratch_slots_def ex_env_def ex_steps_def)
  then show ?thesis
  proof (elim exE conjE, intro exI conjI)
    fix outs :: "(nat \<times> (int \<times> int) list) list"
    assume a: "\<forall>i < length ex_steps. attended (bsz (ex_pair_tier (0 :: int))) Pair (nat 1) (fst (ex_steps ! i))
       (zip [10, 20, 30] [11, 21, 31] @ map snd (take (Suc i) ex_steps)) (outs ! i)"
    from a [rule_format, of 0] show "attended 2 Pair 1 5 [(10, 11), (20, 21), (30, 31), (40, 41)] (outs ! 0)"
      by (simp add: ex_steps_def ex_layer_simps)
    from a [rule_format, of 1] show "attended 2 Pair 1 6 [(10, 11), (20, 21), (30, 31), (40, 41), (50, 51)] (outs ! 1)"
      by (simp add: ex_steps_def ex_layer_simps)
  qed assumption+
qed

end
