(* ===== verification/Quest_Selection.thy ===== *)
theory Quest_Selection
  imports Quest_Generate "HOL-Library.Multiset"
begin

text \<open>
  The reference block selection (\<^verbatim>\<open>ops/quest_selection_torch.py\<close>) and its dispatch. A
  tensor of fixed shape is a function of its index, over an ordered ring in place of the
  floats; \<open>torch.topk\<close> is an argument. The score of a block is an upper bound of the
  attention logits of its tokens, so the selection keeps what can matter most; with a
  selection of all full blocks the sparse decode is dense attention.
\<close>

section \<open>Definitions\<close>

type_synonym ('h, 'd, 'v) k_row = "'h \<times> 'd \<Rightarrow> 'v"
type_synonym ('h, 'g, 'd, 'v) q_row = "'h \<times> 'g \<times> 'd \<Rightarrow> 'v"

definition index_select :: "'x list \<Rightarrow> nat list \<Rightarrow> 'x list result" where
  "index_select xs ids = (if list_all (\<lambda>i. i < length xs) ids then Inr (map (\<lambda>i. xs ! i) ids) else Inl IndexError)"

definition quest_score ::
  "('h::finite, 'g::finite, 'd::finite, 'v::linordered_idom) q_row \<Rightarrow> ('h, 'd, 'v) k_row \<times> ('h, 'd, 'v) k_row \<Rightarrow> 'v" where
  "quest_score q s =
     (case s of (k_max, k_min) \<Rightarrow>
        sum (\<lambda>(h, g, d). max (q (h, g, d) * k_max (h, d)) (q (h, g, d) * k_min (h, d))) UNIV)"

definition quest_selection_torch ::
  "('v list \<Rightarrow> nat \<Rightarrow> nat list) \<Rightarrow> ('h::finite, 'g::finite, 'd::finite, 'v::linordered_idom) q_row \<Rightarrow>
   (('h, 'd, 'v) k_row \<times> ('h, 'd, 'v) k_row) list \<Rightarrow> nat list \<Rightarrow> int \<Rightarrow> nat list result" where
  "quest_selection_torch topk query block_summary candidate_ids top_k =
     (if int (length candidate_ids) < top_k then Inl ValueError
      else chain (index_select block_summary candidate_ids) (\<lambda>summary_sel.
        let scores = map (quest_score query) summary_sel
        in chain (guard (0 \<le> top_k) RuntimeError) (\<lambda>_.
           index_select candidate_ids (topk scores (nat top_k)))))"

definition resolve_selection_callable :: "string \<Rightarrow> 's \<Rightarrow> 's \<Rightarrow> 's \<Rightarrow> 's result" where
  "resolve_selection_callable impl torch triton cuda =
     (if impl = ''torch'' then Inr torch
      else if impl = ''triton'' then Inr triton
      else if impl = ''cuda'' then Inr cuda
      else Inl ValueError)"

section \<open>What PyTorch promises\<close>

text \<open>The positions of the \<open>k\<close> largest scores, in any order and with ties broken anyhow.\<close>

definition is_topk :: "('v::linorder list \<Rightarrow> nat \<Rightarrow> nat list) \<Rightarrow> bool" where
  "is_topk topk \<longleftrightarrow>
     (\<forall>scores k. k \<le> length scores \<longrightarrow>
        length (topk scores k) = k \<and> distinct (topk scores k) \<and> set (topk scores k) \<subseteq> {..< length scores} \<and>
        (\<forall>i \<in> set (topk scores k). \<forall>j < length scores. j \<notin> set (topk scores k) \<longrightarrow> scores ! j \<le> scores ! i))"

text \<open>\<open>amax\<close> and \<open>amin\<close> over the tokens of a block, in every coordinate.\<close>

definition reduces_rows :: "('i \<Rightarrow> 'v::linorder) torch_ops \<Rightarrow> bool" where
  "reduces_rows ops \<longleftrightarrow>
     (\<forall>rows i. rows \<noteq> [] \<longrightarrow>
        t_amax ops rows i = Max ((\<lambda>r. r i) ` set rows) \<and> t_amin ops rows i = Min ((\<lambda>r. r i) ` set rows))"

section \<open>Scores\<close>

text \<open>The logits of a key row, summed over the query heads.\<close>

definition logit :: "('h::finite, 'g::finite, 'd::finite, 'v::linordered_idom) q_row \<Rightarrow> ('h, 'd, 'v) k_row \<Rightarrow> 'v" where
  "logit q k = sum (\<lambda>(h, g, d). q (h, g, d) * k (h, d)) UNIV"

lemma mult_between:
  fixes q :: "'v::linordered_idom"
  assumes "lo \<le> k" "k \<le> hi"
  shows "q * k \<le> max (q * hi) (q * lo)"
  using assms by (cases "0 \<le> q") (auto simp: max.coboundedI1 max.coboundedI2 mult_left_mono mult_left_mono_neg)

lemma score_bounds_logit:
  assumes "reduces_rows ops" "mode \<noteq> ''arkvale_cuboid_mean''" "k \<in> set kb"
  shows "logit q k \<le> quest_score q (block_digest ops mode kb)"
proof -
  have "k i \<le> t_amax ops kb i" "t_amin ops kb i \<le> k i" for i
  proof -
    have "kb \<noteq> []" using assms(3) by auto
    then have "t_amax ops kb i = Max ((\<lambda>r. r i) ` set kb)" "t_amin ops kb i = Min ((\<lambda>r. r i) ` set kb)"
      using assms(1) unfolding reduces_rows_def by blast+
    then show "k i \<le> t_amax ops kb i" "t_amin ops kb i \<le> k i" using assms(3) by simp_all
  qed
  then have "(case x of (h, g, d) \<Rightarrow> q (h, g, d) * k (h, d)) \<le>
      (case x of (h, g, d) \<Rightarrow> max (q (h, g, d) * t_amax ops kb (h, d)) (q (h, g, d) * t_amin ops kb (h, d)))" for x
    by (cases x) (simp add: mult_between)
  then show ?thesis using assms(2) by (simp add: logit_def quest_score_def block_digest_def sum_mono)
qed

section \<open>The selection\<close>

lemma index_select_ok: "\<forall>i \<in> set ids. i < length xs \<Longrightarrow> index_select xs ids = Inr (map ((!) xs) ids)"
  by (simp add: index_select_def list_all_iff)

lemma selection_ok:
  assumes "is_topk topk" "0 \<le> k" "k \<le> int (length cands)" "\<forall>c \<in> set cands. c < length summ"
  shows "quest_selection_torch topk q summ cands k =
    Inr (map ((!) cands) (topk (map (\<lambda>c. quest_score q (summ ! c)) cands) (nat k)))"
proof -
  let ?scores = "map (\<lambda>c. quest_score q (summ ! c)) cands"
  have "nat k \<le> length ?scores" using assms(2,3) by simp
  then have "set (topk ?scores (nat k)) \<subseteq> {..< length ?scores}" using assms(1) unfolding is_topk_def by blast
  then have "index_select cands (topk ?scores (nat k)) = Inr (map ((!) cands) (topk ?scores (nat k)))"
    by (intro index_select_ok) auto
  then show ?thesis using assms(2-4)
    by (simp add: quest_selection_torch_def index_select_ok comp_def del: chain_eq_Inr)
qed

lemma torch_selects:
  assumes "is_topk topk"
  shows "selects (quest_selection_torch topk)"
  unfolding selects_def
proof (intro allI impI, elim conjE)
  fix w :: "('b, 'c, 'd, 'a) q_row" and summ :: "(('b, 'd, 'a) k_row \<times> ('b, 'd, 'a) k_row) list" and cands k
  assume a: "0 \<le> k" "k \<le> int (length cands)" "distinct cands" "\<forall>c \<in> set cands. c < length summ"
  let ?top = "topk (map (\<lambda>c. quest_score w (summ ! c)) cands) (nat k)"
  have "nat k \<le> length (map (\<lambda>c. quest_score w (summ ! c)) cands)" using a(1,2) by simp
  then have t: "length ?top = nat k" "distinct ?top" "set ?top \<subseteq> {..< length cands}"
    using assms unfolding is_topk_def by (metis, metis, metis length_map)
  have "distinct (map ((!) cands) ?top)" using t(2,3) a(3) by (auto simp: distinct_map intro!: inj_on_nth)
  moreover have "set (map ((!) cands) ?top) \<subseteq> set cands" using t(3) by auto
  ultimately show "\<exists>ids. quest_selection_torch topk w summ cands k = Inr ids \<and> set ids \<subseteq> set cands \<and> distinct ids \<and>
      int (length ids) = k"
    using selection_ok [OF assms a(1,2,4), of w] t(1) a(1) by simp
qed

text \<open>
  C5. With the min/max digest the selection keeps the blocks that can matter most: on
  candidates with a summary it returns the asked number of them, none twice, and no token
  of a candidate left out has a larger summed logit than the score of any block selected.
\<close>

theorem selection_keeps_best:
  assumes "is_topk topk" "reduces_rows ops" "mode \<noteq> ''arkvale_cuboid_mean''"
    and "0 \<le> k" "k \<le> int (length cands)" "distinct cands" "\<forall>c \<in> set cands. c < length summ"
    and "\<forall>c \<in> set cands. summ ! c = block_digest ops mode (blocks c)"
  shows "\<exists>ids. quest_selection_torch topk q summ cands k = Inr ids \<and> int (length ids) = k \<and> distinct ids \<and>
    set ids \<subseteq> set cands \<and>
    (\<forall>b \<in> set cands - set ids. \<forall>row \<in> set (blocks b). \<forall>s \<in> set ids. logit q row \<le> quest_score q (summ ! s))"
proof -
  let ?scores = "map (\<lambda>c. quest_score q (summ ! c)) cands"
  let ?top = "topk ?scores (nat k)"
  let ?ids = "map ((!) cands) ?top"
  have sel: "quest_selection_torch topk q summ cands k = Inr ?ids" using selection_ok [OF assms(1,4,5,7)] .
  moreover have "set ?ids \<subseteq> set cands \<and> distinct ?ids \<and> int (length ?ids) = k"
    using torch_selects [OF assms(1)] assms(4-7) sel unfolding selects_def by (metis sum.inject(2))
  moreover have "logit q row \<le> quest_score q (summ ! s)"
    if b: "b \<in> set cands - set ?ids" and row: "row \<in> set (blocks b)" and s: "s \<in> set ?ids" for b row s
  proof -
    obtain j where j: "j < length cands" "cands ! j = b" using b by (auto simp: in_set_conv_nth)
    then have "j \<notin> set ?top" using b by auto
    moreover obtain i where i: "i \<in> set ?top" "cands ! i = s" using s by auto
    moreover have "nat k \<le> length ?scores" using assms(4,5) by simp
    ultimately have le: "?scores ! j \<le> ?scores ! i" "i < length ?scores"
      using assms(1) j(1) unfolding is_topk_def by (metis length_map, blast)
    have "logit q row \<le> quest_score q (summ ! b)"
      using score_bounds_logit [OF assms(2,3) row, of q] assms(8) b by simp
    then show ?thesis using le j i(2) by simp
  qed
  ultimately show ?thesis by blast
qed

text \<open>A reference \<open>topk\<close> and reductions, on integers.\<close>

definition topk_ref :: "int list \<Rightarrow> nat \<Rightarrow> nat list" where
  "topk_ref scores k = take k (sort_key (\<lambda>i. - scores ! i) [0 ..< length scores])"

lemma is_topk_ref: "is_topk topk_ref"
  unfolding is_topk_def
proof (intro allI impI)
  fix scores :: "int list" and k
  assume k: "k \<le> length scores"
  define xs where "xs = sort_key (\<lambda>i. - scores ! i) [0 ..< length scores]"
  have xs: "distinct xs" "set xs = {..< length scores}" "length xs = length scores"
    by (simp_all add: xs_def lessThan_atLeast0)
  have "sorted (map (\<lambda>i. - scores ! i) (take k xs @ drop k xs))" by (simp add: xs_def)
  then have le: "scores ! j \<le> scores ! i" if "i \<in> set (take k xs)" "j \<in> set (drop k xs)" for i j
    using that unfolding map_append sorted_append by auto
  have split: "set xs = set (take k xs) \<union> set (drop k xs)" by (metis append_take_drop_id set_append)
  show "length (topk_ref scores k) = k \<and> distinct (topk_ref scores k) \<and> set (topk_ref scores k) \<subseteq> {..< length scores} \<and>
      (\<forall>i \<in> set (topk_ref scores k). \<forall>j < length scores. j \<notin> set (topk_ref scores k) \<longrightarrow> scores ! j \<le> scores ! i)"
    using xs k le split unfolding topk_ref_def xs_def [symmetric] by (auto dest: in_set_takeD)
qed

definition ex_row_ops :: "('i \<Rightarrow> int) torch_ops" where
  "ex_row_ops =
     \<lparr>t_amax = (\<lambda>rows i. Max ((\<lambda>r. r i) ` set rows)), t_amin = (\<lambda>rows i. Min ((\<lambda>r. r i) ` set rows)),
      t_mean = (\<lambda>rows i. sum_list (map (\<lambda>r. r i) rows) div int (length rows)), t_add = (\<lambda>a b i. a i + b i),
      t_sub = (\<lambda>a b i. a i - b i), t_half = (\<lambda>a i. a i div 2), t_abs = (\<lambda>a i. \<bar>a i\<bar>)\<rparr>"

lemma ex_row_ops_reduces: "reduces_rows ex_row_ops"
  by (simp add: reduces_rows_def ex_row_ops_def)

text \<open>Block \<open>c\<close> has the keys \<open>c\<close> and \<open>-c\<close>, one per sign of the second coordinate.\<close>

definition ex_rows :: "nat \<Rightarrow> (unit, bool, int) k_row list" where
  "ex_rows c = [\<lambda>(_, b). if b then int c else - int c, \<lambda>_. 1]"

definition ex_query :: "(unit, unit, bool, int) q_row" where
  "ex_query = (\<lambda>(_, _, b). if b then 1 else - 1)"

theorem selection_keeps_best_witness:
  "\<exists>ids. quest_selection_torch topk_ref ex_query
      (map (\<lambda>c. block_digest ex_row_ops ''quest_minmax'' (ex_rows c)) [0, 5, 3]) [0, 1, 2] 2 = Inr ids \<and>
    length ids = 2 \<and> distinct ids \<and> set ids \<subseteq> {0, 1, 2}"
  using selection_keeps_best [OF is_topk_ref ex_row_ops_reduces, where mode = "''quest_minmax''" and k = 2
      and cands = "[0, 1, 2]" and q = ex_query
      and summ = "map (\<lambda>c. block_digest ex_row_ops ''quest_minmax'' (ex_rows c)) [0, 5, 3]"
      and blocks = "\<lambda>c. ex_rows ([0, 5, 3] ! c)"]
  by auto

section \<open>Selecting every block\<close>

lemma concat_blocks: "concat (map (block_tokens bs toks) [0 ..< n]) = take (n * bs) toks"
proof (induction n)
  case (Suc n)
  have "concat (map (block_tokens bs toks) [0 ..< Suc n]) = take (n * bs) toks @ take bs (drop (n * bs) toks)"
    by (simp add: Suc.IH block_tokens_def [of bs toks n])
  also have "\<dots> = take (n * bs + bs) toks" by (rule take_add [symmetric])
  also have "n * bs + bs = Suc n * bs" by simp
  finally show ?case .
qed simp

lemma mset_concat_map: "mset (concat (map f xs)) = sum_mset (image_mset (\<lambda>x. mset (f x)) (mset xs))"
  by (induction xs) simp_all

lemma all_blocks_mset:
  assumes "distinct ids" "set ids = {..< n}"
  shows "mset (concat (map (block_tokens bs toks) ids) @ drop (n * bs) toks) = mset toks"
proof -
  have "set ids = set [0 ..< n]" using assms(2) by (simp add: lessThan_atLeast0)
  then have "mset ids = mset [0 ..< n]" using set_eq_iff_mset_eq_distinct assms(1) distinct_upt by blast
  then have "mset (concat (map (block_tokens bs toks) ids)) = mset (take (n * bs) toks)"
    by (simp only: mset_concat_map flip: concat_blocks)
  then show ?thesis by (metis append_take_drop_id mset_append)
qed

lemma can_attend_set: "set ids = set ids' \<Longrightarrow> can_attend q toks ids t = can_attend q toks ids' t"
  by (simp add: can_attend_def)

text \<open>
  C4. A sparse decode whose \<open>top_k\<close> covers all full blocks is dense attention: with the
  reference selection, on a tier that holds the tokens of the sequence and has room for
  its blocks, the output is the attention over all tokens, for every attention that does
  not depend on the order of the rows.
\<close>

theorem full_selection_is_dense:
  assumes "ql_tier_manager l = Some t" "can_attend (seq_id_for md 0) toks [0 ..< length toks div bsz t] t"
    and "md_seq_lens md = [length toks]" "int (length toks div bsz t) \<le> md_quest_top_k md" "is_topk topk"
    and "length toks div bsz t \<le> length (ss_summary (summary_store t) ! layer_idx t)"
    and "\<And>w k v slots n. flash w k v slots n = attn w (paged_rows k v slots n)"
    and "\<And>rows rows'. mset rows = mset rows' \<Longrightarrow> attn w rows = attn w rows'"
  shows "\<exists>t'. run_sparse_decode (quest_selection_torch topk) flash md [w] (l, registry) =
      Inr ([attn w toks], l\<lparr>ql_tier_manager := Some t'\<rparr>, registry) \<and> holds_tokens (seq_id_for md 0) toks t'"
proof -
  let ?n = "length toks div bsz t"
  obtain ids where ids: "quest_selection_torch topk w (ss_summary (summary_store t) ! layer_idx t) [0 ..< ?n] (int ?n) = Inr ids"
      "set ids \<subseteq> {..< ?n}" "distinct ids" "int (length ids) = int ?n"
    by (rule selectsE [OF torch_selects [OF assms(5)], of "int ?n" ?n]) (use assms(6) in simp_all)
  have "card (set ids) = ?n" using ids(3,4) by (simp add: distinct_card)
  then have set: "set ids = {..< ?n}" using card_subset_eq [OF _ ids(2)] by simp
  then have ca: "can_attend (seq_id_for md 0) toks ids t"
    using assms(2) by (subst can_attend_set [of ids "[0 ..< ?n]"]) (simp_all add: lessThan_atLeast0)
  have "min (md_quest_top_k md) (int ?n) = int ?n" using assms(4) by simp
  then have sel: "quest_selection_torch topk w (ss_summary (summary_store t) ! layer_idx t) [0 ..< ?n]
      (min (md_quest_top_k md) (int ?n)) = Inr ids" using ids(1) by simp
  from sparse_decode_ok [where select = "quest_selection_torch topk" and w = w and flash = flash and attn = attn and registry = registry, OF assms(1) ca assms(3) sel assms(7)]
  obtain t' where t': "run_sparse_decode (quest_selection_torch topk) flash md [w] (l, registry) =
      Inr ([attn w (concat (map (block_tokens (bsz t) toks) ids) @ drop (?n * bsz t) toks)],
           l\<lparr>ql_tier_manager := Some t'\<rparr>, registry)" "content t' = content t" "tier_frame t t'" by blast
  have "attn w (concat (map (block_tokens (bsz t) toks) ids) @ drop (?n * bsz t) toks) = attn w toks"
    by (rule assms(8)) (rule all_blocks_mset [OF ids(3) set])
  moreover have "holds_tokens (seq_id_for md 0) toks t'"
    using assms(2) t'(2,3) by (simp add: can_attend_def holds_tokens_def tier_frame_def)
  ultimately show ?thesis using t'(1) by (intro exI [of _ t']) simp
qed

definition ex_toks :: "((unit, bool, int) k_row \<times> (unit, bool, int) k_row) list" where
  "ex_toks = map (\<lambda>n. (\<lambda>_. n, \<lambda>_. - n)) [1, 2, 3]"

definition ex_row_layer :: "(nat seq_id, (unit, bool, int) k_row) tier \<Rightarrow> (nat, (unit, bool, int) k_row) quest_layer" where
  "ex_row_layer t =
     \<lparr>ql_layer_idx = 0, ql_tier_manager = Some t, ql_config = None, ql_indices_view = None,
      ql_kv_sharing_target = None, ql_scratch_ptr = None\<rparr>"

theorem full_selection_is_dense_witness:
  "\<exists>t t'. can_attend (Rid 7) ex_toks [0] t \<and>
    run_sparse_decode (quest_selection_torch topk_ref) (\<lambda>w k v slots n. mset (paged_rows k v slots n))
      (decode_md 7 4 [0] 3) [ex_query] (ex_row_layer t, Map.empty) =
    Inr ([mset ex_toks], (ex_row_layer t)\<lparr>ql_tier_manager := Some t'\<rparr>, Map.empty)"
proof -
  let ?md = "decode_md (7 :: nat) 4 [0] 3"
  have len: "length ex_toks = 3" and zip: "zip (map fst ex_toks) (map snd ex_toks) = ex_toks"
    by (simp_all add: ex_toks_def)
  have md: "seq_id_for ?md 0 = Rid 7" "md_seq_lens ?md = [length ex_toks]" "md_quest_top_k ?md = 4"
    by (simp_all add: seq_id_for_def decode_md_def len)
  from ready_ingest [OF ex_pair_ready [of "\<lambda>_. 0"], of 3 "map fst ex_toks" "map snd ex_toks" ex_row_ops None] obtain t where
    t: "decoding 6 (Rid (7 :: nat)) ex_toks t" "bsz t = 2" "sm_capacity (slot_map t) = 2"
    by (auto simp: len zip ex_layer_simps)
  have "(Rid 7, 1) \<in> dom (slot_of t)" using t(1,2) by (simp add: decoding_def live_ids_def len)
  then have "dom (slot_of t) \<noteq> {}" by blast
  then have ca: "can_attend (Rid 7) ex_toks [0] t"
    by (intro decoding_can_attend [OF t(1)]) (simp_all add: len t(2,3))
  have "ql_tier_manager (ex_row_layer t) = Some t" by (simp add: ex_row_layer_def)
  from full_selection_is_dense [where md = ?md and toks = ex_toks and topk = topk_ref and w = ex_query and registry = Map.empty
      and attn = "\<lambda>w rows. mset rows" and flash = "\<lambda>w k v slots n. mset (paged_rows k v slots n)", OF this]
  show ?thesis using ca md t(2) is_topk_ref decoding_summaries [OF t(1)] by (auto simp: len)
qed

end
