(* ===== verification/Quest_Engine.thy ===== *)
theory Quest_Engine
  imports Quest_Generate
begin

text \<open>
  A forward pass through the layers of the model. The summary store, the residency table, the
  host store and the stream pool are single objects to which the tier managers of all layers
  refer (\<open>init_runtime_state\<close> of \<^verbatim>\<open>quest/backend.py\<close> passes the same ones to every
  \<open>TierManager\<close>), and the layers that share the scratch tensor have one engine cache. A tier of
  the model carries the stores as fields, so what one layer writes is given to all others
  before the next layer runs. In the synchronous mode the cross-layer registry is empty, so no
  tier manager occurs twice in the state.
\<close>

section \<open>Passes over the layers\<close>

definition share_stores :: "('r, 'a) quest_layer \<Rightarrow> ('r, 'a) quest_layer list \<Rightarrow> ('r, 'a) quest_layer list" where
  "share_stores l ls =
     (case ql_tier_manager l of
        None \<Rightarrow> ls
      | Some t \<Rightarrow> map (\<lambda>l'. l'\<lparr>ql_tier_manager := map_option (hand_on t) (ql_tier_manager l')\<rparr>) ls)"

type_synonym ('r, 'a) pass_state =
  "scratch_owners \<times> ('r, 'a) quest_layer list \<times> (nat \<rightharpoonup> ('r seq_id, 'a) tier) \<times> 'a kv_cache"

definition layer_forward ::
  "('w, 'a, 'o, 'r) backend_env \<Rightarrow> 'r quest_md \<Rightarrow> 'w list \<times> 'a list \<times> 'a list \<Rightarrow> nat \<Rightarrow> nat \<Rightarrow> ('r, 'a) pass_state \<Rightarrow>
   ('o list \<times> ('r, 'a) pass_state) result" where
  "layer_forward e md inp ptr i s =
     (case s of (owners, ls, registry, kv) \<Rightarrow> case inp of (query, key, val) \<Rightarrow>
        chain (py_nth ls i) (\<lambda>l.
        chain (quest_forward e (Some md) query key val ptr (owners, l, registry, kv)) (\<lambda>(outs, owners, l, registry, kv).
          Inr (outs, owners, share_stores l (ls[i := l]), registry, kv))))"

text \<open>
  The loop over the decoder layers. What a layer gets as query, key and value is computed from
  the output of the layers before it; here it is an arbitrary function of the layer.
\<close>

fun model_pass ::
  "('w, 'a, 'o, 'r) backend_env \<Rightarrow> 'r quest_md \<Rightarrow> (nat \<Rightarrow> 'w list \<times> 'a list \<times> 'a list) \<Rightarrow> nat \<Rightarrow> nat list \<Rightarrow>
   ('r, 'a) pass_state \<Rightarrow> ('o list list \<times> ('r, 'a) pass_state) result" where
  "model_pass e md inp ptr [] s = Inr ([], s)"
| "model_pass e md inp ptr (i # is) s =
     chain (layer_forward e md (inp i) ptr i s) (\<lambda>(outs, s).
     chain (model_pass e md inp ptr is s) (\<lambda>(more, s). Inr (outs # more, s)))"

text \<open>Decode steps of one request: in each step every layer gets a query and the key and value of the token.\<close>

fun decode_passes ::
  "('w, 'a, 'o, 'r) backend_env \<Rightarrow> 'r \<Rightarrow> int \<Rightarrow> int list \<Rightarrow> nat \<Rightarrow> nat \<Rightarrow> (nat \<Rightarrow> 'w \<times> 'a \<times> 'a) list \<Rightarrow>
   ('r, 'a) pass_state \<Rightarrow> ('o list list list \<times> ('r, 'a) pass_state) result" where
  "decode_passes e r top_k idx ptr n [] s = Inr ([], s)"
| "decode_passes e r top_k idx ptr n (step # steps) s =
     chain (model_pass e (decode_md r top_k idx (Suc n)) (\<lambda>i. case step i of (w, k, v) \<Rightarrow> ([w], [k], [v])) ptr
              [0 ..< length (fst (snd s))] s) (\<lambda>(outs, s).
     chain (decode_passes e r top_k idx ptr (Suc n) steps s) (\<lambda>(more, s). Inr (outs # more, s)))"

section \<open>Layers do not disturb each other\<close>

text \<open>The tiers refer to the same stores, each to rows of its own.\<close>

definition linked :: "('r, 'a) quest_layer list \<Rightarrow> bool" where
  "linked ls \<longleftrightarrow>
     (\<forall>l \<in> set ls. ql_tier_manager l \<noteq> None) \<and>
     distinct (map (\<lambda>l. layer_idx (the (ql_tier_manager l))) ls) \<and>
     (\<forall>l \<in> set ls. \<forall>l' \<in> set ls. hand_on (the (ql_tier_manager l)) (the (ql_tier_manager l')) = the (ql_tier_manager l'))"

definition own_rows :: "('q, 'a) tier \<Rightarrow> ('q, 'a) tier \<Rightarrow> bool" where
  "own_rows t t' \<longleftrightarrow>
     layer_idx t' = layer_idx t \<and> stream_pool t' = stream_pool t \<and> cs_apart (layer_idx t) (cpu_store t) (cpu_store t') \<and>
     ss_apart (layer_idx t) (summary_store t) (summary_store t') \<and> res_apart (layer_idx t) (residency t) (residency t')"

lemma same_shape_own: "same_shape (t\<lparr>active_seqs := a\<rparr>) t' \<Longrightarrow> stream_pool t' = stream_pool t \<Longrightarrow> own_rows t t'"
  by (simp add: same_shape_def own_rows_def)

text \<open>What another layer has done to the tier \<open>u\<close>: its stores have changed, in rows of others.\<close>

definition elsewhere :: "('q, 'a) tier \<Rightarrow> ('q, 'a) tier \<Rightarrow> bool" where
  "elsewhere u u' \<longleftrightarrow> (\<exists>t t'. own_rows t t' \<and> hand_on t u = u \<and> layer_idx t \<noteq> layer_idx u \<and> u' = hand_on t' u)"

lemma hand_on_simps [simp]:
  "layer_idx (hand_on t u) = layer_idx u" "slot_map (hand_on t u) = slot_map u" "active_seqs (hand_on t u) = active_seqs u"
  "gpu_k (hand_on t u) = gpu_k u" "gpu_v (hand_on t u) = gpu_v u" "cpu_slots (hand_on t u) = cpu_slots u"
  "host_slots (hand_on t u) = host_slots u" "enable_write_through (hand_on t u) = enable_write_through u"
  "block_ordering (hand_on t u) = block_ordering u" "trimmed (hand_on t u) = trimmed u"
  "summary_store (hand_on t u) = summary_store t" "residency (hand_on t u) = residency t" "cpu_store (hand_on t u) = cpu_store t"
  "stream_pool (hand_on t u) = stream_pool t" "hand_on t t = t" "hand_on t (hand_on t' u) = hand_on t u"
  "hand_on (hand_on t u) w = hand_on t w"
  by (simp_all add: hand_on_def)

lemma hand_on_same:
  assumes "hand_on t u = u"
  shows "summary_store u = summary_store t" "residency u = residency t" "cpu_store u = cpu_store t" "stream_pool u = stream_pool t"
  using assms by (metis hand_on_simps(11-14))+

text \<open>The parts of the stores that a tier reads are the same for a tier that others have worked beside.\<close>

lemma elsewhere_view:
  assumes "elsewhere u u'"
  shows "bsz u' = bsz u" "stream_pool u' = stream_pool u" "layer_idx u' = layer_idx u" "slot_map u' = slot_map u"
    "active_seqs u' = active_seqs u" "gpu_k u' = gpu_k u" "gpu_v u' = gpu_v u" "backup u' = backup u"
    "cpu_slots u' = cpu_slots u" "host_slots u' = host_slots u" "enable_write_through u' = enable_write_through u"
    "block_ordering u' = block_ordering u" "trimmed u' = trimmed u" "cpu_free u' = cpu_free u" "host_at u' = host_at u"
    "res_of u' = res_of u" "cs_blocks_per_layer (cpu_store u') = cs_blocks_per_layer (cpu_store u)"
    "cs_shape bs (layer_idx u) (cpu_store u') = cs_shape bs (layer_idx u) (cpu_store u)"
    "ss_in_range (summary_store u') (layer_idx u) = ss_in_range (summary_store u) (layer_idx u)"
    "res_in_range (residency u') (layer_idx u) = res_in_range (residency u) (layer_idx u)"
proof -
  from assms obtain t t' where t: "own_rows t t'" "hand_on t u = u" "layer_idx t \<noteq> layer_idx u" "u' = hand_on t' u"
    by (auto simp: elsewhere_def)
  note S = hand_on_same [OF t(2)]
  have n: "layer_idx u \<noteq> layer_idx t" using t(3) by simp
  show "bsz u' = bsz u" "stream_pool u' = stream_pool u" "layer_idx u' = layer_idx u" "slot_map u' = slot_map u"
    "active_seqs u' = active_seqs u" "gpu_k u' = gpu_k u" "gpu_v u' = gpu_v u" "backup u' = backup u"
    "cpu_slots u' = cpu_slots u" "host_slots u' = host_slots u" "enable_write_through u' = enable_write_through u"
    "block_ordering u' = block_ordering u" "trimmed u' = trimmed u"
    "cs_blocks_per_layer (cpu_store u') = cs_blocks_per_layer (cpu_store u)"
    "ss_in_range (summary_store u') (layer_idx u) = ss_in_range (summary_store u) (layer_idx u)"
    using t(1,4) S by (simp_all add: own_rows_def ss_apart_def cs_apart_def backup_def)
  show "cpu_free u' = cpu_free u" "host_at u' = host_at u" "res_of u' = res_of u"
    "cs_shape bs (layer_idx u) (cpu_store u') = cs_shape bs (layer_idx u) (cpu_store u)"
    "res_in_range (residency u') (layer_idx u) = res_in_range (residency u) (layer_idx u)"
    using t(1,4) S n by (simp_all add: own_rows_def cs_apart_def res_apart_def rows_apart_def cs_shape_def cs_at_def res_at_def
        res_in_range_def fun_eq_iff)
qed

lemma elsewhere_inv:
  assumes "elsewhere u u'"
  shows "content u' = content u" "tier_inv q u' = tier_inv q u" "tier_fresh q u' = tier_fresh q u"
    "decoding m q toks u' = decoding m q toks u" "ready m q u' = ready m q u"
proof -
  note V = elsewhere_view [OF assms]
  have a: "arena_at u' = arena_at u" using V by (simp add: arena_at_def fun_eq_iff)
  show c: "content u' = content u" using V a by (intro ext) (simp add: content_def split: option.split)
  show i: "tier_inv q u' = tier_inv q u" using V a by (simp add: tier_inv_defs)
  show f: "tier_fresh q u' = tier_fresh q u" using V c i by (simp add: tier_fresh_def)
  show "decoding m q toks u' = decoding m q toks u" using V c i by (simp add: decoding_def holds_tokens_def)
  show "ready m q u' = ready m q u" using V f by (simp add: ready_def)
qed

text \<open>After a layer has run, the layers are linked again, and the other tiers have been worked beside.\<close>

lemma linkedD:
  assumes "linked ls" "i < length ls"
  shows "ql_tier_manager (ls ! i) = Some (the (ql_tier_manager (ls ! i)))"
    "j < length ls \<Longrightarrow> hand_on (the (ql_tier_manager (ls ! i))) (the (ql_tier_manager (ls ! j))) = the (ql_tier_manager (ls ! j))"
    "j < length ls \<Longrightarrow> i \<noteq> j \<Longrightarrow> layer_idx (the (ql_tier_manager (ls ! i))) \<noteq> layer_idx (the (ql_tier_manager (ls ! j)))"
  using assms by (auto simp: linked_def distinct_conv_nth)

lemma share_stores_nth:
  assumes "linked ls" "i < length ls" "ql_tier_manager l = Some t'" "j < length ls"
  shows "share_stores l (ls[i := l]) ! j =
    (if j = i then l else (ls ! j)\<lparr>ql_tier_manager := Some (hand_on t' (the (ql_tier_manager (ls ! j))))\<rparr>)"
  using assms(3,4) linkedD(1) [OF assms(1,4)] by (cases "ql_tier_manager (ls ! j)") (simp_all add: share_stores_def)

lemma share_stores_ok:
  assumes ls: "linked ls" "i < length ls" and l: "ql_tier_manager (ls ! i) = Some t" "ql_tier_manager l = Some t'" "own_rows t t'"
  shows "linked (share_stores l (ls[i := l]))" "length (share_stores l (ls[i := l])) = length ls"
    "\<And>j. j < length ls \<Longrightarrow> j \<noteq> i \<Longrightarrow> \<exists>u u'. ql_tier_manager (ls ! j) = Some u \<and> elsewhere u u' \<and>
      share_stores l (ls[i := l]) ! j = (ls ! j)\<lparr>ql_tier_manager := Some u'\<rparr>"
proof -
  let ?ls = "share_stores l (ls[i := l])" and ?t = "\<lambda>j. the (ql_tier_manager (ls ! j))"
  note N = share_stores_nth [OF ls l(2)]
  show len: "length ?ls = length ls" by (simp add: share_stores_def split: option.split)
  have tm: "ql_tier_manager (?ls ! j) = Some (hand_on t' (if j = i then t' else ?t j))" if "j < length ls" for j
    using N [OF that] l(2) by simp
  have li: "layer_idx (the (ql_tier_manager (?ls ! j))) = layer_idx (?t j)" if "j < length ls" for j
    using tm [OF that] l(1,3) by (simp add: own_rows_def)
  have "map (\<lambda>l. layer_idx (the (ql_tier_manager l))) ?ls = map (\<lambda>l. layer_idx (the (ql_tier_manager l))) ls"
    by (rule nth_equalityI) (use len li in simp_all)
  then have "distinct (map (\<lambda>l. layer_idx (the (ql_tier_manager l))) ?ls)" using ls(1) by (simp add: linked_def)
  then show "linked ?ls" using tm len unfolding linked_def by (auto simp: in_set_conv_nth)
  fix j
  assume j: "j < length ls" "j \<noteq> i"
  have "elsewhere (?t j) (hand_on t' (?t j))"
    unfolding elsewhere_def using l linkedD(2,3) [OF ls j(1)] j(2) by (intro exI [of _ t] exI [of _ t']) auto
  then show "\<exists>u u'. ql_tier_manager (ls ! j) = Some u \<and> elsewhere u u' \<and> ?ls ! j = (ls ! j)\<lparr>ql_tier_manager := Some u'\<rparr>"
    using linkedD(1) [OF ls(1) j(1)] N [OF j(1)] j(2) by (intro exI [of _ "?t j"] exI [of _ "hand_on t' (?t j)"]) simp
qed

text \<open>
  The pass in general: if each layer, from its precondition, returns with its postcondition
  and writes its own rows only, and the conditions survive the work of others, then the pass
  returns with all postconditions. \<open>E\<close> is a condition on the scratch tensor and its owner.
\<close>

lemma model_pass_from:
  assumes step: "\<And>i l owners kv. i < n \<Longrightarrow> Pre i l \<Longrightarrow> E owners kv \<Longrightarrow>
      \<exists>outs owners' l' kv' t t'.
        quest_forward e (Some md) (fst (inp i)) (fst (snd (inp i))) (snd (snd (inp i))) ptr (owners, l, registry, kv) =
          Inr (outs, owners', l', registry, kv') \<and>
        Post i outs l' \<and> E owners' kv' \<and> ql_tier_manager l = Some t \<and> ql_tier_manager l' = Some t' \<and> own_rows t t'"
    and pre: "\<And>i l u u'. Pre i l \<Longrightarrow> ql_tier_manager l = Some u \<Longrightarrow> elsewhere u u' \<Longrightarrow> Pre i (l\<lparr>ql_tier_manager := Some u'\<rparr>)"
    and post: "\<And>i outs l u u'. Post i outs l \<Longrightarrow> ql_tier_manager l = Some u \<Longrightarrow> elsewhere u u' \<Longrightarrow>
      Post i outs (l\<lparr>ql_tier_manager := Some u'\<rparr>)"
    and st: "linked ls" "length ls = n" "E owners kv" "k \<le> n" "length os = k"
      "\<forall>i < k. Post i (os ! i) (ls ! i)" "\<forall>i. k \<le> i \<and> i < n \<longrightarrow> Pre i (ls ! i)"
  shows "\<exists>outs owners' ls' kv'. model_pass e md inp ptr [k ..< n] (owners, ls, registry, kv) = Inr (outs, owners', ls', registry, kv') \<and>
    linked ls' \<and> length ls' = n \<and> E owners' kv' \<and> length (os @ outs) = n \<and> (\<forall>i < n. Post i ((os @ outs) ! i) (ls' ! i))"
  using st
proof (induction "n - k" arbitrary: k os ls owners kv)
  case 0
  then show ?case by (intro exI [of _ "[]"]) simp
next
  case (Suc m)
  then have k: "k < n" "[k ..< n] = k # [Suc k ..< n]" by (simp_all add: upt_conv_Cons)
  have "Pre k (ls ! k)" using Suc.prems(7) k(1) by simp
  from step [OF k(1) this Suc.prems(3)] obtain outs owners' l' kv' t t' where
    s: "quest_forward e (Some md) (fst (inp k)) (fst (snd (inp k))) (snd (snd (inp k))) ptr (owners, ls ! k, registry, kv) =
        Inr (outs, owners', l', registry, kv')"
      "Post k outs l'" "E owners' kv'" "ql_tier_manager (ls ! k) = Some t" "ql_tier_manager l' = Some t'" "own_rows t t'" by blast
  let ?ls = "share_stores l' (ls[k := l'])"
  have kl: "k < length ls" using k(1) Suc.prems(2) by simp
  note S = share_stores_ok [OF Suc.prems(1) kl s(4-6)] and N = share_stores_nth [OF Suc.prems(1) kl s(5)]
  have run: "layer_forward e md (inp k) ptr k (owners, ls, registry, kv) = Inr (outs, owners', ?ls, registry, kv')"
    using s(1) kl by (simp add: layer_forward_def split_def del: chain_eq_Inr)
  have "\<forall>i < Suc k. Post i ((os @ [outs]) ! i) (?ls ! i)"
  proof (intro allI impI)
    fix i
    assume i: "i < Suc k"
    show "Post i ((os @ [outs]) ! i) (?ls ! i)"
    proof (cases "i = k")
      case True
      then show ?thesis using s(2) N [of k] kl Suc.prems(5) by (simp add: nth_append)
    next
      case False
      then have "i < length ls" "Post i (os ! i) (ls ! i)" using i kl Suc.prems(6) by simp_all
      with S(3) [of i] False post show ?thesis using Suc.prems(5) i by (auto simp: nth_append)
    qed
  qed
  moreover have "\<forall>i. Suc k \<le> i \<and> i < n \<longrightarrow> Pre i (?ls ! i)"
  proof (intro allI impI)
    fix i
    assume i: "Suc k \<le> i \<and> i < n"
    then have "i < length ls" "i \<noteq> k" "Pre i (ls ! i)" using Suc.prems(2,7) by simp_all
    with S(3) [of i] pre show "Pre i (?ls ! i)" by auto
  qed
  ultimately have "\<exists>more owners'' ls' kv''. model_pass e md inp ptr [Suc k ..< n] (owners', ?ls, registry, kv') =
      Inr (more, owners'', ls', registry, kv'') \<and> linked ls' \<and> length ls' = n \<and> E owners'' kv'' \<and>
      length ((os @ [outs]) @ more) = n \<and> (\<forall>i < n. Post i (((os @ [outs]) @ more) ! i) (ls' ! i))"
    using Suc.hyps(2) k(1) S(1,2) s(3) Suc.prems(2,5) by (intro Suc.hyps(1)) simp_all
  then obtain more owners'' ls' kv'' where m: "model_pass e md inp ptr [Suc k ..< n] (owners', ?ls, registry, kv') =
      Inr (more, owners'', ls', registry, kv'')" "linked ls'" "length ls' = n" "E owners'' kv''"
      "length ((os @ [outs]) @ more) = n" "\<forall>i < n. Post i (((os @ [outs]) @ more) ! i) (ls' ! i)" by blast
  have "model_pass e md inp ptr [k ..< n] (owners, ls, registry, kv) = Inr (outs # more, owners'', ls', registry, kv'')"
    unfolding k(2) using run m(1) by (simp del: chain_eq_Inr)
  then show ?case using m(2-6) by (intro exI [of _ "outs # more"]) simp
qed

section \<open>A request on all layers\<close>

text \<open>A layer that waits for a request of at most \<open>m\<close> tokens, and one that holds tokens of it.\<close>

definition waiting :: "nat \<Rightarrow> 'r \<Rightarrow> int list \<Rightarrow> nat \<Rightarrow> int \<Rightarrow> ('r, 'a) quest_layer \<Rightarrow> bool" where
  "waiting m r idx bs top_k l \<longleftrightarrow>
     (\<exists>t. ql_tier_manager l = Some t \<and> kvshare_served idx l \<and> ready m (Rid r) t \<and> bsz t = bs \<and>
        nat top_k < sm_capacity (slot_map t))"

definition serving :: "nat \<Rightarrow> 'r \<Rightarrow> int list \<Rightarrow> nat \<Rightarrow> int \<Rightarrow> ('a \<times> 'a) list \<Rightarrow> ('r, 'a) quest_layer \<Rightarrow> bool" where
  "serving m r idx bs top_k toks l \<longleftrightarrow>
     (\<exists>t. ql_tier_manager l = Some t \<and> kvshare_served idx l \<and> decoding m (Rid r) toks t \<and> active_seqs t = Some {Rid r} \<and>
        bsz t = bs \<and> nat top_k < sm_capacity (slot_map t))"

lemma elsewhere_layer:
  assumes "ql_tier_manager l = Some u" "elsewhere u u'"
  shows "waiting m r idx bs top_k l \<Longrightarrow> waiting m r idx bs top_k (l\<lparr>ql_tier_manager := Some u'\<rparr>)"
    "serving m r idx bs top_k toks l \<Longrightarrow> serving m r idx bs top_k toks (l\<lparr>ql_tier_manager := Some u'\<rparr>)"
  using assms elsewhere_view(1,4,5) [OF assms(2)] elsewhere_inv(4,5) [OF assms(2)]
  by (auto simp: waiting_def serving_def intro: kvshare_served_upd)

lemma prefill_pass_ok:
  assumes "linked ls" "\<forall>i < length ls. waiting m r idx bs top_k (ls ! i)"
    and "length slots \<le> m" "1 < length slots" "\<forall>x \<in> set slots. x < int (scratch_slots kv)"
    and "\<forall>i < length ls. length (fst (snd (prompt i))) = length slots \<and> length (snd (snd (prompt i))) = length slots"
    and "case owners ptr of None \<Rightarrow> True | Some (_, finished) \<Rightarrow> finished"
    and "\<And>kv xs. scratch_slots (be_write e kv xs) = scratch_slots kv"
  shows "\<exists>dense owners' ls' kv'. model_pass e (prefill_md r top_k idx slots) prompt ptr [0 ..< length ls] (owners, ls, registry, kv) =
      Inr (dense, owners', ls', registry, kv') \<and> linked ls' \<and> length ls' = length ls \<and>
    (\<forall>i < length ls. serving m r idx bs top_k (zip (fst (snd (prompt i))) (snd (snd (prompt i)))) (ls' ! i))"
proof -
  let ?E = "\<lambda>owners kv'. (case owners ptr of None \<Rightarrow> True | Some (_, finished) \<Rightarrow> finished) \<and> scratch_slots kv' = scratch_slots kv"
  let ?Post = "\<lambda>i (_ :: 'd list). serving m r idx bs top_k (zip (fst (snd (prompt i))) (snd (snd (prompt i))))"
  have step: "\<exists>outs owners' l' kv'' t t'.
      quest_forward e (Some (prefill_md r top_k idx slots)) (fst (prompt i)) (fst (snd (prompt i))) (snd (snd (prompt i))) ptr
        (owners, l, registry, kv') = Inr (outs, owners', l', registry, kv'') \<and>
      ?Post i outs l' \<and> ?E owners' kv'' \<and> ql_tier_manager l = Some t \<and> ql_tier_manager l' = Some t' \<and> own_rows t t'"
    if i: "i < length ls" and w: "waiting m r idx bs top_k l" and E: "?E owners kv'" for i l owners kv'
  proof -
    from w obtain t where t: "ql_tier_manager l = Some t" "kvshare_served idx l" "ready m (Rid r) t" "bsz t = bs"
      "nat top_k < sm_capacity (slot_map t)" by (auto simp: waiting_def)
    have "length (fst (snd (prompt i))) = length slots" "length (snd (snd (prompt i))) = length slots"
      "\<forall>x \<in> set slots. x < int (scratch_slots kv')" using assms(5,6) i E by simp_all
    from prefill_forward_ok [where e = e and query = "fst (prompt i)" and registry = registry and top_k = top_k and
        owners = owners and ptr = ptr and kv = kv' and key = "fst (snd (prompt i))" and val = "snd (snd (prompt i))",
        OF t(1-3) assms(3) this(1,2) assms(4) this(3) conjunct1 [OF E]]
    obtain t' owners' kv'' scr where p: "quest_forward e (Some (prefill_md r top_k idx slots)) (fst (prompt i)) (fst (snd (prompt i)))
        (snd (snd (prompt i))) ptr (owners, l, registry, kv') =
        Inr (be_fa e kv'', owners', l\<lparr>ql_scratch_ptr := scr, ql_tier_manager := Some t'\<rparr>, registry, kv'')"
      "decoding m (Rid r) (zip (fst (snd (prompt i))) (snd (snd (prompt i)))) t'"
      "same_shape (t\<lparr>active_seqs := Some {Rid r}\<rparr>) t'" "bsz t' = bsz t" "sm_capacity (slot_map t') = sm_capacity (slot_map t)"
      "case owners' ptr of None \<Rightarrow> True | Some (_, finished) \<Rightarrow> finished" "kv'' \<in> {kv', be_write e kv' slots}"
      by (elim exE conjE) (rule that)
    have "own_rows t t'" using same_shape_own [OF p(3)] p(2) t(3) by (simp add: decoding_def ready_def)
    moreover have "kvshare_served idx (l\<lparr>ql_scratch_ptr := scr, ql_tier_manager := Some t'\<rparr>)"
      using kvshare_served_upd [of idx "l\<lparr>ql_scratch_ptr := scr\<rparr>"] t(2) by simp
    then have "?Post i (be_fa e kv'') (l\<lparr>ql_scratch_ptr := scr, ql_tier_manager := Some t'\<rparr>)"
      using p(2,4,5) t(4,5) same_shapeD(3) [OF p(3)] by (simp add: serving_def)
    moreover have "scratch_slots kv'' = scratch_slots kv" using p(7) E assms(8) by auto
    ultimately show ?thesis using p(1,6) t(1)
      by (intro exI [of _ "be_fa e kv''"] exI [of _ owners'] exI [of _ "l\<lparr>ql_scratch_ptr := scr, ql_tier_manager := Some t'\<rparr>"]
          exI [of _ kv''] exI [of _ t] exI [of _ t']) simp
  qed
  have "\<exists>dense owners' ls' kv'. model_pass e (prefill_md r top_k idx slots) prompt ptr [0 ..< length ls] (owners, ls, registry, kv) =
      Inr (dense, owners', ls', registry, kv') \<and> linked ls' \<and> length ls' = length ls \<and> ?E owners' kv' \<and>
      length ([] @ dense) = length ls \<and> (\<forall>i < length ls. ?Post i (([] @ dense) ! i) (ls' ! i))"
    by (rule model_pass_from [where Pre = "\<lambda>_. waiting m r idx bs top_k", OF step])
      (use assms(1,2,7) in \<open>auto intro: elsewhere_layer\<close>)
  then show ?thesis by (elim exE conjE) (intro exI conjI)
qed

lemma decode_pass_ok:
  assumes "linked ls" "\<forall>i < length ls. serving m r idx bs top_k (toks i) (ls ! i) \<and> length (toks i) = n"
    and "n < m" "bs \<le> Suc n" "0 \<le> top_k" "be_iter e {} = []" "selects (be_select e)"
    and "\<And>w k v table n. be_flash e w k v table n = attn w (paged_rows k v table n)"
  shows "\<exists>outs owners' ls' kv'. model_pass e (decode_md r top_k idx (Suc n)) (\<lambda>i. case step i of (w, k, v) \<Rightarrow> ([w], [k], [v])) ptr
      [0 ..< length ls] (owners, ls, registry, kv) = Inr (outs, owners', ls', registry, kv') \<and> linked ls' \<and> length ls' = length ls \<and>
    (\<forall>i < length ls. serving m r idx bs top_k (toks i @ [snd (step i)]) (ls' ! i) \<and>
       (\<exists>out. outs ! i = [out] \<and> attended bs attn (nat top_k) (fst (step i)) (toks i @ [snd (step i)]) out))"
proof -
  let ?inp = "\<lambda>i. case step i of (w, k, v) \<Rightarrow> ([w], [k], [v])" and ?md = "decode_md r top_k idx (Suc n)"
  let ?Post = "\<lambda>i outs l. serving m r idx bs top_k (toks i @ [snd (step i)]) l \<and>
    (\<exists>out. outs = [out] \<and> attended bs attn (nat top_k) (fst (step i)) (toks i @ [snd (step i)]) out)"
  have step: "\<exists>outs owners' l' kv' t t'.
      quest_forward e (Some ?md) (fst (?inp i)) (fst (snd (?inp i))) (snd (snd (?inp i))) ptr (owners, l, registry, kv) =
        Inr (outs, owners', l', registry, kv') \<and>
      ?Post i outs l' \<and> True \<and> ql_tier_manager l = Some t \<and> ql_tier_manager l' = Some t' \<and> own_rows t t'"
    if i: "i < length ls" and w: "serving m r idx bs top_k (toks i) l" for i l owners kv
  proof -
    from w obtain t where t: "ql_tier_manager l = Some t" "kvshare_served idx l" "decoding m (Rid r) (toks i) t"
      "active_seqs t = Some {Rid r}" "bsz t = bs" "nat top_k < sm_capacity (slot_map t)" by (auto simp: serving_def)
    obtain q k v where st: "step i = (q, k, v)" by (cases "step i") auto
    have n: "length (toks i) = n" using assms(2) i by blast
    have "length (toks i) < m" "bsz t \<le> Suc (length (toks i))" using n assms(3,4) t(5) by simp_all
    from decode_forward_ok [where e = e and w = q and k = k and v = v and ptr = ptr and owners = owners and registry = registry and
        kv = kv, OF t(1-4) this assms(5) t(6) assms(6-8)]
    obtain out t' where p: "quest_forward e (Some ?md) [q] [k] [v] ptr (owners, l, registry, kv) =
        Inr ([out], owners, l\<lparr>ql_tier_manager := Some t'\<rparr>, registry, kv)"
      "attended bs attn (nat top_k) q (toks i @ [(k, v)]) out" "decoding m (Rid r) (toks i @ [(k, v)]) t'"
      "tier_frame t t'" "same_shape t t'"
      unfolding n t(5) by blast
    note F = tier_frame_eqs [OF p(4)]
    have "own_rows t t'" using same_shape_own [where t = t and a = "active_seqs t" and t' = t'] p(3,5) t(3) by (simp add: decoding_def)
    moreover have "serving m r idx bs top_k (toks i @ [(k, v)]) (l\<lparr>ql_tier_manager := Some t'\<rparr>)"
      using p(3) t F same_shapeD(3) [OF p(5)] kvshare_served_upd [OF t(2)] by (simp add: serving_def)
    ultimately show ?thesis using p(1,2) t(1)
      by (intro exI [of _ "[out]"] exI [of _ owners] exI [of _ "l\<lparr>ql_tier_manager := Some t'\<rparr>"] exI [of _ kv] exI [of _ t]
          exI [of _ t']) (simp add: st)
  qed
  have "\<exists>outs owners' ls' kv'. model_pass e ?md ?inp ptr [0 ..< length ls] (owners, ls, registry, kv) =
      Inr (outs, owners', ls', registry, kv') \<and> linked ls' \<and> length ls' = length ls \<and> True \<and>
      length ([] @ outs) = length ls \<and> (\<forall>i < length ls. ?Post i (([] @ outs) ! i) (ls' ! i))"
    by (rule model_pass_from [where Pre = "\<lambda>i. serving m r idx bs top_k (toks i)" and E = "\<lambda>_ _. True", OF step])
      (use assms(1,2) in \<open>auto intro: elsewhere_layer\<close>)
  then show ?thesis by (elim exE conjE) (simp only: append_Nil, blast)
qed

lemma decode_passes_ok:
  assumes "linked ls" "\<forall>i < length ls. serving m r idx bs top_k (toks i) (ls ! i) \<and> length (toks i) = n"
    and "n + length steps \<le> m" "bs \<le> Suc n" "0 \<le> top_k" "be_iter e {} = []" "selects (be_select e)"
    and "\<And>w k v table n. be_flash e w k v table n = attn w (paged_rows k v table n)"
  shows "\<exists>outs owners' ls' kv'. decode_passes e r top_k idx ptr n steps (owners, ls, registry, kv) =
      Inr (outs, owners', ls', registry, kv') \<and> length outs = length steps \<and>
    (\<forall>i < length ls. serving m r idx bs top_k (toks i @ map (\<lambda>step. snd (step i)) steps) (ls' ! i) \<and>
       (\<forall>j < length steps. \<exists>out. outs ! j ! i = [out] \<and> attended bs attn (nat top_k) (fst ((steps ! j) i))
          (toks i @ map (\<lambda>step. snd (step i)) (take (Suc j) steps)) out))"
  using assms(1-4)
proof (induction steps arbitrary: ls toks n owners kv)
  case Nil
  then show ?case by simp
next
  case (Cons step steps)
  have n: "n < m" using Cons.prems(3) by simp
  from decode_pass_ok [where step = step and ptr = ptr and owners = owners and registry = registry and kv = kv and e = e and
      attn = attn, OF Cons.prems(1,2) n Cons.prems(4) assms(5-8)]
  obtain outs owners' ls' kv' where p: "model_pass e (decode_md r top_k idx (Suc n)) (\<lambda>i. case step i of (w, k, v) \<Rightarrow> ([w], [k], [v])) ptr
      [0 ..< length ls] (owners, ls, registry, kv) = Inr (outs, owners', ls', registry, kv')" "linked ls'" "length ls' = length ls"
    "\<And>i. i < length ls \<Longrightarrow> serving m r idx bs top_k (toks i @ [snd (step i)]) (ls' ! i)"
    "\<And>i. i < length ls \<Longrightarrow> \<exists>out. outs ! i = [out] \<and> attended bs attn (nat top_k) (fst (step i)) (toks i @ [snd (step i)]) out"
    by blast
  have "\<exists>more owners'' ls'' kv''. decode_passes e r top_k idx ptr (Suc n) steps (owners', ls', registry, kv') =
      Inr (more, owners'', ls'', registry, kv'') \<and> length more = length steps \<and>
    (\<forall>i < length ls'. serving m r idx bs top_k ((toks i @ [snd (step i)]) @ map (\<lambda>step. snd (step i)) steps) (ls'' ! i) \<and>
       (\<forall>j < length steps. \<exists>out. more ! j ! i = [out] \<and> attended bs attn (nat top_k) (fst ((steps ! j) i))
          ((toks i @ [snd (step i)]) @ map (\<lambda>step. snd (step i)) (take (Suc j) steps)) out))"
    by (rule Cons.IH [OF p(2)]) (use p(3,4) Cons.prems in auto)
  then obtain more owners'' ls'' kv'' where g: "decode_passes e r top_k idx ptr (Suc n) steps (owners', ls', registry, kv') =
      Inr (more, owners'', ls'', registry, kv'')" "length more = length steps"
    "\<And>i. i < length ls \<Longrightarrow> serving m r idx bs top_k (toks i @ map (\<lambda>step. snd (step i)) (step # steps)) (ls'' ! i)"
    "\<And>i j. i < length ls \<Longrightarrow> j < length steps \<Longrightarrow> \<exists>out. more ! j ! i = [out] \<and> attended bs attn (nat top_k) (fst ((steps ! j) i))
          (toks i @ map (\<lambda>step. snd (step i)) (take (Suc (Suc j)) (step # steps))) out"
    unfolding p(3) by (auto simp: append_assoc)
  have run: "decode_passes e r top_k idx ptr n (step # steps) (owners, ls, registry, kv) =
      Inr (outs # more, owners'', ls'', registry, kv'')"
    using p(1) g(1) by (simp del: chain_eq_Inr)
  have "\<exists>out. (outs # more) ! j ! i = [out] \<and> attended bs attn (nat top_k) (fst (((step # steps) ! j) i))
          (toks i @ map (\<lambda>step. snd (step i)) (take (Suc j) (step # steps))) out"
    if "i < length ls" "j < length (step # steps)" for i j
    using that p(5) [of i] g(4) [of i "j - 1"] by (cases j) simp_all
  with run g(2,3) show ?case
    by (intro exI [of _ "outs # more"] exI [of _ owners''] exI [of _ ls''] exI [of _ kv'']) simp
qed

end
