(* ===== verification/Quest_Runtime.thy ===== *)
theory Quest_Runtime
  imports Quest_Selection Quest_Engine
begin

text \<open>
  Construction of the sparse backend at engine start: \<open>init_runtime_state\<close> and \<open>bind_runtime\<close>
  of \<^verbatim>\<open>quest/backend.py\<close>, and the layer index table that the model runner
  (\<^verbatim>\<open>worker/gpu_model_runner.py\<close>) hands to the metadata builders. A layer after binding is
  ready for a request of the maximal length.
\<close>

section \<open>Layers and tensors\<close>

text \<open>A layer of the static forward context, under its name in the module tree.\<close>

record ('r, 'a) attn_layer =
  al_layer_name :: "string option"
  al_on_quest :: bool
  al_layer :: "('r, 'a) quest_layer"

abbreviation al_idx :: "('r, 'a) attn_layer \<Rightarrow> int" where
  "al_idx al \<equiv> int (ql_layer_idx (al_layer al))"

text \<open>
  \<open>torch.empty\<close>: the tensor number \<open>tag\<close> of the construction, with whatever the memory held,
  as a list of blocks of rows.
\<close>

type_synonym 'a torch_empty = "nat \<Rightarrow> nat \<Rightarrow> nat \<Rightarrow> 'a list list"

definition torch_shapes :: "'a torch_empty \<Rightarrow> bool" where
  "torch_shapes mem \<longleftrightarrow> (\<forall>tag n rows. length (mem tag n rows) = n \<and> (\<forall>b \<in> set (mem tag n rows). length b = rows))"

text \<open>The ordering by its configured name; the code compares with \<open>lru\<close> and \<open>mixture\<close> only.\<close>

definition ordering_of :: "string \<Rightarrow> block_ordering" where
  "ordering_of s = (if s = ''lru'' then Lru else if s = ''mixture'' then Mixture else Prefetch)"

section \<open>Construction of the runtime\<close>

text \<open>
  The arena and the tier manager of one layer. \<open>kv_caches\<close> gives the block dimension of the
  engine tensor of a layer, which the arena takes over. All managers get the same stores; that
  they are objects the managers share is in the passes of \<open>Quest_Engine\<close>.
\<close>

definition attach_tier ::
  "'a torch_empty \<Rightarrow> quest_config \<Rightarrow> nat \<Rightarrow> (string \<rightharpoonup> nat) option \<Rightarrow> 'a summary_store \<Rightarrow> residency \<Rightarrow> 'a cpu_store \<Rightarrow>
   ('r seq_id, 'a) stream_pool option \<Rightarrow> nat \<Rightarrow> ('r, 'a) attn_layer \<Rightarrow> ('r, 'a) attn_layer result" where
  "attach_tier mem c block_size kv_caches summary res cs pool slot al =
     (let cap = qc_gpu_cache_blocks_per_seq c;
          rows = (case (kv_caches, al_layer_name al) of
                    (Some caches, Some name) \<Rightarrow> (case caches name of Some full \<Rightarrow> full | None \<Rightarrow> block_size)
                  | _ \<Rightarrow> block_size)
      in chain (guard (0 \<le> cap) RuntimeError) (\<lambda>_.
         chain (tm_init slot (nat cap) (mem (2 * slot + 2) (nat cap) rows) (mem (2 * slot + 3) (nat cap) rows) summary res cs pool
                  (qc_enable_debug_counters c) (qc_enable_debug_counters c) False (qc_enable_write_through c)
                  (ordering_of (qc_block_ordering c)) (qc_prefetch_touch c)) (\<lambda>t.
         Inr (al\<lparr>al_layer := (al_layer al)\<lparr>ql_tier_manager := Some t, ql_config := Some c\<rparr>\<rparr>))))"

fun attach_tiers ::
  "(nat \<Rightarrow> ('r, 'a) attn_layer \<Rightarrow> ('r, 'a) attn_layer result) \<Rightarrow> nat \<Rightarrow> ('r, 'a) attn_layer list \<Rightarrow>
   ('r, 'a) attn_layer list result" where
  "attach_tiers mk slot [] = Inr []"
| "attach_tiers mk slot (al # als) =
     chain (mk slot al) (\<lambda>al. chain (attach_tiers mk (Suc slot) als) (\<lambda>als. Inr (al # als)))"

text \<open>The cross-layer registry, by the index of the layer in the model.\<close>

definition tm_registry :: "('r, 'a) attn_layer list \<Rightarrow> nat \<rightharpoonup> ('r seq_id, 'a) tier" where
  "tm_registry als =
     fold (\<lambda>al r. r(ql_layer_idx (al_layer al) := ql_tier_manager (al_layer al))) als Map.empty"

definition register_layers ::
  "quest_config \<Rightarrow> ('r, 'a) attn_layer list \<Rightarrow> ('r, 'a) attn_layer list \<times> (nat \<rightharpoonup> ('r seq_id, 'a) tier)" where
  "register_layers c als =
     (if qc_enable_async_prefetch c \<and> qc_block_ordering c \<noteq> ''lru''
      then (map (al_layer_update (\<lambda>l. l\<lparr>ql_indices_view := Some (sort (remdups (map (\<lambda>al. ql_layer_idx (al_layer al)) als)))\<rparr>)) als,
            tm_registry als)
      else (als, Map.empty))"

text \<open>
  The objects of the layers are updated in place: \<open>put_back P xs ys\<close> is the list of all
  layers after those with \<open>P\<close> have become \<open>ys\<close>.
\<close>

fun put_back :: "('x \<Rightarrow> bool) \<Rightarrow> 'x list \<Rightarrow> 'x list \<Rightarrow> 'x list" where
  "put_back P [] ys = []"
| "put_back P (x # xs) ys =
     (if P x then (case ys of [] \<Rightarrow> x # xs | y # ys \<Rightarrow> y # put_back P xs ys) else x # put_back P xs ys)"

definition sparse_layer :: "quest_config \<Rightarrow> ('r, 'a) attn_layer \<Rightarrow> bool" where
  "sparse_layer c al \<longleftrightarrow> al_idx al \<notin> set (qc_full_kv_layers c)"

text \<open>The selection function is returned: the code stores it on each layer.\<close>

definition init_runtime_state ::
  "'a torch_empty \<Rightarrow> 'a \<Rightarrow> 's \<Rightarrow> 's \<Rightarrow> 's \<Rightarrow> ('r, 'a) attn_layer list \<Rightarrow> nat \<Rightarrow> nat \<Rightarrow> nat \<Rightarrow> nat \<Rightarrow> nat \<Rightarrow> quest_config \<Rightarrow>
   (string \<rightharpoonup> nat) option \<Rightarrow> int option \<Rightarrow> int option \<Rightarrow>
   ('s option \<times> ('r, 'a) attn_layer list \<times> (nat \<rightharpoonup> ('r seq_id, 'a) tier)) result" where
  "init_runtime_state mem zero torch triton cuda layers block_size num_kv_heads head_size max_blocks_total element_size c
     kv_caches max_model_len max_num_seqs =
     (let quest_layers = filter (sparse_layer c) layers; num_quest = length quest_layers
      in if \<not> qc_enabled c \<or> quest_layers = [] then Inr (None, layers, Map.empty)
         else
           chain (resolve_selection_callable (qc_selection_impl c) torch triton cuda) (\<lambda>selection.
           chain (resolve_cpu_blocks_per_layer c (2 * int block_size * int num_kv_heads * int head_size * int element_size)
                    (int num_quest) max_model_len max_num_seqs (Some (int block_size))) (\<lambda>cpu_blocks.
           chain (ss_init num_quest max_blocks_total block_size (qc_digest_mode c) zero) (\<lambda>summary.
           chain (cs_init num_quest (nat cpu_blocks) (map (\<lambda>_. mem 0 (nat cpu_blocks) block_size) [0 ..< num_quest])
                    (map (\<lambda>_. mem 1 (nat cpu_blocks) block_size) [0 ..< num_quest])) (\<lambda>cs.
           chain (attach_tiers (attach_tier mem c block_size kv_caches summary (res_init num_quest max_blocks_total) cs
                    (if qc_enable_async_prefetch c then Some sp_init else None)) 0 quest_layers) (\<lambda>als.
             let (als, registry) = register_layers c als
             in Inr (Some selection, put_back (sparse_layer c) layers als, registry)))))))"

definition bind_runtime ::
  "'a torch_empty \<Rightarrow> 'a \<Rightarrow> 's \<Rightarrow> 's \<Rightarrow> 's \<Rightarrow> arkvale_config option \<Rightarrow> quest_config option \<Rightarrow> model_config \<Rightarrow> cache_config \<Rightarrow>
   int option \<Rightarrow> int option \<Rightarrow> nat \<Rightarrow> nat \<Rightarrow> nat \<Rightarrow> nat \<Rightarrow> (string \<rightharpoonup> nat) \<Rightarrow> ('r, 'a) attn_layer list \<Rightarrow>
   ('s option \<times> ('r, 'a) attn_layer list \<times> (nat \<rightharpoonup> ('r seq_id, 'a) tier)) result" where
  "bind_runtime mem zero torch triton cuda arkvale quest m cc max_model_len max_num_seqs num_blocks num_kv_heads head_size
     element_size kv_caches layers =
     (case get_active_sparse_cfg arkvale quest of
        None \<Rightarrow> Inr (None, layers, Map.empty)
      | Some c \<Rightarrow>
          if validate_quest_configuration m cc (Some c) \<noteq> [] then Inl ValueError
          else
            let bound = (\<lambda>al. al_on_quest al \<and> sparse_layer c al); quest_layers_list = filter bound layers
            in if quest_layers_list = [] then Inr (None, layers, Map.empty)
               else
                 chain (init_runtime_state mem zero torch triton cuda quest_layers_list (nat (cc_block_size cc)) num_kv_heads
                          head_size num_blocks element_size c (Some kv_caches) max_model_len max_num_seqs)
                   (\<lambda>(selection, als, registry). Inr (selection, put_back bound layers als, registry)))"

section \<open>The layer index table\<close>

definition quest_layer_indices :: "int set \<Rightarrow> nat list \<Rightarrow> int list" where
  "quest_layer_indices full idxs =
     (let sorted_idxs = sort idxs; num_layers = (if sorted_idxs = [] then 0 else last sorted_idxs + 1)
      in fst (fold (\<lambda>idx (table, slot). if int idx \<in> full then (table, slot) else (table[idx := slot], slot + 1))
           sorted_idxs (replicate num_layers (- 1), 0)))"

section \<open>A new tier\<close>

lemma torch_shapesD:
  assumes "torch_shapes mem"
  shows "length (mem tag n rows) = n" "i < n \<Longrightarrow> length (mem tag n rows ! i) = rows"
  using assms nth_mem [of i "mem tag n rows"] unfolding torch_shapes_def by (blast, metis)

lemma built_tier_inv:
  assumes mem: "torch_shapes mem" and slot: "slot < n" and cap: "0 < cap"
    and ss: "ss_init n M bs mode zero = Inr ss"
    and cs: "cs_init n N (map (\<lambda>_. mem 0 N bs) [0 ..< n]) (map (\<lambda>_. mem 1 N bs) [0 ..< n]) = Inr cs"
    and t: "tm_init slot cap (mem a cap bs) (mem b cap bs) ss (res_init n M) cs pool dbg cpt False wt bord touch = Inr t"
  shows "tier_fresh q t"
proof -
  have ss': "ss_block_size ss = bs" using ss by (auto simp: ss_init_def split: if_splits)
  have cs': "cs = \<lparr>cs_k = map (\<lambda>_. mem 0 N bs) [0 ..< n], cs_v = map (\<lambda>_. mem 1 N bs) [0 ..< n], cs_num_layers = n,
      cs_blocks_per_layer = N, cs_free = replicate n (rev [0 ..< N]),
      cs_stats = \<lparr>alloc_count = 0, free_count = 0, store_calls = 0, load_calls = 0\<rparr>\<rparr>"
    using cs by (auto simp: cs_init_def split: if_splits)
  have t': "layer_idx t = slot" "slot_map t = sm_init cap" "summary_store t = ss" "cpu_store t = cs" "cpu_slots t = []"
      "host_slots t = []" "residency t = res_init n M" "gpu_k t = mem a cap bs" "gpu_v t = mem b cap bs"
    using t by (auto simp: tm_init_def)
  have "arena_ok t" using cap sm_inv_init [of cap] torch_shapesD [OF mem]
    by (simp add: arena_ok_def t' ss' sm_init_def)
  moreover have "host_ok [] t" using slot torch_shapesD [OF mem]
    by (auto simp: host_ok_def backup_def cs_shape_def t' cs' ss')
  moreover have empty: "slot_of t k = None" "backup t = []" for k by (simp_all add: t' sm_init_def backup_def)
  then have "agree q {} t" by (intro agreeI) auto
  moreover have "content t = Map.empty" using empty by (simp add: content_def fun_eq_iff)
  moreover have "res_of t b' = ON_GPU" if "res_in_range (residency t) (layer_idx t) b'" for b'
    using that slot by (simp add: t' res_at_def res_in_range_def res_init_def)
  ultimately show ?thesis by (simp add: tier_fresh_def tier_inv_def tier_step_inv_def)
qed

lemma built_tier_ready:
  assumes "torch_shapes mem" "slot < n" "0 < cap" "0 < bs" "len \<le> N * bs" "len \<le> M * bs" "bord \<noteq> Mixture"
    and ss: "ss_init n M bs mode zero = Inr ss"
    and cs: "cs_init n N (map (\<lambda>_. mem 0 N bs) [0 ..< n]) (map (\<lambda>_. mem 1 N bs) [0 ..< n]) = Inr cs"
    and t: "tm_init slot cap (mem a cap bs) (mem b cap bs) ss (res_init n M) cs None dbg cpt False False bord touch = Inr t"
  shows "ready len q t" "bsz t = bs" "sm_capacity (slot_map t) = cap"
proof -
  have ss': "ss_block_size ss = bs" "ss_in_range ss slot b' = (b' < M)" for b'
    using ss assms(2) by (auto simp: ss_init_def ss_in_range_def split: if_splits)
  have cs': "cs_blocks_per_layer cs = N" using cs by (auto simp: cs_init_def split: if_splits)
  have t': "layer_idx t = slot" "summary_store t = ss" "cpu_store t = cs" "residency t = res_init n M"
      "stream_pool t = None" "enable_write_through t = False" "block_ordering t = bord" "trimmed t = {}" "active_seqs t = None"
      "slot_map t = sm_init cap"
    using t by (auto simp: tm_init_def)
  have "b' < M" if "b' * bs < len" for b'
  proof -
    have "b' * bs < M * bs" using that assms(6) by linarith
    then show ?thesis by simp
  qed
  then show "ready len q t"
    using built_tier_inv [OF assms(1-3) ss cs t, of q] assms(2,4,5,7)
    by (simp add: ready_def t' ss' cs' res_in_range_def res_init_def)
  show "bsz t = bs" "sm_capacity (slot_map t) = cap" by (simp_all add: t' ss' sm_init_def)
qed

section \<open>Binding\<close>

lemma attach_tiers_rel:
  assumes "attach_tiers mk slot als = Inr als'"
    and "\<And>i al al'. slot \<le> i \<Longrightarrow> i < slot + length als \<Longrightarrow> al \<in> set als \<Longrightarrow> mk i al = Inr al' \<Longrightarrow> R al al'"
  shows "list_all2 R als als'"
  using assms
proof (induction mk slot als arbitrary: als' rule: attach_tiers.induct)
  case (2 mk slot al als)
  then obtain al' als'' where s: "mk slot al = Inr al'" "attach_tiers mk (Suc slot) als = Inr als''" "als' = al' # als''" by auto
  have "R al al'" using "2.prems"(2) [of slot] s(1) by simp
  moreover have "list_all2 R als als''"
  proof (rule "2.IH" [OF s(2)])
    fix i a a'
    assume "Suc slot \<le> i" "i < Suc slot + length als" "a \<in> set als" "mk i a = Inr a'"
    then show "R a a'" using "2.prems"(2) [of i a a'] by simp
  qed
  ultimately show ?case using s(3) by simp
qed simp

lemma put_back_rel:
  "list_all2 R (filter P xs) ys \<Longrightarrow> list_all2 (\<lambda>x y. (P x \<longrightarrow> R x y) \<and> (\<not> P x \<longrightarrow> y = x)) xs (put_back P xs ys)"
  by (induction xs arbitrary: ys) (auto simp: list_all2_Cons1)

text \<open>A layer that has been given a tier ready for \<open>len\<close> tokens, with room for the selection.\<close>

definition bound_for :: "quest_config \<Rightarrow> nat \<Rightarrow> nat \<Rightarrow> ('r, 'a) attn_layer \<Rightarrow> ('r, 'a) attn_layer \<Rightarrow> bool" where
  "bound_for c len bs al al' \<longleftrightarrow>
     (\<exists>t. al' = al\<lparr>al_layer := (al_layer al)\<lparr>ql_tier_manager := Some t, ql_config := Some c\<rparr>\<rparr> \<and>
        (\<forall>q. ready len q t) \<and> bsz t = bs \<and> qc_top_k c < int (sm_capacity (slot_map t)))"

text \<open>The configurations of the synchronous write-back mode whose host pool holds a whole sequence.\<close>

definition sync_write_back :: "quest_config \<Rightarrow> int \<Rightarrow> int \<Rightarrow> int \<Rightarrow> bool" where
  "sync_write_back c len seqs bs \<longleftrightarrow>
     \<not> qc_enable_async_prefetch c \<and> \<not> qc_enable_write_through c \<and> qc_block_ordering c \<noteq> ''mixture'' \<and>
     0 \<le> len \<and> 1 \<le> seqs \<and> 0 < bs \<and> qc_cpu_cache_gib c = None \<and> - (- len div bs) * seqs \<le> qc_cpu_cache_blocks c"

lemma sync_pool:
  assumes "sync_write_back c len seqs bs" "0 < n"
    and "resolve_cpu_blocks_per_layer c page n (Some len) (Some seqs) (Some bs) = Inr N"
  shows "len \<le> N * bs" "0 \<le> N"
proof -
  note S = assms(1) [unfolded sync_write_back_def]
  have N: "N = - (- len div bs) * seqs" using assms by (auto simp: resolve_cpu_blocks_per_layer_def sync_write_back_def Let_def)
  have pos: "0 \<le> - (- len div bs)" using S by (simp add: div_nonpos_pos_le0)
  then show "0 \<le> N" using N S by (simp add: mult_nonpos_nonneg)
  have "- (- len div bs) * 1 \<le> - (- len div bs) * seqs" using pos S by (intro mult_left_mono) auto
  then have "- (- len div bs) * bs \<le> N * bs" using N S by (intro mult_right_mono) auto
  then show "len \<le> N * bs" using cdiv_covers [of bs len] S by linarith
qed

text \<open>The engine tensors have the block size of the cache.\<close>

definition engine_rows :: "nat \<Rightarrow> (string \<rightharpoonup> nat) option \<Rightarrow> bool" where
  "engine_rows bs kv_caches \<longleftrightarrow> (\<forall>caches. kv_caches = Some caches \<longrightarrow> ran caches \<subseteq> {bs})"

lemma attach_tier_bound:
  assumes at: "attach_tier mem c bs kv_caches ss (res_init n M) cs None slot al = Inr al'"
    and mem: "torch_shapes mem" and slot: "slot < n" and cap: "0 < qc_gpu_cache_blocks_per_seq c" "qc_top_k c < qc_gpu_cache_blocks_per_seq c"
    and cfg: "\<not> qc_enable_write_through c" "qc_block_ordering c \<noteq> ''mixture''"
    and len: "0 < bs" "len \<le> N * bs" "len \<le> M * bs"
    and caches: "engine_rows bs kv_caches"
    and ss: "ss_init n M bs mode zero = Inr ss"
    and cs: "cs_init n N (map (\<lambda>_. mem 0 N bs) [0 ..< n]) (map (\<lambda>_. mem 1 N bs) [0 ..< n]) = Inr cs"
  shows "bound_for c len bs al al'"
proof -
  let ?cap = "nat (qc_gpu_cache_blocks_per_seq c)"
  have rows: "(case (kv_caches, al_layer_name al) of (Some caches, Some name) \<Rightarrow>
      (case caches name of Some full \<Rightarrow> full | None \<Rightarrow> bs) | _ \<Rightarrow> bs) = bs"
    using caches by (auto simp: engine_rows_def ran_def split: option.split)
  obtain t where t: "tm_init slot ?cap (mem (2 * slot + 2) ?cap bs) (mem (2 * slot + 3) ?cap bs) ss (res_init n M) cs None
      (qc_enable_debug_counters c) (qc_enable_debug_counters c) False False (ordering_of (qc_block_ordering c)) (qc_prefetch_touch c) = Inr t"
    "al' = al\<lparr>al_layer := (al_layer al)\<lparr>ql_tier_manager := Some t, ql_config := Some c\<rparr>\<rparr>"
    using at cfg(1) unfolding attach_tier_def Let_def rows by auto
  have bord: "ordering_of (qc_block_ordering c) \<noteq> Mixture" using cfg(2) by (simp add: ordering_of_def)
  have "0 < ?cap" using cap(1) by simp
  note R = built_tier_ready [OF mem slot this len bord ss cs t(1)]
  then have "qc_top_k c < int (sm_capacity (slot_map t))" using cap by simp
  then show ?thesis using t(2) R(1,2) unfolding bound_for_def by blast
qed

lemma init_runtime_bound:
  assumes init: "init_runtime_state mem zero torch triton cuda layers bs heads head_size M elt c kv_caches (Some len) (Some seqs) =
      Inr (sel, layers', registry)"
    and en: "qc_enabled c" "\<forall>al \<in> set layers. sparse_layer c al" "layers \<noteq> []"
    and mem: "torch_shapes mem" and cap: "0 < qc_gpu_cache_blocks_per_seq c" "qc_top_k c < qc_gpu_cache_blocks_per_seq c"
    and cfg: "sync_write_back c len seqs (int bs)" and M: "nat len \<le> M * bs"
    and caches: "engine_rows bs kv_caches"
  shows "list_all2 (bound_for c (nat len) bs) layers layers'" "registry = Map.empty"
    "\<exists>f. sel = Some f \<and> resolve_selection_callable (qc_selection_impl c) torch triton cuda = Inr f"
proof -
  let ?n = "length layers"
  note S = cfg [unfolded sync_write_back_def]
  have fl: "filter (sparse_layer c) layers = layers" using en(2) by (simp add: filter_id_conv)
  have sync: "\<not> qc_enable_async_prefetch c" "\<not> qc_enable_write_through c" "qc_block_ordering c \<noteq> ''mixture''" using S by simp_all
  from init obtain f N ss cs als where
    r: "resolve_selection_callable (qc_selection_impl c) torch triton cuda = Inr f"
      "resolve_cpu_blocks_per_layer c (2 * int bs * int heads * int head_size * int elt) (int ?n) (Some len) (Some seqs) (Some (int bs)) = Inr N"
      "ss_init ?n M bs (qc_digest_mode c) zero = Inr ss"
      "cs_init ?n (nat N) (map (\<lambda>_. mem 0 (nat N) bs) [0 ..< ?n]) (map (\<lambda>_. mem 1 (nat N) bs) [0 ..< ?n]) = Inr cs"
      "attach_tiers (attach_tier mem c bs kv_caches ss (res_init ?n M) cs None) 0 layers = Inr als"
      "sel = Some f" "layers' = put_back (sparse_layer c) layers als" "registry = Map.empty"
    using en sync(1) unfolding init_runtime_state_def Let_def fl register_layers_def by auto
  have "0 < int ?n" using en(3) by simp
  note N = sync_pool [OF cfg this r(2)]
  have len: "nat len \<le> nat N * bs" using N by (metis nat_int nat_mono nat_mult_distrib)
  have "0 < bs" using S by simp
  have "list_all2 (bound_for c (nat len) bs) layers als"
    by (rule attach_tiers_rel [OF r(5)])
      (rule attach_tier_bound [OF _ mem _ cap sync(2,3) \<open>0 < bs\<close> len M caches r(3,4)], assumption, simp)
  then have "list_all2 (\<lambda>x y. (sparse_layer c x \<longrightarrow> bound_for c (nat len) bs x y) \<and> (\<not> sparse_layer c x \<longrightarrow> y = x)) layers layers'"
    using put_back_rel [of _ "sparse_layer c" layers als] fl r(7) by simp
  then show "list_all2 (bound_for c (nat len) bs) layers layers'"
    using en(2) by (simp add: list_all2_conv_all_nth)
  show "registry = Map.empty" "\<exists>f. sel = Some f \<and> resolve_selection_callable (qc_selection_impl c) torch triton cuda = Inr f"
    using r by auto
qed

lemma active_cfg_enabled: "get_active_sparse_cfg arkvale quest = Some c \<Longrightarrow> qc_enabled c"
  by (auto simp: get_active_sparse_cfg_def as_quest_def arkvale_config.defs split: option.splits if_splits)

lemma valid_top_k:
  assumes "validate_quest_configuration m cc (Some c) = []" "qc_enabled c"
  shows "qc_top_k c < qc_gpu_cache_blocks_per_seq c"
  using assms by (auto simp: validate_quest_configuration_def split: if_splits)

lemma bind_layers_ok:
  fixes layers :: "('r, 'a) attn_layer list"
  assumes "bind_runtime mem zero torch triton cuda arkvale quest m cc (Some len) (Some seqs) num_blocks heads head_size elt
      kv_caches layers = Inr (sel, layers', registry)"
    and "get_active_sparse_cfg arkvale quest = Some c" "0 < qc_top_k c" "sync_write_back c len seqs (cc_block_size cc)"
    and "torch_shapes mem" "engine_rows (nat (cc_block_size cc)) (Some kv_caches)" "len \<le> int num_blocks * cc_block_size cc"
  shows "list_all2 (\<lambda>al al'. if al_on_quest al \<and> sparse_layer c al
      then bound_for c (nat len) (nat (cc_block_size cc)) al al' else al' = al) layers layers'"
proof -
  define bound where "bound = (\<lambda>al :: ('r, 'a) attn_layer. al_on_quest al \<and> sparse_layer c al)"
  let ?bs = "nat (cc_block_size cc)"
  note S = assms(4) [unfolded sync_write_back_def]
  have v: "validate_quest_configuration m cc (Some c) = []" using assms(1,2) by (auto simp: bind_runtime_def split: if_splits)
  have en: "qc_enabled c" using active_cfg_enabled [OF assms(2)] .
  note cap = valid_top_k [OF v en]
  have M: "nat len \<le> num_blocks * ?bs" using assms(7) S by (metis nat_int nat_mono nat_mult_distrib of_nat_0_le_iff)
  show ?thesis
  proof (cases "filter bound layers = []")
    case True
    then have "layers' = layers" using assms(1,2) v by (simp add: bind_runtime_def Let_def flip: bound_def)
    moreover have "\<not> bound (layers ! i)" if "i < length layers" for i using True that by (simp add: filter_empty_conv)
    ultimately show ?thesis by (auto simp: list_all2_conv_all_nth bound_def)
  next
    case False
    then obtain als where als: "init_runtime_state mem zero torch triton cuda (filter bound layers) ?bs heads head_size num_blocks elt c
        (Some kv_caches) (Some len) (Some seqs) = Inr (sel, als, registry)" "layers' = put_back bound layers als"
      using assms(1,2) v by (auto simp: bind_runtime_def Let_def simp flip: bound_def)
    have "list_all2 (bound_for c (nat len) ?bs) (filter bound layers) als"
      by (rule init_runtime_bound [OF als(1)]) (use en False assms(3-6) S M cap in \<open>auto simp: bound_def\<close>)
    from put_back_rel [OF this] show ?thesis
      unfolding als(2) by (simp add: bound_def list_all2_conv_all_nth)
  qed
qed

text \<open>
  Binding a validated configuration of the synchronous write-back mode gives every
  layer on the sparse backend that is not a full-KV layer a tier manager that is ready for
  a sequence of the maximal model length, with room in the arena for a selection and the
  live block; every other layer is left as it was.
\<close>

theorem bound_layers_ready:
  fixes layers :: "('r, 'a) attn_layer list"
  assumes "bind_runtime mem zero torch triton cuda arkvale quest m cc (Some len) (Some seqs) num_blocks heads head_size elt
      kv_caches layers = Inr (sel, layers', registry)"
    and "get_active_sparse_cfg arkvale quest = Some c" "0 < qc_top_k c" "sync_write_back c len seqs (cc_block_size cc)"
    and "torch_shapes mem" "engine_rows (nat (cc_block_size cc)) (Some kv_caches)" "len \<le> int num_blocks * cc_block_size cc"
  shows "list_all2 (\<lambda>al al'. if al_on_quest al \<and> sparse_layer c al
      then bound_for c (nat len) (nat (cc_block_size cc)) al al' else al' = al) layers layers'"
  by (rule bind_layers_ok [OF assms])

text \<open>
  Binding links the layers: the tier managers are given the same stores, and each the row of
  its position among the sparse layers.
\<close>

lemma attach_tiers_nth:
  assumes "attach_tiers mk slot als = Inr als'"
  shows "length als' = length als" "i < length als \<Longrightarrow> mk (slot + i) (als ! i) = Inr (als' ! i)"
proof -
  have "length als' = length als \<and> (\<forall>i < length als. mk (slot + i) (als ! i) = Inr (als' ! i))"
    using assms by (induction mk slot als arbitrary: als' rule: attach_tiers.induct) (auto simp: less_Suc_eq_0_disj)
  then show "length als' = length als" "i < length als \<Longrightarrow> mk (slot + i) (als ! i) = Inr (als' ! i)" by blast+
qed

lemma filter_put_back:
  "length ys = length (filter P xs) \<Longrightarrow> \<forall>y \<in> set ys. P y \<Longrightarrow> filter P (put_back P xs ys) = ys"
  by (induction xs arbitrary: ys) (auto split: list.split)

lemma put_back_all: "\<forall>x \<in> set xs. P x \<Longrightarrow> length ys = length xs \<Longrightarrow> put_back P xs ys = ys"
  by (induction xs arbitrary: ys) (auto split: list.split)

lemma attach_tier_layer:
  assumes "attach_tier mem c bs kv_caches ss res cs pool slot al = Inr al'"
  shows "al_on_quest al' = al_on_quest al" "sparse_layer c al' = sparse_layer c al"
    "\<exists>t. ql_tier_manager (al_layer al') = Some t \<and> layer_idx t = slot \<and> summary_store t = ss \<and> residency t = res \<and>
      cpu_store t = cs \<and> stream_pool t = pool"
  using assms by (auto simp: attach_tier_def tm_init_def Let_def sparse_layer_def)

lemma attach_tiers_linked:
  assumes "attach_tiers (attach_tier mem c bs kv_caches ss res cs pool) 0 als = Inr als'"
  shows "linked (map al_layer als')"
proof -
  let ?t = "\<lambda>i. the (ql_tier_manager (al_layer (als' ! i)))"
  note N = attach_tiers_nth [OF assms]
  have t: "ql_tier_manager (al_layer (als' ! i)) = Some (?t i)" "layer_idx (?t i) = i" "summary_store (?t i) = ss"
      "residency (?t i) = res" "cpu_store (?t i) = cs" "stream_pool (?t i) = pool" if "i < length als'" for i
    using attach_tier_layer(3) [OF N(2)] that N(1) by fastforce+
  have "hand_on (?t i) (?t j) = ?t j" if "i < length als'" "j < length als'" for i j
    using t(3-6) [OF that(1)] t(3-6) [OF that(2)] by (simp add: hand_on_def)
  moreover have "map (\<lambda>al. layer_idx (the (ql_tier_manager (al_layer al)))) als' = [0 ..< length als']"
    by (rule nth_equalityI) (use t(2) in simp_all)
  ultimately show ?thesis using t(1) by (auto simp: linked_def o_def in_set_conv_nth) blast
qed

lemma bind_layers_linked:
  fixes layers :: "('r, 'a) attn_layer list"
  assumes "bind_runtime mem zero torch triton cuda arkvale quest m cc len seqs num_blocks heads head_size elt
      kv_caches layers = Inr (sel, layers', registry)"
    and "get_active_sparse_cfg arkvale quest = Some c" "\<not> qc_enable_async_prefetch c"
  shows "linked (map al_layer (filter (\<lambda>al. al_on_quest al \<and> sparse_layer c al) layers'))"
proof -
  define bound where "bound = (\<lambda>al :: ('r, 'a) attn_layer. al_on_quest al \<and> sparse_layer c al)"
  have v: "validate_quest_configuration m cc (Some c) = []" using assms(1,2) by (auto simp: bind_runtime_def split: if_splits)
  show ?thesis
  proof (cases "filter bound layers = []")
    case True
    then have "layers' = layers" using assms(1,2) v by (simp add: bind_runtime_def Let_def flip: bound_def)
    then show ?thesis using True by (simp add: linked_def bound_def)
  next
    case False
    let ?q = "filter bound layers"
    have fl: "filter (sparse_layer c) ?q = ?q" by (simp add: bound_def filter_id_conv)
    from False obtain als where als: "init_runtime_state mem zero torch triton cuda ?q (nat (cc_block_size cc)) heads head_size
        num_blocks elt c (Some kv_caches) len seqs = Inr (sel, als, registry)" "layers' = put_back bound layers als"
      using assms(1,2) v by (auto simp: bind_runtime_def Let_def simp flip: bound_def)
    obtain ss res cs als' where r: "attach_tiers (attach_tier mem c (nat (cc_block_size cc)) (Some kv_caches) ss res cs None) 0 ?q = Inr als'"
        "als = put_back (sparse_layer c) ?q als'"
      using als(1) False assms(3) active_cfg_enabled [OF assms(2)] unfolding init_runtime_state_def Let_def fl register_layers_def
      by auto
    note N = attach_tiers_nth [OF r(1)]
    have b: "bound (als' ! i)" if "i < length als'" for i
      using attach_tier_layer(1,2) [OF N(2)] that N(1) nth_mem [of i ?q] by (auto simp: bound_def)
    then have "\<forall>al \<in> set als'. bound al" by (metis in_set_conv_nth)
    moreover have "put_back (sparse_layer c) ?q als' = als'" using N(1) by (intro put_back_all) (auto simp: bound_def)
    ultimately have "filter bound layers' = als'" using als(2) r(2) N(1) by (simp add: filter_put_back)
    then show ?thesis using attach_tiers_linked [OF r(1)] by (simp add: bound_def)
  qed
qed

lemma indices_fold:
  fixes table table' :: "int list"
  assumes "fold (\<lambda>idx (table, slot). if int idx \<in> full then (table, slot) else (table[idx := slot], slot + 1)) idxs (table, slot) =
      (table', slot')" "0 \<le> slot"
  shows "length table' = length table \<and>
    (\<forall>i < length table. 0 \<le> table' ! i \<longleftrightarrow> (0 \<le> table ! i \<or> i \<in> set idxs \<and> int i \<notin> full))"
  using assms
proof (induction idxs arbitrary: table slot)
  case (Cons idx idxs)
  show ?case
  proof (cases "int idx \<in> full")
    case True
    then show ?thesis using Cons.IH [of table slot] Cons.prems by auto
  next
    case False
    have upd: "table[idx := slot] ! i = (if i = idx then slot else table ! i)" if "i < length table" for i
      using that by simp
    show ?thesis using Cons.IH [of "table[idx := slot]" "slot + 1"] Cons.prems False by (auto simp: upd)
  qed
qed simp

lemma quest_layer_indices_sign:
  assumes "i \<in> set idxs"
  shows "i < length (quest_layer_indices full idxs)" "0 \<le> quest_layer_indices full idxs ! i \<longleftrightarrow> int i \<notin> full"
proof -
  define n where "n = last (sort idxs) + 1"
  have ne: "sort idxs \<noteq> []" using assms by (metis empty_iff list.set(1) set_sort)
  have "i \<le> last (sort idxs)"
    using assms ne sorted_nth_mono [OF sorted_sort, of _ "length (sort idxs) - 1" idxs]
    by (metis One_nat_def Suc_pred in_set_conv_nth last_conv_nth length_greater_0_conv lessI less_Suc_eq_le set_sort)
  then have i: "i < n" by (simp add: n_def)
  have t: "quest_layer_indices full idxs = fst (fold (\<lambda>idx (table, slot). if int idx \<in> full then (table, slot)
      else (table[idx := slot], slot + 1)) (sort idxs) (replicate n (- 1), 0))"
    using ne by (simp add: quest_layer_indices_def Let_def n_def)
  obtain table' slot' where f: "fold (\<lambda>idx (table, slot). if int idx \<in> full then (table, slot) else (table[idx := slot], slot + 1))
      (sort idxs) (replicate n (- 1 :: int), 0) = (table', slot')" by fastforce
  show "i < length (quest_layer_indices full idxs)" "0 \<le> quest_layer_indices full idxs ! i \<longleftrightarrow> int i \<notin> full"
    using t f indices_fold [OF f] i assms by simp_all
qed

section \<open>A concrete engine\<close>

text \<open>Three layers on the sparse backend, the first two with the full cache.\<close>

definition ex_cfg :: quest_config where
  "ex_cfg = quest_defaults\<lparr>qc_enabled := True, qc_footprint_kvshare := True\<rparr>"

definition ex_model :: model_config where
  "ex_model = \<lparr>mc_architecture = Some ''LlamaForCausalLM'', mc_is_mla = False, mc_has_sliding_window = False\<rparr>"

definition ex_cache :: cache_config where
  "ex_cache = \<lparr>cc_block_size = 256, cc_enable_prefix_caching = False\<rparr>"

definition ex_attn :: "nat \<Rightarrow> (nat, int) attn_layer" where
  "ex_attn i =
     \<lparr>al_layer_name = None, al_on_quest = True,
      al_layer = \<lparr>ql_layer_idx = i, ql_tier_manager = None, ql_config = None, ql_indices_view = None,
                  ql_kv_sharing_target = None, ql_scratch_ptr = None\<rparr>\<rparr>"

definition ex_mem :: "int torch_empty" where
  "ex_mem tag n rows = replicate n (replicate rows (int tag))"

lemma ex_mem_shapes: "torch_shapes ex_mem"
  by (simp add: torch_shapes_def ex_mem_def)

lemma ex_cfg_simps:
  "qc_enabled ex_cfg" "qc_footprint_kvshare ex_cfg" "qc_top_k ex_cfg = 64" "qc_gpu_cache_blocks_per_seq ex_cfg = 256"
  "\<not> qc_enable_async_prefetch ex_cfg" "\<not> qc_enable_write_through ex_cfg" "qc_block_ordering ex_cfg = ''lru''"
  "qc_cpu_cache_gib ex_cfg = None" "qc_cpu_cache_blocks ex_cfg = 65536" "qc_full_kv_layers ex_cfg = [0, 1]"
  "qc_selection_impl ex_cfg = ''torch''" "qc_digest_mode ex_cfg = ''quest_minmax''"
  "qc_unsupported_model_policy ex_cfg = ''error''"
  by (simp_all add: ex_cfg_def quest_defaults_def arkvale_defaults_def arkvale_config.defs)

lemma ex_active: "get_active_sparse_cfg None (Some ex_cfg) = Some ex_cfg"
  by (simp add: get_active_sparse_cfg_def ex_cfg_simps)

lemma ex_valid: "validate_quest_configuration ex_model ex_cache (Some ex_cfg) = []"
proof -
  have "check_model_compat ex_model = []" by code_simp
  then show ?thesis by (simp add: validate_quest_configuration_def ex_cfg_simps ex_cache_def)
qed

lemma ex_sync: "sync_write_back ex_cfg 1000 2 256"
  by (simp add: sync_write_back_def ex_cfg_simps)

lemma ex_bound:
  "\<exists>sel layers' registry. bind_runtime ex_mem 0 torch triton cuda None (Some ex_cfg) ex_model ex_cache (Some 1000) (Some 2) 8 4 16 2
     Map.empty (map ex_attn [0, 1, 2]) = Inr (sel, layers', registry)"
proof -
  have "filter (\<lambda>al. al_on_quest al \<and> sparse_layer ex_cfg al) (map ex_attn [0, 1, 2]) = [ex_attn 2]"
    "filter (sparse_layer ex_cfg) [ex_attn 2] = [ex_attn 2]"
    by (simp_all add: sparse_layer_def ex_attn_def ex_cfg_simps)
  then show ?thesis
    unfolding bind_runtime_def init_runtime_state_def ex_active option.case ex_valid Let_def
    by (simp add: ex_cfg_simps ex_cache_def resolve_selection_callable_def resolve_cpu_blocks_per_layer_def ss_init_def cs_init_def
        attach_tier_def tm_init_def register_layers_def Let_def del: chain_eq_Inr)
qed

text \<open>Four layers, of which the last shares the engine cache of the third as its scratch tensor.\<close>

definition ex_engine :: "(nat, int) attn_layer list" where
  "ex_engine = map ex_attn [0, 1, 2] @
     [(ex_attn 3)\<lparr>al_layer := (al_layer (ex_attn 3))\<lparr>ql_kv_sharing_target := Some ''layers.2''\<rparr>\<rparr>]"

lemma ex_engine_bound:
  "\<exists>sel layers' registry. bind_runtime ex_mem 0 torch triton cuda None (Some ex_cfg) ex_model ex_cache (Some 1000) (Some 2) 8 4 16 2
     Map.empty ex_engine = Inr (sel, layers', registry) \<and>
     length (filter (\<lambda>al. al_on_quest al \<and> sparse_layer ex_cfg al) layers') = 2"
proof -
  let ?q = "[ex_attn 2, (ex_attn 3)\<lparr>al_layer := (al_layer (ex_attn 3))\<lparr>ql_kv_sharing_target := Some ''layers.2''\<rparr>\<rparr>]"
  have "filter (\<lambda>al. al_on_quest al \<and> sparse_layer ex_cfg al) ex_engine = ?q" "filter (sparse_layer ex_cfg) ?q = ?q"
    by (simp_all add: sparse_layer_def ex_engine_def ex_attn_def ex_cfg_simps)
  then show ?thesis
    unfolding bind_runtime_def init_runtime_state_def ex_active option.case ex_valid Let_def
    by (simp add: ex_cfg_simps ex_cache_def resolve_selection_callable_def resolve_cpu_blocks_per_layer_def ss_init_def cs_init_def
        attach_tier_def tm_init_def register_layers_def ex_engine_def ex_attn_def sparse_layer_def Let_def del: chain_eq_Inr)
qed

theorem bound_layers_ready_witness:
  "\<exists>sel layers' registry. bind_runtime ex_mem 0 ''torch'' ''triton'' ''cuda'' None (Some ex_cfg) ex_model ex_cache (Some 1000) (Some 2)
      8 4 16 2 Map.empty (map ex_attn [0, 1, 2]) = Inr (sel, layers', registry) \<and>
    layers' ! 0 = ex_attn 0 \<and> layers' ! 1 = ex_attn 1 \<and> bound_for ex_cfg 1000 256 (ex_attn 2) (layers' ! 2)"
proof -
  obtain sel layers' registry where b: "bind_runtime ex_mem 0 ''torch'' ''triton'' ''cuda'' None (Some ex_cfg) ex_model ex_cache
      (Some 1000) (Some 2) 8 4 16 2 Map.empty (map ex_attn [0, 1, 2]) = Inr (sel, layers', registry)"
    using ex_bound [of "''torch''" "''triton''" "''cuda''"] by blast
  have "list_all2 (\<lambda>al al'. if al_on_quest al \<and> sparse_layer ex_cfg al
      then bound_for ex_cfg (nat 1000) (nat (cc_block_size ex_cache)) al al' else al' = al) (map ex_attn [0, 1, 2]) layers'"
    by (rule bound_layers_ready [OF b ex_active])
      (simp_all add: ex_cfg_simps ex_cache_def ex_sync ex_mem_shapes engine_rows_def)
  then have "layers' ! 0 = ex_attn 0 \<and> layers' ! 1 = ex_attn 1 \<and> bound_for ex_cfg 1000 256 (ex_attn 2) (layers' ! 2)"
    by (auto simp: list_all2_Cons1 sparse_layer_def ex_attn_def ex_cfg_simps ex_cache_def split: if_splits)
  then show ?thesis using b by blast
qed

end
