(* ===== verification/Quest_Wiring.thy ===== *)
theory Quest_Wiring
  imports Quest_Runtime
begin

text \<open>
  How the engine wires the sparse backend before it is bound: the configurations from the
  engine arguments (\<^verbatim>\<open>engine/arg_utils.py\<close>), the scratch layer each layer shares its cache
  with (\<^verbatim>\<open>layers/attention/attention.py\<close>) and the metadata builder (\<^verbatim>\<open>quest/metadata.py\<close>).
\<close>

section \<open>Configurations from the engine arguments\<close>

text \<open>
  The arguments the sparse backends have; a configuration file is what reading it gives,
  an error included.
\<close>

record 'c sparse_args =
  sa_enable :: bool
  sa_config_file :: "'c result option"
  sa_top_k :: "int option"
  sa_cpu_cache_blocks :: "int option"

definition override_sizes :: "'c sparse_args \<Rightarrow> 'z arkvale_config_scheme \<Rightarrow> 'z arkvale_config_scheme" where
  "override_sizes a cfg =
     (let cfg = cfg\<lparr>qc_enabled := qc_enabled cfg \<or> sa_enable a\<rparr>;
          cfg = (case sa_top_k a of Some k \<Rightarrow> cfg\<lparr>qc_top_k := k\<rparr> | None \<Rightarrow> cfg)
      in case sa_cpu_cache_blocks a of Some n \<Rightarrow> cfg\<lparr>qc_cpu_cache_blocks := n\<rparr> | None \<Rightarrow> cfg)"

definition quest_config_from_args :: "quest_config sparse_args \<Rightarrow> quest_config option result" where
  "quest_config_from_args a =
     (if \<not> sa_enable a \<and> sa_config_file a = None then Inr None
      else chain (case sa_config_file a of Some r \<Rightarrow> r | None \<Rightarrow> Inr quest_defaults) (\<lambda>cfg.
        let cfg = override_sizes a cfg in chain (quest_validate cfg) (\<lambda>_. Inr (Some cfg))))"

definition arkvale_config_from_args :: "arkvale_config sparse_args \<Rightarrow> arkvale_config option result" where
  "arkvale_config_from_args a =
     (if \<not> sa_enable a \<and> sa_config_file a = None then Inr None
      else chain (case sa_config_file a of Some r \<Rightarrow> r | None \<Rightarrow> Inr arkvale_defaults) (\<lambda>cfg.
        let cfg = override_sizes a cfg in chain (arkvale_validate cfg) (\<lambda>_. Inr (Some cfg))))"

definition is_on :: "'z arkvale_config_scheme option \<Rightarrow> bool" where
  "is_on cfg \<longleftrightarrow> (case cfg of None \<Rightarrow> False | Some c \<Rightarrow> qc_enabled c)"

definition resolve_sparse_offload_configs ::
  "quest_config sparse_args \<Rightarrow> arkvale_config sparse_args \<Rightarrow> (quest_config option \<times> arkvale_config option) result" where
  "resolve_sparse_offload_configs qa aa =
     chain (quest_config_from_args qa) (\<lambda>quest_cfg.
     chain (arkvale_config_from_args aa) (\<lambda>arkvale_cfg.
     chain (guard (\<not> (is_on quest_cfg \<and> is_on arkvale_cfg)) ValueError) (\<lambda>_.
       Inr (quest_cfg, arkvale_cfg))))"

text \<open>The attention backend slot that an enabled sparse backend claims.\<close>

definition claim_backend :: "'b \<Rightarrow> quest_config option \<Rightarrow> arkvale_config option \<Rightarrow> 'b option \<Rightarrow> 'b option result" where
  "claim_backend custom quest arkvale backend =
     (if is_on quest \<or> is_on arkvale
      then case backend of
             None \<Rightarrow> Inr (Some custom)
           | Some b \<Rightarrow> if b \<noteq> custom then Inl ValueError else Inr backend
      else Inr backend)"

section \<open>Layer names\<close>

fun py_split :: "char \<Rightarrow> string \<Rightarrow> string list" where
  "py_split c [] = [[]]"
| "py_split c (x # xs) = (if x = c then [] # py_split c xs else (x # hd (py_split c xs)) # tl (py_split c xs))"

definition is_digit :: "char \<Rightarrow> bool" where
  "is_digit c \<longleftrightarrow> 48 \<le> (of_char c :: nat) \<and> (of_char c :: nat) \<le> 57"

definition is_space :: "char \<Rightarrow> bool" where
  "is_space c \<longleftrightarrow> (of_char c :: nat) \<in> {9, 10, 11, 12, 13, 28, 29, 30, 31, 32}"

text \<open>\<open>int(s)\<close> of an ASCII string: blanks around it, a sign, digits grouped by single underscores.\<close>

definition py_int :: "string \<Rightarrow> int option" where
  "py_int s =
     (let s = rev (dropWhile is_space (rev (dropWhile is_space s)));
          neg = (take 1 s = ''-'');
          d = (if take 1 s = ''-'' \<or> take 1 s = ''+'' then drop 1 s else s)
      in if list_all (\<lambda>p. p \<noteq> [] \<and> list_all is_digit p) (py_split CHR ''_'' d)
         then Some ((if neg then - 1 else 1) *
                fold (\<lambda>c n. 10 * n + (of_char c - 48)) (filter is_digit d) 0)
         else None)"

definition has_infix :: "string \<Rightarrow> string \<Rightarrow> bool" where
  "has_infix w s \<longleftrightarrow> list_ex (\<lambda>i. take (length w) (drop i s) = w) [0 ..< Suc (length s)]"

definition extract_layer_index :: "string \<Rightarrow> int \<Rightarrow> int result" where
  "extract_layer_index layer_name num_attn_module =
     (let int_vals = List.map_filter py_int (py_split CHR ''.'' layer_name)
      in if num_attn_module = 1 \<or> \<not> has_infix ''attn'' layer_name
         then chain (guard (length int_vals = 1) AssertionError) (\<lambda>_. py_nth int_vals 0)
         else chain (guard (length int_vals \<le> 2) AssertionError) (\<lambda>_.
              if length int_vals = 2 then Inr (int_vals ! 0 * num_attn_module + int_vals ! 1) else py_nth int_vals 0))"

section \<open>The scratch layer\<close>

definition scratch_step :: "int set \<Rightarrow> string \<Rightarrow> (int \<times> string) option \<Rightarrow> (int \<times> string) option" where
  "scratch_step full name scratch =
     (case extract_layer_index name 1 of
        Inl _ \<Rightarrow> scratch
      | Inr idx \<Rightarrow>
          if idx \<in> full then scratch
          else case scratch of
                 None \<Rightarrow> Some (idx, name)
               | Some (scratch_idx, _) \<Rightarrow> if idx < scratch_idx then Some (idx, name) else scratch)"

definition quest_kvshare_target :: "int \<Rightarrow> int list \<Rightarrow> string list \<Rightarrow> string option" where
  "quest_kvshare_target lidx full_kv_layers constructed_layer_names =
     (if lidx \<in> set full_kv_layers then None
      else case fold (scratch_step (set full_kv_layers)) constructed_layer_names None of
             None \<Rightarrow> None
           | Some (scratch_idx, scratch_name) \<Rightarrow> if lidx \<le> scratch_idx then None else Some scratch_name)"

text \<open>The context maps the names constructed so far, in order, to their attention types.\<close>

definition validate_kv_sharing_target :: "string \<Rightarrow> string \<Rightarrow> (string \<times> string) list \<Rightarrow> unit result" where
  "validate_kv_sharing_target current target ctx =
     (if current = target then Inl ValueError
      else case map_of ctx target of
             None \<Rightarrow>
               chain (extract_layer_index current 1) (\<lambda>_. chain (extract_layer_index target 1) (\<lambda>_. Inl ValueError))
           | Some target_type \<Rightarrow>
               (case map_of ctx current of
                  None \<Rightarrow> Inl KeyError
                | Some expected \<Rightarrow> guard (target_type = expected) ValueError))"

text \<open>The part of the constructor of a layer that registers it and chooses its target.\<close>

definition construct_layer ::
  "quest_config option \<Rightarrow> string \<Rightarrow> string \<Rightarrow> string option \<Rightarrow> (string \<times> string) list \<Rightarrow>
   (string option \<times> (string \<times> string) list) result" where
  "construct_layer quest prefix attn_type given ctx =
     chain (extract_layer_index prefix 1) (\<lambda>lidx.
     chain (guard (map_of ctx prefix = None) ValueError) (\<lambda>_.
     let ctx = ctx @ [(prefix, attn_type)]
     in case given of
          Some target \<Rightarrow> chain (validate_kv_sharing_target prefix target ctx) (\<lambda>_. Inr (given, ctx))
        | None \<Rightarrow>
            (case quest of
               None \<Rightarrow> Inr (None, ctx)
             | Some c \<Rightarrow>
                 if qc_enabled c \<and> qc_footprint_kvshare c
                 then case quest_kvshare_target lidx (qc_full_kv_layers c) (map fst ctx) of
                        None \<Rightarrow> Inr (None, ctx)
                      | Some target \<Rightarrow>
                          chain (validate_kv_sharing_target prefix target ctx) (\<lambda>_. Inr (Some target, ctx))
                 else Inr (None, ctx))))"

fun construct_layers ::
  "quest_config option \<Rightarrow> (string \<times> string) list \<Rightarrow> (string \<times> string) list \<Rightarrow> string option list result" where
  "construct_layers quest [] ctx = Inr []"
| "construct_layers quest ((prefix, attn_type) # layers) ctx =
     chain (construct_layer quest prefix attn_type None ctx) (\<lambda>(target, ctx).
     chain (construct_layers quest layers ctx) (\<lambda>targets. Inr (target # targets)))"

section \<open>Metadata\<close>

record 'r md_builder =
  mb_quest_layer_indices :: "int list option"
  mb_quest_top_k :: int
  mb_request_ids :: "'r list"

definition md_builder_init :: "'r md_builder" where
  "md_builder_init = \<lparr>mb_quest_layer_indices = None, mb_quest_top_k = 64, mb_request_ids = []\<rparr>"

definition set_quest_layer_indices :: "int list \<Rightarrow> 'r md_builder \<Rightarrow> 'r md_builder" where
  "set_quest_layer_indices indices b = b\<lparr>mb_quest_layer_indices := Some indices\<rparr>"

definition set_quest_top_k :: "int \<Rightarrow> 'r md_builder \<Rightarrow> 'r md_builder" where
  "set_quest_top_k top_k b = b\<lparr>mb_quest_top_k := top_k\<rparr>"

definition set_request_ids :: "'r list \<Rightarrow> 'r md_builder \<Rightarrow> 'r md_builder" where
  "set_request_ids ids b = b\<lparr>mb_request_ids := ids\<rparr>"

text \<open>\<open>_promote\<close>: the fields of the dense metadata are kept.\<close>

definition promote :: "'r md_builder \<Rightarrow> 'r quest_md \<Rightarrow> 'r quest_md" where
  "promote b fa_md =
     fa_md\<lparr>md_quest_layer_indices := (case mb_quest_layer_indices b of None \<Rightarrow> [] | Some idx \<Rightarrow> idx),
           md_quest_top_k := mb_quest_top_k b, md_request_ids := mb_request_ids b\<rparr>"

section \<open>Properties\<close>

lemma override_sizes_enabled [simp]: "qc_enabled (override_sizes a cfg) \<longleftrightarrow> qc_enabled cfg \<or> sa_enable a"
  by (simp add: override_sizes_def Let_def split: option.split)

lemma from_args_valid:
  "quest_config_from_args qa = Inr (Some c) \<Longrightarrow> quest_validate c = Inr ()"
  "arkvale_config_from_args aa = Inr (Some a) \<Longrightarrow> arkvale_validate a = Inr ()"
  by (auto simp: quest_config_from_args_def arkvale_config_from_args_def Let_def split: if_splits)

lemma as_quest_validate: "arkvale_validate (as_quest a) = arkvale_validate a"
  by (simp add: arkvale_validate_def as_quest_def arkvale_config.defs)

text \<open>
  The configurations an engine starts with: when they are resolved at most one sparse
  backend is enabled, the active configuration is that one and has passed its validation,
  so its selection is positive and fits the arena; both enabled is a \<open>ValueError\<close>.
\<close>

theorem sparse_configs_exclusive:
  assumes "resolve_sparse_offload_configs qa aa = Inr (quest, arkvale)"
  shows "\<not> (is_on quest \<and> is_on arkvale) \<and>
    (case get_active_sparse_cfg arkvale quest of
       None \<Rightarrow> \<not> is_on quest \<and> \<not> is_on arkvale
     | Some c \<Rightarrow> qc_enabled c \<and> arkvale_validate c = Inr () \<and> 0 < qc_top_k c \<and>
         qc_top_k c \<le> qc_gpu_cache_blocks_per_seq c \<and> (is_on quest \<longrightarrow> quest = Some c))"
proof -
  from assms have r: "quest_config_from_args qa = Inr quest" "arkvale_config_from_args aa = Inr arkvale"
    "\<not> (is_on quest \<and> is_on arkvale)"
    by (auto simp: resolve_sparse_offload_configs_def)
  show ?thesis
  proof (cases "is_on arkvale")
    case True
    then obtain a where a: "arkvale = Some a" "qc_enabled a" by (auto simp: is_on_def split: option.splits)
    have v: "arkvale_validate (as_quest a) = Inr ()" using from_args_valid(2) r(2) a(1) by (simp add: as_quest_validate)
    moreover have "qc_enabled (as_quest a)" using a(2) by (simp add: as_quest_def arkvale_config.defs)
    ultimately show ?thesis using a True r(3) arkvale_validD(1,2) [OF v] by (simp add: get_active_sparse_cfg_def)
  next
    case off: False
    show ?thesis
    proof (cases "is_on quest")
      case True
      then obtain c where c: "quest = Some c" "qc_enabled c" by (auto simp: is_on_def split: option.splits)
      have v: "arkvale_validate c = Inr ()" using from_args_valid(1) r(1) c(1) quest_validD(1) by blast
      show ?thesis using c off v arkvale_validD(1,2) [OF v] by (auto simp: get_active_sparse_cfg_def is_on_def split: option.split)
    qed (use off in \<open>auto simp: get_active_sparse_cfg_def is_on_def split: option.splits\<close>)
  qed
qed

theorem sparse_configs_exclusive_witness:
  "resolve_sparse_offload_configs
     \<lparr>sa_enable = True, sa_config_file = None, sa_top_k = Some 32, sa_cpu_cache_blocks = None\<rparr>
     \<lparr>sa_enable = False, sa_config_file = None, sa_top_k = None, sa_cpu_cache_blocks = None\<rparr> =
   Inr (Some (quest_defaults\<lparr>qc_enabled := True, qc_top_k := 32\<rparr>), None) \<and>
   get_active_sparse_cfg None (Some (quest_defaults\<lparr>qc_enabled := True, qc_top_k := 32\<rparr>)) =
     Some (quest_defaults\<lparr>qc_enabled := True, qc_top_k := 32\<rparr>) \<and>
   0 < qc_top_k (quest_defaults\<lparr>qc_enabled := True, qc_top_k := 32\<rparr>)"
proof -
  let ?c = "quest_defaults\<lparr>qc_enabled := True, qc_top_k := 32\<rparr>"
  let ?qa = "\<lparr>sa_enable = True, sa_config_file = None, sa_top_k = Some 32, sa_cpu_cache_blocks = None\<rparr> :: quest_config sparse_args"
  let ?aa = "\<lparr>sa_enable = False, sa_config_file = None, sa_top_k = None, sa_cpu_cache_blocks = None\<rparr> :: arkvale_config sparse_args"
  have "resolve_sparse_offload_configs ?qa ?aa = Inr (Some ?c, None)"
    by (simp add: resolve_sparse_offload_configs_def quest_config_from_args_def arkvale_config_from_args_def override_sizes_def
        is_on_def quest_validate_def arkvale_validate_def quest_defaults_def arkvale_defaults_def arkvale_config.defs Let_def)
  moreover have "get_active_sparse_cfg None (Some ?c) = Some ?c" by (simp add: get_active_sparse_cfg_def)
  ultimately show ?thesis using sparse_configs_exclusive [of ?qa ?aa "Some ?c" None] by simp
qed

text \<open>The scratch search over the names constructed so far finds the first sparse layer.\<close>

lemma scratch_fold:
  assumes "\<forall>i < length names. extract_layer_index (names ! i) 1 = Inr (int i)" "n \<le> length names"
  shows "fold (scratch_step full) (take n names) None =
    (if \<exists>j < n. int j \<notin> full then let j = (LEAST j. int j \<notin> full) in Some (int j, names ! j) else None)"
  using assms(2)
proof (induction n)
  case (Suc n)
  define m where "m = (LEAST j. int j \<notin> full)"
  have n: "n < length names" "extract_layer_index (names ! n) 1 = Inr (int n)" using Suc.prems assms(1) by simp_all
  have IH: "fold (scratch_step full) (take n names) None = (if \<exists>j < n. int j \<notin> full then Some (int m, names ! m) else None)"
    using Suc by (simp add: Let_def m_def)
  have eq: "fold (scratch_step full) (take (Suc n) names) None =
      scratch_step full (names ! n) (fold (scratch_step full) (take n names) None)"
    by (simp add: take_Suc_conv_app_nth [OF n(1)])
  have le: "m \<le> j" if "int j \<notin> full" for j using that by (simp add: m_def Least_le)
  show ?case
  proof (cases "\<exists>j < n. int j \<notin> full")
    case True
    then have "m < n" using le by force
    then show ?thesis using True n(2) unfolding eq IH by (auto simp: scratch_step_def Let_def less_Suc_eq m_def)
  next
    case False
    then have "m = n" if "int n \<notin> full"
      unfolding m_def using that by (intro Least_equality) (auto simp: not_less [symmetric])
    then show ?thesis using False n(2) unfolding eq IH by (auto simp: scratch_step_def Let_def less_Suc_eq m_def)
  qed
qed simp

definition star_target :: "int set \<Rightarrow> string list \<Rightarrow> nat \<Rightarrow> string option" where
  "star_target full names i =
     (if int i \<in> full \<or> (\<forall>j < i. int j \<in> full) then None else Some (names ! (LEAST j. int j \<notin> full)))"

lemma kvshare_target_star:
  assumes "\<forall>i < length names. extract_layer_index (names ! i) 1 = Inr (int i)" "i < length names"
  shows "quest_kvshare_target (int i) full (take (Suc i) names) = star_target (set full) names i"
proof -
  define m where "m = (LEAST j. int j \<notin> set full)"
  have f: "fold (scratch_step (set full)) (take (Suc i) names) None =
      (if \<exists>j < Suc i. int j \<notin> set full then Some (int m, names ! m) else None)"
    using scratch_fold [OF assms(1), of "Suc i"] assms(2) by (simp add: Let_def m_def)
  have le: "m \<le> j" if "int j \<notin> set full" for j using that by (simp add: m_def Least_le)
  have in_full: "int m \<notin> set full" if "int j \<notin> set full" for j using that LeastI [of "\<lambda>j. int j \<notin> set full" j] by (simp add: m_def)
  show ?thesis
  proof (cases "int i \<in> set full")
    case False
    have "(\<forall>j < i. int j \<in> set full) \<longleftrightarrow> i \<le> m"
    proof
      show "i \<le> m" if "\<forall>j < i. int j \<in> set full" using that in_full [OF False] not_less by blast
      show "\<forall>j < i. int j \<in> set full" if "i \<le> m" using that le by force
    qed
    then show ?thesis using False f unfolding quest_kvshare_target_def star_target_def m_def [symmetric] by auto
  qed (simp add: quest_kvshare_target_def star_target_def)
qed

lemma star_target_before:
  assumes "star_target full names i = Some n"
  obtains m where "m < i" "n = names ! m" "int m \<notin> full" "star_target full names m = None"
proof -
  define m where "m = (LEAST j. int j \<notin> full)"
  from assms obtain j where j: "j < i" "int j \<notin> full" "n = names ! m"
    by (auto simp: star_target_def m_def split: if_splits)
  have m: "int m \<notin> full" "m \<le> j" using LeastI [of "\<lambda>j. int j \<notin> full" j] Least_le [of "\<lambda>j. int j \<notin> full" j] j(2) by (simp_all add: m_def)
  moreover have "\<forall>k < m. int k \<in> full" using not_less_Least m_def by blast
  ultimately show thesis using that [of m] j by (simp add: star_target_def)
qed

text \<open>
  C18. With \<open>footprint_kvshare\<close>, constructing the layers of a model in order succeeds, and the
  cache sharing is a star: full-KV layers and the first sparse layer keep a cache of their
  own, and every other layer shares that of the first sparse layer, which was constructed
  before it.
\<close>

theorem kvshare_targets_scratch:
  assumes "qc_enabled c" "qc_footprint_kvshare c" "distinct names"
    and "\<forall>i < length names. extract_layer_index (names ! i) 1 = Inr (int i)"
  shows "construct_layers (Some c) (map (\<lambda>n. (n, ty)) names) [] =
    Inr (map (star_target (set (qc_full_kv_layers c)) names) [0 ..< length names])"
proof -
  have "construct_layers (Some c) (map (\<lambda>n. (n, ty)) (drop i names)) (map (\<lambda>n. (n, ty)) (take i names)) =
      Inr (map (star_target (set (qc_full_kv_layers c)) names) [i ..< length names])" if "i \<le> length names" for i
    using that
  proof (induction "length names - i" arbitrary: i)
    case (Suc d)
    then have i: "i < length names" by simp
    let ?ctx = "map (\<lambda>n. (n, ty)) (take (Suc i) names)"
    have dom: "map_of (map (\<lambda>n. (n, ty)) ns) n = (if n \<in> set ns then Some ty else None)" for n ns
      by (induction ns) auto
    have fresh: "names ! i \<notin> set (take i names)" using i assms(3) by (metis in_set_conv_nth length_take less_imp_not_less min_less_iff_conj nth_eq_iff_index_eq nth_take)
    have ctx: "map (\<lambda>n. (n, ty)) (take i names) @ [(names ! i, ty)] = ?ctx" using i by (simp add: take_Suc_conv_app_nth)
    have fst: "map fst ?ctx = take (Suc i) names" by (simp add: comp_def)
    have ok: "validate_kv_sharing_target (names ! i) n ?ctx = Inr ()" if n: "star_target (set (qc_full_kv_layers c)) names i = Some n" for n
    proof -
      from star_target_before [OF n] obtain m where m: "m < i" "n = names ! m" by metis
      then have "n \<noteq> names ! i" using i assms(3) by (simp add: nth_eq_iff_index_eq)
      moreover have "n \<in> set (take (Suc i) names)" "names ! i \<in> set (take (Suc i) names)"
        using m i by (auto simp: in_set_conv_nth intro: exI [of _ m] exI [of _ i])
      ultimately show ?thesis unfolding validate_kv_sharing_target_def dom by simp
    qed
    have one: "construct_layer (Some c) (names ! i) ty None (map (\<lambda>n. (n, ty)) (take i names)) =
        Inr (star_target (set (qc_full_kv_layers c)) names i, ?ctx)"
      using assms(1,2,4) i fresh ok kvshare_target_star [OF assms(4) i, of "qc_full_kv_layers c"]
      unfolding construct_layer_def ctx Let_def by (simp add: dom fst ctx comp_def split: option.split del: chain_eq_Inr)
    have "construct_layers (Some c) (map (\<lambda>n. (n, ty)) (drop (Suc i) names)) ?ctx =
        Inr (map (star_target (set (qc_full_kv_layers c)) names) [Suc i ..< length names])"
      using Suc.hyps i by simp
    then show ?case using one i by (simp add: Cons_nth_drop_Suc [symmetric] upt_conv_Cons del: chain_eq_Inr)
  qed simp
  from this [of 0] show ?thesis by simp
qed

definition ex_names :: "string list" where
  "ex_names = [''layers.0.attn'', ''layers.1.attn'', ''layers.2.attn'', ''layers.3.attn'']"

lemma ex_names_index: "map (\<lambda>n. extract_layer_index n 1) ex_names = [Inr 0, Inr 1, Inr 2, Inr 3]"
  by code_simp

theorem kvshare_targets_scratch_witness:
  "construct_layers (Some ex_cfg) (map (\<lambda>n. (n, ''decoder'')) ex_names) [] = Inr [None, None, None, Some ''layers.2.attn'']"
proof -
  have i: "extract_layer_index (ex_names ! i) 1 = Inr (int i)" if "i < length ex_names" for i
    using that ex_names_index by (auto simp: ex_names_def less_Suc_eq numeral_eq_Suc)
  have "(LEAST j. int j \<notin> {0, 1 :: int}) = 2" by (rule Least_equality) auto
  then have "map (star_target (set (qc_full_kv_layers ex_cfg)) ex_names) [0 ..< length ex_names] = [None, None, None, Some ''layers.2.attn'']"
    by (auto simp: star_target_def ex_cfg_simps ex_names_def upt_conv_Cons less_Suc_eq numeral_eq_Suc)
  moreover have "distinct ex_names" by (simp add: ex_names_def)
  ultimately show ?thesis using kvshare_targets_scratch [OF ex_cfg_simps(1,2), of ex_names "''decoder''"] i by simp
qed

text \<open>
  A builder that was never given the layer table: every layer is taken for a full-KV layer,
  so each forward pass is dense, whatever was bound.
\<close>

lemma unwired_builder_runs_dense:
  assumes "mb_quest_layer_indices b = None"
  shows "quest_forward e (Some (promote b md)) query key val ptr (owners, l, registry, kv) =
    dense_forward e (promote b md) True key val ptr (owners, l, registry, kv)"
  using assms by (simp add: quest_forward_def is_full_kv_layer_def promote_def del: chain_eq_Inr)

text \<open>
  A layer of an engine that has no quest configuration shares with no other layer: the
  \<open>footprint_kvshare\<close> of an arkvale configuration is not consulted.
\<close>

lemma arkvale_kvshare_not_wired:
  assumes "construct_layer None prefix attn_type None ctx = Inr (target, ctx')"
  shows "target = None"
  using assms by (auto simp: construct_layer_def Let_def)

end
