(* ===== verification/Encoder_Cache.thy ===== *)
theory Encoder_Cache
  imports Py_Prelude
begin

text \<open>
  The managers of the encoder cache (\<^verbatim>\<open>v1/core/encoder_cache_manager.py\<close>): the accounting of
  the embeddings that multi-modal encoders produce. The accounting is exact for items whose
  hash determines the number of their embeddings; the eviction loop ends and drops the
  oldest unreferenced entries, no more of them than the request needs.
\<close>

section \<open>Placeholders and requests\<close>

record placeholder_range =
  pr_offset :: int
  pr_length :: int
  pr_is_embed :: "bool list option"

definition embeds_cumsum :: "placeholder_range \<Rightarrow> int list option" where
  "embeds_cumsum p =
     map_option (\<lambda>mask. map (\<lambda>i. int (length (filter id (take (Suc i) mask)))) [0 ..< length mask]) (pr_is_embed p)"

definition get_num_embeds :: "placeholder_range \<Rightarrow> int" where
  "get_num_embeds p =
     (case embeds_cumsum p of None \<Rightarrow> pr_length p | Some cs \<Rightarrow> if cs = [] then 0 else last cs)"

definition get_embeds_indices_in_range :: "placeholder_range \<Rightarrow> int \<Rightarrow> int \<Rightarrow> (int \<times> int) result" where
  "get_embeds_indices_in_range p start_idx end_idx =
     (case embeds_cumsum p of
        None \<Rightarrow> Inr (start_idx, end_idx)
      | Some cs \<Rightarrow>
          chain (if 0 < start_idx then py_index cs (start_idx - 1) else Inr 0) (\<lambda>a.
          chain (if 0 < end_idx then py_index cs (end_idx - 1) else Inr 0) (\<lambda>b. Inr (a, b))))"

record mm_item =
  item_hash :: string
  mm_position :: placeholder_range

text \<open>The part of a \<open>Request\<close> that the encoder cache reads.\<close>

record mm_request =
  request_id :: string
  mm_items :: "mm_item list"

definition get_num_encoder_embeds :: "mm_request \<Rightarrow> nat \<Rightarrow> int result" where
  "get_num_encoder_embeds r input_id =
     chain (guard (input_id < length (mm_items r)) AssertionError) (\<lambda>_.
     Inr (get_num_embeds (mm_position (mm_items r ! input_id))))"

section \<open>The cache of encoder outputs\<close>

record enc_cache =
  ec_cache_size :: int
  ec_num_free_slots :: int
  ec_num_freeable_slots :: int
  ec_cached :: "(string, string set) odict"
  ec_freeable :: "(string, int) odict"
  ec_freed :: "string list"

definition ec_init :: "int \<Rightarrow> enc_cache" where
  "ec_init cache_size =
     \<lparr>ec_cache_size = cache_size, ec_num_free_slots = cache_size, ec_num_freeable_slots = cache_size,
      ec_cached = [], ec_freeable = [], ec_freed = []\<rparr>"

definition ec_reset :: "enc_cache \<Rightarrow> enc_cache" where
  "ec_reset m =
     m\<lparr>ec_cached := [], ec_freeable := [], ec_freed := [],
       ec_num_free_slots := ec_cache_size m, ec_num_freeable_slots := ec_cache_size m\<rparr>"

definition check_and_update_cache :: "mm_request \<Rightarrow> nat \<Rightarrow> enc_cache \<Rightarrow> (bool \<times> enc_cache) result" where
  "check_and_update_cache r input_id m =
     chain (py_nth (mm_items r) input_id) (\<lambda>f.
     case map_of (ec_cached m) (item_hash f) of
       None \<Rightarrow> Inr (False, m)
     | Some refs \<Rightarrow>
         chain (if refs = {}
                then (case map_of (ec_freeable m) (item_hash f) of
                        None \<Rightarrow> Inl KeyError
                      | Some n \<Rightarrow>
                          Inr (m\<lparr>ec_freeable := AList.delete (item_hash f) (ec_freeable m),
                                 ec_num_freeable_slots := ec_num_freeable_slots m - n\<rparr>))
                else Inr m) (\<lambda>m.
         Inr (True, m\<lparr>ec_cached := AList.update (item_hash f) (insert (request_id r) refs) (ec_cached m)\<rparr>)))"

text \<open>The eviction loop of \<open>can_allocate\<close>; \<open>popitem\<close> of an empty dictionary raises.\<close>

function evict_until :: "int \<Rightarrow> enc_cache \<Rightarrow> enc_cache result" where
  "evict_until num_embeds m =
     (if num_embeds \<le> ec_num_free_slots m then Inr m
      else case ec_freeable m of
             [] \<Rightarrow> Inl KeyError
           | (mm_hash, n) # freeable \<Rightarrow>
               if \<not> od_has (ec_cached m) mm_hash then Inl KeyError
               else evict_until num_embeds
                      (m\<lparr>ec_freeable := freeable, ec_cached := AList.delete mm_hash (ec_cached m),
                         ec_freed := ec_freed m @ [mm_hash], ec_num_free_slots := ec_num_free_slots m + n\<rparr>))"
  by pat_completeness auto

termination
  by (relation "measure (\<lambda>(num_embeds, m). length (ec_freeable m))") auto

declare evict_until.simps [simp del]

definition can_allocate :: "mm_request \<Rightarrow> nat \<Rightarrow> int \<Rightarrow> int \<Rightarrow> enc_cache \<Rightarrow> (bool \<times> enc_cache) result" where
  "can_allocate r input_id encoder_compute_budget num_embeds_to_schedule m =
     chain (get_num_encoder_embeds r input_id) (\<lambda>num_embeds.
     if encoder_compute_budget < num_embeds then Inr (False, m)
     else
       let num_embeds = num_embeds + num_embeds_to_schedule
       in if num_embeds \<le> ec_num_free_slots m then Inr (True, m)
          else if ec_num_freeable_slots m < num_embeds then Inr (False, m)
          else chain (evict_until num_embeds m) (\<lambda>m. Inr (True, m)))"

definition ec_allocate :: "mm_request \<Rightarrow> nat \<Rightarrow> enc_cache \<Rightarrow> enc_cache result" where
  "ec_allocate r input_id m =
     chain (py_nth (mm_items r) input_id) (\<lambda>f.
     let refs = (case map_of (ec_cached m) (item_hash f) of None \<Rightarrow> {} | Some refs \<Rightarrow> refs)
     in chain (get_num_encoder_embeds r input_id) (\<lambda>n.
        chain (guard (n \<le> ec_num_free_slots m) AssertionError) (\<lambda>_.
        chain (guard (n \<le> ec_num_freeable_slots m) AssertionError) (\<lambda>_.
        Inr (m\<lparr>ec_cached := AList.update (item_hash f) (insert (request_id r) refs) (ec_cached m),
               ec_num_free_slots := ec_num_free_slots m - n,
               ec_num_freeable_slots := ec_num_freeable_slots m - n\<rparr>)))))"

text \<open>The set of input ids, in the ascending order in which small integers are iterated.\<close>

definition get_cached_input_ids :: "mm_request \<Rightarrow> enc_cache \<Rightarrow> nat list" where
  "get_cached_input_ids r m =
     filter (\<lambda>i. od_has (ec_cached m) (item_hash (mm_items r ! i))) [0 ..< length (mm_items r)]"

definition free_encoder_input :: "mm_request \<Rightarrow> nat \<Rightarrow> enc_cache \<Rightarrow> enc_cache result" where
  "free_encoder_input r input_id m =
     chain (py_nth (mm_items r) input_id) (\<lambda>f.
     let refs = (case map_of (ec_cached m) (item_hash f) of None \<Rightarrow> {} | Some refs \<Rightarrow> refs)
     in if refs = {} then Inr m
        else
          let refs = refs - {request_id r};
              m = m\<lparr>ec_cached := AList.update (item_hash f) refs (ec_cached m)\<rparr>
          in if refs \<noteq> {} then Inr m
             else chain (get_num_encoder_embeds r input_id) (\<lambda>n.
                  Inr (m\<lparr>ec_freeable := AList.update (item_hash f) n (ec_freeable m),
                         ec_num_freeable_slots := ec_num_freeable_slots m + n\<rparr>)))"

definition ec_free :: "mm_request \<Rightarrow> enc_cache \<Rightarrow> enc_cache result" where
  "ec_free r m = for_each (get_cached_input_ids r m) (free_encoder_input r) m"

definition get_freed_mm_hashes :: "enc_cache \<Rightarrow> string list \<times> enc_cache" where
  "get_freed_mm_hashes m = (ec_freed m, m\<lparr>ec_freed := []\<rparr>)"

section \<open>The budget\<close>

record encoder_scheduler_config =
  sc_disable_chunked_mm_input :: bool
  sc_max_num_batched_tokens :: int
  sc_max_num_encoder_input_tokens :: int
  sc_encoder_cache_size :: int

text \<open>\<open>mm_max_toks_per_item\<close> by its values, in the order of the dictionary.\<close>

definition compute_mm_encoder_budget :: "encoder_scheduler_config \<Rightarrow> int list \<Rightarrow> (int \<times> int) result" where
  "compute_mm_encoder_budget sc toks =
     (if toks = [] then Inr (0, 0)
      else
        let max_tokens_per_mm_item = Max (set toks)
        in if sc_disable_chunked_mm_input sc \<and> sc_max_num_batched_tokens sc < max_tokens_per_mm_item then Inl ValueError
           else Inr (max (sc_max_num_encoder_input_tokens sc) max_tokens_per_mm_item,
                     max (sc_encoder_cache_size sc) max_tokens_per_mm_item))"

section \<open>Encoder-decoder models\<close>

record encdec_cache =
  ed_cache_size :: int
  ed_num_free_slots :: int
  ed_allocated :: "string list"
  ed_to_free :: "string list"

definition ed_init :: "int \<Rightarrow> encdec_cache" where
  "ed_init cache_size = \<lparr>ed_cache_size = cache_size, ed_num_free_slots = cache_size, ed_allocated = [], ed_to_free = []\<rparr>"

definition ed_reset :: "encdec_cache \<Rightarrow> encdec_cache" where
  "ed_reset m = m\<lparr>ed_num_free_slots := ed_cache_size m, ed_allocated := [], ed_to_free := []\<rparr>"

definition ed_check_and_update_cache :: "mm_request \<Rightarrow> nat \<Rightarrow> encdec_cache \<Rightarrow> (bool \<times> encdec_cache) result" where
  "ed_check_and_update_cache r input_id m = Inr (False, m)"

definition ed_can_allocate :: "mm_request \<Rightarrow> nat \<Rightarrow> int \<Rightarrow> int \<Rightarrow> encdec_cache \<Rightarrow> (bool \<times> encdec_cache) result" where
  "ed_can_allocate r input_id encoder_compute_budget num_embeds_to_schedule m =
     chain (get_num_encoder_embeds r input_id) (\<lambda>n.
     if encoder_compute_budget < n then Inr (False, m)
     else Inr (n + num_embeds_to_schedule \<le> ed_num_free_slots m, m))"

definition ed_allocate :: "mm_request \<Rightarrow> nat \<Rightarrow> encdec_cache \<Rightarrow> encdec_cache result" where
  "ed_allocate r input_id m =
     chain (get_num_encoder_embeds r input_id) (\<lambda>n.
     chain (py_nth (mm_items r) input_id) (\<lambda>f.
     Inr (m\<lparr>ed_num_free_slots := ed_num_free_slots m - n, ed_allocated := ed_allocated m @ [item_hash f]\<rparr>)))"

definition ed_free_encoder_input :: "mm_request \<Rightarrow> nat \<Rightarrow> encdec_cache \<Rightarrow> encdec_cache result" where
  "ed_free_encoder_input r input_id m =
     chain (get_num_encoder_embeds r input_id) (\<lambda>n. Inr (m\<lparr>ed_num_free_slots := ed_num_free_slots m + n\<rparr>))"

definition ed_free :: "mm_request \<Rightarrow> encdec_cache \<Rightarrow> encdec_cache result" where
  "ed_free r m = for_each [0 ..< length (mm_items r)] (ed_free_encoder_input r) m"

definition ed_get_cached_input_ids :: "mm_request \<Rightarrow> encdec_cache \<Rightarrow> nat list" where
  "ed_get_cached_input_ids r m = [0 ..< length (mm_items r)]"

definition ed_get_freed_mm_hashes :: "encdec_cache \<Rightarrow> string list \<times> encdec_cache" where
  "ed_get_freed_mm_hashes m = (ed_to_free m, m\<lparr>ed_to_free := ed_allocated m, ed_allocated := []\<rparr>)"

section \<open>The accounting\<close>

text \<open>\<open>emb h\<close> is the number of embeddings of the data with the hash \<open>h\<close>.\<close>

definition sized :: "(string \<Rightarrow> nat) \<Rightarrow> mm_request \<Rightarrow> bool" where
  "sized emb r \<longleftrightarrow> (\<forall>f \<in> set (mm_items r). get_num_embeds (mm_position f) = int (emb (item_hash f)))"

definition ec_inv :: "(string \<Rightarrow> nat) \<Rightarrow> enc_cache \<Rightarrow> bool" where
  "ec_inv emb m \<longleftrightarrow>
     distinct (od_keys (ec_cached m)) \<and> distinct (od_keys (ec_freeable m)) \<and>
     (\<forall>h n. map_of (ec_freeable m) h = Some n \<longleftrightarrow> map_of (ec_cached m) h = Some {} \<and> n = int (emb h)) \<and>
     0 \<le> ec_num_free_slots m \<and>
     ec_num_free_slots m + int (sum emb (dom (map_of (ec_cached m)))) = ec_cache_size m \<and>
     ec_num_freeable_slots m = ec_num_free_slots m + int (sum emb (dom (map_of (ec_freeable m))))"

text \<open>Whether the request with the id \<open>q\<close> holds a reference to the entry of \<open>h\<close>.\<close>

definition ec_held :: "enc_cache \<Rightarrow> string \<Rightarrow> string \<Rightarrow> bool" where
  "ec_held m q h \<longleftrightarrow> (\<exists>refs. map_of (ec_cached m) h = Some refs \<and> q \<in> refs)"

lemma ec_invD:
  assumes "ec_inv emb m"
  shows "map_of (ec_freeable m) h = Some n \<Longrightarrow> map_of (ec_cached m) h = Some {} \<and> n = int (emb h)"
    and "map_of (ec_cached m) h = Some {} \<Longrightarrow> map_of (ec_freeable m) h = Some (int (emb h))"
    and "0 \<le> ec_num_free_slots m"
  using assms by (auto simp: ec_inv_def)

lemma ec_inv_init: "0 \<le> n \<Longrightarrow> ec_inv emb (ec_init n)"
  by (simp add: ec_inv_def ec_init_def od_keys_def)

lemma ec_inv_cache_size: "ec_inv emb m \<Longrightarrow> 0 \<le> ec_cache_size m"
  unfolding ec_inv_def by linarith

lemma ec_inv_reset: "ec_inv emb m \<Longrightarrow> ec_inv emb (ec_reset m)"
  using ec_inv_cache_size [of emb m] by (simp add: ec_inv_def ec_reset_def od_keys_def)

lemma ec_inv_freed: "ec_inv emb (m\<lparr>ec_freed := x\<rparr>) = ec_inv emb m"
  by (simp add: ec_inv_def)

lemma distinct_od_update [simp]: "distinct (od_keys d) \<Longrightarrow> distinct (od_keys (AList.update k v d))"
  by (simp add: od_keys_def distinct_update)

lemma distinct_od_delete [simp]: "distinct (od_keys d) \<Longrightarrow> distinct (od_keys (AList.delete k d))"
  by (simp add: od_keys_def distinct_delete)

lemma sum_minus_key: "k \<in> dom (map_of d) \<Longrightarrow> int (sum emb (dom (map_of d) - {k})) = int (sum emb (dom (map_of d))) - int (emb k)"
  by (subst sum_diff1_nat) (auto simp: finite_dom_map_of sum.remove of_nat_diff)

lemma num_embeds_sized:
  assumes "sized emb r" "i < length (mm_items r)"
  shows "get_num_encoder_embeds r i = Inr (int (emb (item_hash (mm_items r ! i))))"
  using assms by (simp add: get_num_encoder_embeds_def sized_def)

subsection \<open>Referencing an entry\<close>

text \<open>Taking and adding references of a cached entry that keeps some.\<close>

lemma ec_inv_refs:
  assumes "ec_inv emb m" "map_of (ec_cached m) h = Some refs" "refs \<noteq> {}" "refs' \<noteq> {}"
  shows "ec_inv emb (m\<lparr>ec_cached := AList.update h refs' (ec_cached m)\<rparr>)"
proof -
  have d: "insert h (dom (map_of (ec_cached m))) = dom (map_of (ec_cached m))" using assms(2) by auto
  show ?thesis using assms by (auto simp: ec_inv_def od_simps d)
qed

lemma ec_inv_reref:
  assumes "ec_inv emb m" "map_of (ec_cached m) h = Some {}" "refs' \<noteq> {}"
  shows "ec_inv emb (m\<lparr>ec_freeable := AList.delete h (ec_freeable m),
    ec_num_freeable_slots := ec_num_freeable_slots m - int (emb h),
    ec_cached := AList.update h refs' (ec_cached m)\<rparr>)"
proof -
  have d: "insert h (dom (map_of (ec_cached m))) = dom (map_of (ec_cached m))" using assms(2) by auto
  have "h \<in> dom (map_of (ec_freeable m))" using assms(1,2) by (auto simp: ec_inv_def)
  then show ?thesis using assms sum_minus_key [of h "ec_freeable m" emb] by (auto simp: ec_inv_def od_simps d)
qed

lemma ec_inv_unref:
  assumes "ec_inv emb m" "map_of (ec_cached m) h = Some refs" "refs \<noteq> {}"
  shows "ec_inv emb (m\<lparr>ec_cached := AList.update h {} (ec_cached m),
    ec_freeable := AList.update h (int (emb h)) (ec_freeable m),
    ec_num_freeable_slots := ec_num_freeable_slots m + int (emb h)\<rparr>)"
proof -
  have d: "insert h (dom (map_of (ec_cached m))) = dom (map_of (ec_cached m))" using assms(2) by auto
  have "h \<notin> dom (map_of (ec_freeable m))" using assms by (auto simp: ec_inv_def)
  then show ?thesis using assms by (auto simp: ec_inv_def od_simps d finite_dom_map_of)
qed

lemma check_ok:
  assumes "ec_inv emb m" "i < length (mm_items r)"
  defines "h \<equiv> item_hash (mm_items r ! i)"
  shows "\<exists>m'. check_and_update_cache r i m = Inr (od_has (ec_cached m) h, m') \<and> ec_inv emb m' \<and>
    ec_num_free_slots m' = ec_num_free_slots m \<and> dom (map_of (ec_cached m')) = dom (map_of (ec_cached m)) \<and>
    ec_freed m' = ec_freed m \<and> (if od_has (ec_cached m) h then ec_held m' (request_id r) h else m' = m) \<and>
    (\<forall>q k. ec_held m q k \<longrightarrow> ec_held m' q k)"
proof (cases "map_of (ec_cached m) h")
  case None
  then show ?thesis using assms by (simp add: check_and_update_cache_def od_has_iff)
next
  case (Some refs)
  show ?thesis
  proof (cases "refs = {}")
    case True
    then have "map_of (ec_freeable m) h = Some (int (emb h))" using Some assms(1) by (simp add: ec_invD)
    then show ?thesis using Some True assms ec_inv_reref [of emb m h "{request_id r}"]
      by (auto simp: check_and_update_cache_def od_has_iff ec_held_def od_simps)
  next
    case False
    then show ?thesis using Some assms ec_inv_refs [of emb m h refs "insert (request_id r) refs"]
      by (auto simp: check_and_update_cache_def od_has_iff ec_held_def od_simps)
  qed
qed

subsection \<open>Evicting\<close>

text \<open>One round of the loop: the oldest entry leaves the cache.\<close>

definition ec_pop :: "enc_cache \<Rightarrow> enc_cache" where
  "ec_pop m =
     m\<lparr>ec_freeable := tl (ec_freeable m), ec_cached := AList.delete (fst (hd (ec_freeable m))) (ec_cached m),
       ec_freed := ec_freed m @ [fst (hd (ec_freeable m))],
       ec_num_free_slots := ec_num_free_slots m + snd (hd (ec_freeable m))\<rparr>"

lemma ec_inv_pop:
  assumes "ec_inv emb m" "ec_freeable m = (h, n) # rest"
  shows "od_has (ec_cached m) h" "ec_inv emb (ec_pop m)" "0 \<le> n"
proof -
  have h: "map_of (ec_cached m) h = Some {}" "n = int (emb h)"
    using ec_invD(1) [OF assms(1), of h n] assms(2) by simp_all
  then show "od_has (ec_cached m) h" "0 \<le> n" by (simp_all add: od_has_iff)
  have rest: "distinct (od_keys rest)" "map_of rest h = None"
    using assms by (auto simp: ec_inv_def od_keys_def map_of_eq_None_iff)
  have f: "map_of (ec_freeable m) = (map_of rest)(h \<mapsto> n)" using assms(2) by simp
  have "h \<in> dom (map_of (ec_cached m))" using h by auto
  note c = sum_minus_key [OF this, of emb]
  have "sum emb (insert h (dom (map_of rest))) = emb h + sum emb (dom (map_of rest))"
    using rest(2) by (simp add: finite_dom_map_of domIff)
  then show "ec_inv emb (ec_pop m)"
    using assms h rest c unfolding ec_inv_def ec_pop_def
    by (auto simp: od_simps f split: if_splits)
qed

lemma evict_until_step:
  assumes "ec_inv emb m" "\<not> need \<le> ec_num_free_slots m" "ec_freeable m \<noteq> []"
  shows "evict_until need m = evict_until need (ec_pop m)"
proof (cases "ec_freeable m")
  case (Cons x rest)
  obtain h n where x: "x = (h, n)" by (cases x)
  then have "od_has (ec_cached m) h" using ec_inv_pop(1) [OF assms(1)] Cons by simp
  then show ?thesis using assms(2) Cons x by (subst evict_until.simps) (simp add: ec_pop_def)
qed (use assms in simp)

text \<open>\<open>evicted k m\<close> is \<open>m\<close> without its \<open>k\<close> oldest unreferenced entries.\<close>

definition evicted :: "nat \<Rightarrow> enc_cache \<Rightarrow> enc_cache" where
  "evicted k m = (ec_pop ^^ k) m"

lemma evicted_sel:
  assumes "ec_inv emb m" "k \<le> length (ec_freeable m)"
  shows "ec_inv emb (evicted k m) \<and> ec_freeable (evicted k m) = drop k (ec_freeable m) \<and>
    ec_freed (evicted k m) = ec_freed m @ map fst (take k (ec_freeable m)) \<and>
    map_of (ec_cached (evicted k m)) = map_of (ec_cached m) |` (- fst ` set (take k (ec_freeable m))) \<and>
    ec_num_free_slots (evicted k m) = ec_num_free_slots m + sum_list (map snd (take k (ec_freeable m)))"
  using assms(2)
proof (induction k)
  case 0
  then show ?case using assms(1) by (simp add: evicted_def restrict_map_def)
next
  case (Suc k)
  then have IH: "ec_inv emb (evicted k m)" "ec_freeable (evicted k m) = drop k (ec_freeable m)"
    "ec_freed (evicted k m) = ec_freed m @ map fst (take k (ec_freeable m))"
    "map_of (ec_cached (evicted k m)) = map_of (ec_cached m) |` (- fst ` set (take k (ec_freeable m)))"
    "ec_num_free_slots (evicted k m) = ec_num_free_slots m + sum_list (map snd (take k (ec_freeable m)))" by auto
  have k: "k < length (ec_freeable m)" using Suc.prems by simp
  have S: "evicted (Suc k) m = ec_pop (evicted k m)" by (simp add: evicted_def)
  have hd: "ec_freeable (evicted k m) = (fst (ec_freeable m ! k), snd (ec_freeable m ! k)) # drop (Suc k) (ec_freeable m)"
    using IH(2) k by (simp add: Cons_nth_drop_Suc)
  show ?case
    using IH(3-5) ec_inv_pop(2) [OF IH(1) hd] hd k
    by (simp add: S ec_pop_def take_Suc_conv_app_nth od_simps restrict_map_def fun_eq_iff)
qed

lemma evict_until_ok:
  assumes "ec_inv emb m" "need \<le> ec_num_freeable_slots m"
  shows "\<exists>k \<le> length (ec_freeable m). evict_until need m = Inr (evicted k m) \<and> need \<le> ec_num_free_slots (evicted k m) \<and>
    (\<forall>j < k. ec_num_free_slots (evicted j m) < need)"
  using assms
proof (induction "length (ec_freeable m)" arbitrary: m)
  case 0
  then have "need \<le> ec_num_free_slots m" by (simp add: ec_inv_def)
  then show ?case by (intro exI [of _ 0]) (subst evict_until.simps, simp add: evicted_def)
next
  case (Suc l)
  show ?case
  proof (cases "need \<le> ec_num_free_slots m")
    case True
    then show ?thesis by (intro exI [of _ 0]) (subst evict_until.simps, simp add: evicted_def)
  next
    case False
    have ne: "ec_freeable m \<noteq> []" using Suc.hyps(2) by auto
    then obtain h n rest where f: "ec_freeable m = (h, n) # rest" by (cases "ec_freeable m") auto
    have "l = length (ec_freeable (ec_pop m))" "ec_inv emb (ec_pop m)" "need \<le> ec_num_freeable_slots (ec_pop m)"
      using Suc.hyps(2) Suc.prems f ec_inv_pop [OF Suc.prems(1) f] by (simp_all add: ec_pop_def)
    from Suc.hyps(1) [OF this] obtain k where
      k: "k \<le> l" "evict_until need (ec_pop m) = Inr (evicted k (ec_pop m))"
        "need \<le> ec_num_free_slots (evicted k (ec_pop m))" "\<forall>j < k. ec_num_free_slots (evicted j (ec_pop m)) < need"
      using Suc.hyps(2) f by (auto simp: ec_pop_def)
    have ev: "evicted j (ec_pop m) = evicted (Suc j) m" for j by (simp add: evicted_def funpow_swap1)
    have "ec_num_free_slots (evicted j m) < need" if "j < Suc k" for j
      using that k(4) False ev by (cases j) (simp_all add: evicted_def)
    then show ?thesis using k(1-3) Suc.hyps(2) evict_until_step [OF Suc.prems(1) False ne]
      by (intro exI [of _ "Suc k"]) (simp add: ev)
  qed
qed

lemma freeable_ge_free: "ec_inv emb m \<Longrightarrow> ec_num_free_slots m \<le> ec_num_freeable_slots m"
  unfolding ec_inv_def by linarith

lemma can_allocate_ok:
  fixes B S :: int
  assumes "ec_inv emb m" "sized emb r" "i < length (mm_items r)"
  defines "n \<equiv> int (emb (item_hash (mm_items r ! i)))"
  defines "ok \<equiv> n \<le> B \<and> n + S \<le> ec_num_freeable_slots m"
  shows "\<exists>k \<le> length (ec_freeable m). can_allocate r i B S m = Inr (ok, evicted k m) \<and>
    (ok \<longrightarrow> n + S \<le> ec_num_free_slots (evicted k m)) \<and> (\<not> ok \<longrightarrow> k = 0) \<and>
    (\<forall>j < k. ec_num_free_slots (evicted j m) < n + S)"
proof -
  have e: "get_num_encoder_embeds r i = Inr n" using num_embeds_sized [OF assms(2,3)] by (simp add: n_def)
  consider "\<not> ok" | "ok" "n + S \<le> ec_num_free_slots m" | "ok" "\<not> n + S \<le> ec_num_free_slots m" by blast
  then show ?thesis
  proof cases
    case 1
    then have "can_allocate r i B S m = Inr (ok, m)" using e freeable_ge_free [OF assms(1)]
      by (auto simp: can_allocate_def ok_def Let_def)
    then show ?thesis using 1 by (intro exI [of _ 0]) (simp add: evicted_def)
  next
    case 2
    then have "can_allocate r i B S m = Inr (ok, m)" using e by (auto simp: can_allocate_def ok_def Let_def)
    then show ?thesis using 2 by (intro exI [of _ 0]) (simp add: evicted_def)
  next
    case 3
    then have "n + S \<le> ec_num_freeable_slots m" by (simp add: ok_def)
    from evict_until_ok [OF assms(1) this] 3 e show ?thesis by (auto simp: can_allocate_def ok_def Let_def)
  qed
qed

text \<open>
  C21. \<open>can_allocate\<close> decides and evicts as documented, and returns on every valid input: it
  says yes iff the embeddings of the item are within the compute budget and, with those
  scheduled before it, within the free and reclaimable slots; it then has made room for
  them by evicting the oldest unreferenced entries, no more of them than needed, and
  reported exactly those. When it says no, nothing changes.
\<close>

theorem can_allocate_evicts_oldest:
  assumes "ec_inv emb m" "sized emb r" "i < length (mm_items r)"
    and "n = int (emb (item_hash (mm_items r ! i)))"
  shows "\<exists>k m'. k \<le> length (ec_freeable m) \<and>
    can_allocate r i B S m = Inr (n \<le> B \<and> n + S \<le> ec_num_freeable_slots m, m') \<and> ec_inv emb m' \<and>
    (n \<le> B \<and> n + S \<le> ec_num_freeable_slots m \<longrightarrow> n + S \<le> ec_num_free_slots m') \<and>
    (\<not> (n \<le> B \<and> n + S \<le> ec_num_freeable_slots m) \<longrightarrow> m' = m) \<and>
    (\<forall>j < k. ec_num_free_slots m + sum_list (map snd (take j (ec_freeable m))) < n + S) \<and>
    ec_freeable m' = drop k (ec_freeable m) \<and> ec_freed m' = ec_freed m @ map fst (take k (ec_freeable m)) \<and>
    map_of (ec_cached m') = map_of (ec_cached m) |` (- fst ` set (take k (ec_freeable m)))"
proof -
  obtain k where k: "k \<le> length (ec_freeable m)"
    "can_allocate r i B S m = Inr (n \<le> B \<and> n + S \<le> ec_num_freeable_slots m, evicted k m)"
    "n \<le> B \<and> n + S \<le> ec_num_freeable_slots m \<longrightarrow> n + S \<le> ec_num_free_slots (evicted k m)"
    "\<not> (n \<le> B \<and> n + S \<le> ec_num_freeable_slots m) \<longrightarrow> k = 0"
    "\<forall>j < k. ec_num_free_slots (evicted j m) < n + S"
    using can_allocate_ok [OF assms(1-3), of B S] unfolding assms(4) by blast
  have "\<forall>j < k. ec_num_free_slots m + sum_list (map snd (take j (ec_freeable m))) < n + S"
    using k(1,5) evicted_sel [OF assms(1)] by fastforce
  then show ?thesis using k(2-4) evicted_sel [OF assms(1) k(1)]
    by (intro exI [of _ k] exI [of _ "evicted k m"]) (auto simp: k(1) evicted_def)
qed

subsection \<open>Allocating and releasing\<close>

lemma allocate_ok:
  assumes "ec_inv emb m" "sized emb r" "i < length (mm_items r)"
  defines "h \<equiv> item_hash (mm_items r ! i)"
  assumes "\<not> od_has (ec_cached m) h" "int (emb h) \<le> ec_num_free_slots m"
  shows "\<exists>m'. ec_allocate r i m = Inr m' \<and> ec_inv emb m' \<and> ec_num_free_slots m' = ec_num_free_slots m - int (emb h) \<and>
    map_of (ec_cached m') = (map_of (ec_cached m))(h \<mapsto> {request_id r}) \<and> ec_freed m' = ec_freed m"
proof -
  have h: "map_of (ec_cached m) h = None" using assms(5) by (simp add: not_od_has_iff)
  then have "sum emb (insert h (dom (map_of (ec_cached m)))) = emb h + sum emb (dom (map_of (ec_cached m)))"
    by (simp add: finite_dom_map_of domIff)
  moreover have "map_of (ec_freeable m) h = None" using h assms(1) ec_invD(1) [OF assms(1), of h] by (cases "map_of (ec_freeable m) h") auto
  ultimately have "ec_inv emb (m\<lparr>ec_cached := AList.update h {request_id r} (ec_cached m),
      ec_num_free_slots := ec_num_free_slots m - int (emb h), ec_num_freeable_slots := ec_num_freeable_slots m - int (emb h)\<rparr>)"
    using assms(1,6) h unfolding ec_inv_def by (auto simp: od_simps)
  then show ?thesis
    using h assms(3,6) freeable_ge_free [OF assms(1)] num_embeds_sized [OF assms(2,3)]
    by (simp add: ec_allocate_def h_def [symmetric] od_simps del: chain_eq_Inr)
qed

text \<open>What releasing references of \<open>q\<close> leaves.\<close>

definition unref_only :: "string \<Rightarrow> enc_cache \<Rightarrow> enc_cache \<Rightarrow> bool" where
  "unref_only q m m' \<longleftrightarrow>
     ec_num_free_slots m' = ec_num_free_slots m \<and> dom (map_of (ec_cached m')) = dom (map_of (ec_cached m)) \<and>
     ec_freed m' = ec_freed m \<and> (\<forall>p k. ec_held m' p k \<longrightarrow> ec_held m p k) \<and>
     (\<forall>p k. p \<noteq> q \<longrightarrow> ec_held m p k \<longrightarrow> ec_held m' p k)"

lemma unref_only_trans: "unref_only q m m' \<Longrightarrow> unref_only q m' m'' \<Longrightarrow> unref_only q m m''"
  unfolding unref_only_def by metis

lemma free_encoder_input_ok:
  assumes "ec_inv emb m" "sized emb r" "i < length (mm_items r)"
  defines "h \<equiv> item_hash (mm_items r ! i)"
  shows "\<exists>m'. free_encoder_input r i m = Inr m' \<and> ec_inv emb m' \<and> unref_only (request_id r) m m' \<and> \<not> ec_held m' (request_id r) h"
proof -
  note e = num_embeds_sized [OF assms(2,3), folded h_def]
  consider "map_of (ec_cached m) h = None \<or> map_of (ec_cached m) h = Some {}"
    | "map_of (ec_cached m) h = Some {request_id r}"
    | refs where "map_of (ec_cached m) h = Some refs" "refs \<noteq> {}" "refs - {request_id r} \<noteq> {}"
    by (cases "map_of (ec_cached m) h") (simp, metis Diff_eq_empty_iff subset_singletonD)
  then show ?thesis
  proof cases
    case 1
    then have "free_encoder_input r i m = Inr m" using assms(3) by (auto simp: free_encoder_input_def h_def)
    then show ?thesis using 1 assms(1) by (auto simp: unref_only_def ec_held_def)
  next
    case 2
    then show ?thesis using ec_inv_unref [OF assms(1) 2] e assms(3)
      by (auto simp: free_encoder_input_def Let_def h_def [symmetric] unref_only_def ec_held_def od_simps)
  next
    case 3
    then show ?thesis using ec_inv_refs [OF assms(1) 3] assms(3)
      by (auto simp: free_encoder_input_def Let_def h_def [symmetric] unref_only_def ec_held_def od_simps)
  qed
qed

text \<open>Releasing the inputs \<open>ids\<close> of a request.\<close>

lemma free_inputs_ok:
  assumes "ec_inv emb m" "sized emb r" "\<forall>i \<in> set ids. i < length (mm_items r)"
  shows "\<exists>m'. for_each ids (free_encoder_input r) m = Inr m' \<and> ec_inv emb m' \<and> unref_only (request_id r) m m' \<and>
    (\<forall>i \<in> set ids. \<not> ec_held m' (request_id r) (item_hash (mm_items r ! i)))"
  using assms(1,3)
proof (induction ids arbitrary: m)
  case Nil
  then show ?case by (simp add: unref_only_def)
next
  case (Cons i ids)
  then have i: "i < length (mm_items r)" "\<forall>i \<in> set ids. i < length (mm_items r)" by simp_all
  obtain m1 where m1: "free_encoder_input r i m = Inr m1" "ec_inv emb m1" "unref_only (request_id r) m m1"
    "\<not> ec_held m1 (request_id r) (item_hash (mm_items r ! i))"
    using free_encoder_input_ok [OF Cons.prems(1) assms(2) i(1)] by blast
  obtain m2 where m2: "for_each ids (free_encoder_input r) m1 = Inr m2" "ec_inv emb m2" "unref_only (request_id r) m1 m2"
    "\<forall>i \<in> set ids. \<not> ec_held m2 (request_id r) (item_hash (mm_items r ! i))"
    using Cons.IH [OF m1(2) i(2)] by blast
  have "\<not> ec_held m2 (request_id r) (item_hash (mm_items r ! i))" using m1(4) m2(3) by (auto simp: unref_only_def)
  then show ?case using m1(1) m2 unref_only_trans [OF m1(3) m2(3)] by auto
qed

lemma ec_free_ok:
  assumes "ec_inv emb m" "sized emb r"
  shows "\<exists>m'. ec_free r m = Inr m' \<and> ec_inv emb m' \<and> unref_only (request_id r) m m' \<and>
    (\<forall>f \<in> set (mm_items r). \<not> ec_held m' (request_id r) (item_hash f))"
proof -
  have "\<forall>i \<in> set (get_cached_input_ids r m). i < length (mm_items r)" by (simp add: get_cached_input_ids_def)
  from free_inputs_ok [OF assms this] obtain m' where
    m': "ec_free r m = Inr m'" "ec_inv emb m'" "unref_only (request_id r) m m'"
      "\<forall>i \<in> set (get_cached_input_ids r m). \<not> ec_held m' (request_id r) (item_hash (mm_items r ! i))"
    unfolding ec_free_def by blast
  have "\<not> ec_held m' (request_id r) (item_hash f)" if f: "f \<in> set (mm_items r)" for f
  proof (cases "od_has (ec_cached m) (item_hash f)")
    case True
    then obtain i where "i \<in> set (get_cached_input_ids r m)" "mm_items r ! i = f"
      using f by (auto simp: get_cached_input_ids_def in_set_conv_nth)
    then show ?thesis using m'(4) by auto
  next
    case False
    then have "item_hash f \<notin> dom (map_of (ec_cached m'))" using m'(3) by (simp add: unref_only_def od_has_dom)
    then show ?thesis by (auto simp: ec_held_def)
  qed
  then show ?thesis using m'(1-3) by blast
qed

section \<open>Example\<close>

definition ex_img :: "string \<Rightarrow> int \<Rightarrow> int \<Rightarrow> mm_item" where
  "ex_img h offset n = \<lparr>item_hash = h, mm_position = \<lparr>pr_offset = offset, pr_length = n, pr_is_embed = None\<rparr>\<rparr>"

definition ex_req :: "string \<Rightarrow> mm_item list \<Rightarrow> mm_request" where
  "ex_req q fs = \<lparr>request_id = q, mm_items = fs\<rparr>"

text \<open>A cache of eight slots with the unreferenced entries \<open>a\<close> and \<open>b\<close> and the entry \<open>c\<close> of a request.\<close>

definition ex_enc :: enc_cache where
  "ex_enc =
     \<lparr>ec_cache_size = 8, ec_num_free_slots = 1, ec_num_freeable_slots = 5,
      ec_cached = [(''a'', {}), (''c'', {''q''}), (''b'', {})], ec_freeable = [(''b'', 2), (''a'', 2)], ec_freed = []\<rparr>"

definition ex_emb :: "string \<Rightarrow> nat" where
  "ex_emb h = (if h = ''c'' then 3 else 2)"

lemma ex_enc_inv: "ec_inv ex_emb ex_enc"
proof -
  have "dom (map_of (ec_cached ex_enc)) = {''a'', ''b'', ''c''}" "dom (map_of (ec_freeable ex_enc)) = {''a'', ''b''}"
    by (auto simp: ex_enc_def split: if_splits)
  then show ?thesis by (auto simp: ec_inv_def ex_enc_def ex_emb_def od_keys_def split: if_splits)
qed

theorem can_allocate_evicts_oldest_witness:
  "ec_inv ex_emb ex_enc \<and>
   (\<exists>m'. can_allocate (ex_req ''r'' [ex_img ''d'' 0 2]) 0 4 1 ex_enc = Inr (True, m') \<and> ec_inv ex_emb m' \<and> ec_freed m' = [''b''])"
proof -
  have s: "sized ex_emb (ex_req ''r'' [ex_img ''d'' 0 2])"
    by (simp add: sized_def ex_req_def ex_img_def get_num_embeds_def embeds_cumsum_def ex_emb_def)
  have n: "2 = int (ex_emb (item_hash (mm_items (ex_req ''r'' [ex_img ''d'' 0 2]) ! 0)))"
    by (simp add: ex_req_def ex_img_def ex_emb_def)
  obtain k m' where k: "k \<le> length (ec_freeable ex_enc)"
    "can_allocate (ex_req ''r'' [ex_img ''d'' 0 2]) 0 4 1 ex_enc = Inr (True, m')" "ec_inv ex_emb m'"
    "3 \<le> ec_num_free_slots m'"
    "\<forall>j < k. ec_num_free_slots ex_enc + sum_list (map snd (take j (ec_freeable ex_enc))) < 3"
    "ec_freed m' = ec_freed ex_enc @ map fst (take k (ec_freeable ex_enc))"
    using can_allocate_evicts_oldest [OF ex_enc_inv s _ n, of 4 1] by (auto simp: ex_enc_def ex_req_def)
  have "can_allocate (ex_req ''r'' [ex_img ''d'' 0 2]) 0 4 1 ex_enc =
      Inr (True, evicted 1 ex_enc)"
    by code_simp
  then show ?thesis using k(2,3,6) ex_enc_inv by (auto simp: evicted_def ec_pop_def ex_enc_def)
qed

end
