(* ===== verification/Encoder_Schedule.thy ===== *)
theory Encoder_Schedule
  imports Encoder_Cache
begin

text \<open>
  The encoder side of the scheduler (\<^verbatim>\<open>v1/core/sched/scheduler.py\<close>) with the worker's cache of
  encoder outputs (\<^verbatim>\<open>v1/worker/gpu_model_runner.py\<close>). The loop over the inputs of a request is
  shown correct against the contract of a manager, which both managers fulfil; composed with
  the worker, every embedding a scheduled step reads has been computed.
\<close>

section \<open>Scheduling the inputs of a request\<close>

text \<open>
  The scheduler's flags, \<open>ec_connector.has_cache_item\<close> (false everywhere without a connector)
  and the two methods of the manager that the loop calls.
\<close>

record 'm enc_sched =
  es_encdec :: bool
  es_disable_chunked :: bool
  es_has_item :: "string \<Rightarrow> bool"
  es_check :: "mm_request \<Rightarrow> nat \<Rightarrow> 'm \<Rightarrow> (bool \<times> 'm) result"
  es_can :: "mm_request \<Rightarrow> nat \<Rightarrow> int \<Rightarrow> int \<Rightarrow> 'm \<Rightarrow> (bool \<times> 'm) result"

text \<open>The local variables of the loop.\<close>

record 'm enc_try =
  et_num_new_tokens :: int
  et_budget :: int
  et_hashes :: "string set"
  et_embeds :: int
  et_inputs :: "nat list"
  et_external :: "nat list"
  et_manager :: 'm

fun schedule_items :: "'m enc_sched \<Rightarrow> mm_request \<Rightarrow> int \<Rightarrow> int \<Rightarrow> (nat \<times> mm_item) list \<Rightarrow> 'm enc_try \<Rightarrow> 'm enc_try result" where
  "schedule_items e r computed shift [] s = Inr s"
| "schedule_items e r computed shift ((i, f) # rest) s =
     (let start_pos = pr_offset (mm_position f); num_encoder_tokens = pr_length (mm_position f);
          num_encoder_embeds = get_num_embeds (mm_position f); n = et_num_new_tokens s
      in if computed + n + shift \<le> start_pos then Inr s
         else if es_encdec e \<and> 0 < computed
         then chain (guard (start_pos = 0) AssertionError) (\<lambda>_. schedule_items e r computed shift rest s)
         else if start_pos + num_encoder_tokens \<le> computed then schedule_items e r computed shift rest s
         else if \<not> es_encdec e \<and> item_hash f \<in> et_hashes s then schedule_items e r computed shift rest s
         else
           chain (if es_encdec e then Inr (False, et_manager s) else es_check e r i (et_manager s)) (\<lambda>(hit, m).
           if hit then schedule_items e r computed shift rest (s\<lparr>et_manager := m\<rparr>)
           else if es_disable_chunked e \<and> computed < start_pos \<and> computed + n < start_pos + num_encoder_tokens
           then Inr (s\<lparr>et_manager := m, et_num_new_tokens := max 0 (start_pos - (computed + shift))\<rparr>)
           else
             chain (es_can e r i (et_budget s) (et_embeds s) m) (\<lambda>(fits, m).
             if \<not> fits
             then Inr (s\<lparr>et_manager := m,
                         et_num_new_tokens := if computed + shift < start_pos then start_pos - (computed + shift) else 0\<rparr>)
             else
               chain (get_embeds_indices_in_range (mm_position f) (max 0 (computed - start_pos))
                        (min num_encoder_tokens (computed + n - start_pos))) (\<lambda>(a, b).
               if b - a = 0 then schedule_items e r computed shift rest (s\<lparr>et_manager := m\<rparr>)
               else if es_has_item e (item_hash f)
               then schedule_items e r computed shift rest
                      (s\<lparr>et_manager := m, et_hashes := insert (item_hash f) (et_hashes s),
                         et_external := et_external s @ [i], et_embeds := et_embeds s + num_encoder_embeds\<rparr>)
               else schedule_items e r computed shift rest
                      (s\<lparr>et_manager := m, et_hashes := insert (item_hash f) (et_hashes s),
                         et_inputs := et_inputs s @ [i], et_embeds := et_embeds s + num_encoder_embeds,
                         et_budget := et_budget s - num_encoder_embeds\<rparr>)))))"

definition try_init :: "int \<Rightarrow> int \<Rightarrow> 'm \<Rightarrow> 'm enc_try" where
  "try_init num_new_tokens budget m =
     \<lparr>et_num_new_tokens = num_new_tokens, et_budget = budget, et_hashes = {}, et_embeds = 0, et_inputs = [],
      et_external = [], et_manager = m\<rparr>"

definition try_schedule_encoder_inputs ::
  "'m enc_sched \<Rightarrow> mm_request \<Rightarrow> int \<Rightarrow> int \<Rightarrow> int \<Rightarrow> int \<Rightarrow> 'm \<Rightarrow> ((nat list \<times> int \<times> int \<times> nat list) \<times> 'm) result" where
  "try_schedule_encoder_inputs e r computed num_new_tokens budget shift m =
     (if num_new_tokens = 0 \<or> mm_items r = [] then Inr (([], num_new_tokens, budget, []), m)
      else chain (schedule_items e r computed shift (enumerate 0 (mm_items r)) (try_init num_new_tokens budget m)) (\<lambda>s.
           Inr ((et_inputs s, et_num_new_tokens s, et_budget s, et_external s), et_manager s)))"

text \<open>
  What \<open>schedule\<close> does with the result for one request: no token can be scheduled, or the
  KV cache has no room for the request (\<open>kv_ok\<close> is false) and its references are released,
  or the inputs are allocated. The value is \<open>None\<close> when the request is not scheduled.
\<close>

definition schedule_encoder ::
  "'m enc_sched \<Rightarrow> (mm_request \<Rightarrow> nat \<Rightarrow> 'm \<Rightarrow> 'm result) \<Rightarrow> (mm_request \<Rightarrow> 'm \<Rightarrow> 'm result) \<Rightarrow> bool \<Rightarrow> mm_request \<Rightarrow>
   int \<Rightarrow> int \<Rightarrow> int \<Rightarrow> int \<Rightarrow> 'm \<Rightarrow> ((nat list \<times> int \<times> int \<times> nat list) option \<times> 'm) result" where
  "schedule_encoder e alloc free kv_ok r computed num_new_tokens budget shift m =
     chain (try_schedule_encoder_inputs e r computed num_new_tokens budget shift m) (\<lambda>((inputs, n, budget', external), m).
     if n = 0 then Inr (None, m)
     else if \<not> kv_ok then chain (free r m) (\<lambda>m. Inr (None, m))
     else
       chain (for_each inputs (alloc r) m) (\<lambda>m.
       chain (for_each external (alloc r) m) (\<lambda>m.
       Inr (Some (inputs, n, if inputs = [] then budget else budget', external), m))))"

section \<open>Releasing processed inputs\<close>

definition free_processed ::
  "bool \<Rightarrow> (mm_request \<Rightarrow> 'm \<Rightarrow> nat list) \<Rightarrow> (mm_request \<Rightarrow> nat \<Rightarrow> 'm \<Rightarrow> 'm result) \<Rightarrow> mm_request \<Rightarrow> int \<Rightarrow> 'm \<Rightarrow> 'm result" where
  "free_processed encdec cached_ids free_input r computed m =
     for_each (cached_ids r m) (\<lambda>i m.
       chain (py_nth (mm_items r) i) (\<lambda>f.
       if encdec \<and> 0 < computed then free_input r i m
       else if pr_offset (mm_position f) + pr_length (mm_position f) \<le> computed then free_input r i m
       else Inr m)) m"

section \<open>The worker\<close>

text \<open>
  The lookups of \<open>_gather_mm_embeddings\<close> for one request: the hash and the range of the
  embeddings of each item the step reads. The worker's cache is given by its keys.
\<close>

fun gather_items :: "string set \<Rightarrow> int \<Rightarrow> int \<Rightarrow> mm_item list \<Rightarrow> (string \<times> int \<times> int) list result" where
  "gather_items worker computed num_scheduled [] = Inr []"
| "gather_items worker computed num_scheduled (f # fs) =
     (let start_pos = pr_offset (mm_position f); num_encoder_tokens = pr_length (mm_position f)
      in if computed + num_scheduled \<le> start_pos then Inr []
         else if start_pos + num_encoder_tokens \<le> computed then gather_items worker computed num_scheduled fs
         else
           let start_idx = max (computed - start_pos) 0; end_idx = min (computed - start_pos + num_scheduled) num_encoder_tokens
           in chain (guard (start_idx < end_idx) AssertionError) (\<lambda>_.
              chain (get_embeds_indices_in_range (mm_position f) start_idx end_idx) (\<lambda>(a, b).
              if a = b then gather_items worker computed num_scheduled fs
              else
                chain (guard (item_hash f \<in> worker) AssertionError) (\<lambda>_.
                chain (gather_items worker computed num_scheduled fs) (\<lambda>out. Inr ((item_hash f, a, b) # out))))))"

definition gather_mm_embeddings :: "string set \<Rightarrow> mm_request \<Rightarrow> int \<Rightarrow> int \<Rightarrow> int \<Rightarrow> (string \<times> int \<times> int) list result" where
  "gather_mm_embeddings worker r computed num_scheduled shift =
     gather_items worker (computed + shift) num_scheduled (mm_items r)"

text \<open>
  The keys of the worker's cache after a step: the freed hashes leave before the encoder
  runs on the scheduled items, all of which are sent with their data or loaded.
\<close>

definition worker_step :: "string list \<Rightarrow> string set \<Rightarrow> string set \<Rightarrow> string set" where
  "worker_step freed scheduled worker = (worker - set freed) \<union> scheduled"

section \<open>The engine\<close>

record enc_engine =
  en_cache :: enc_cache
  en_scheduled :: "string set"
  en_worker :: "string set"

definition mm_sched :: "bool \<Rightarrow> (string \<Rightarrow> bool) \<Rightarrow> enc_cache enc_sched" where
  "mm_sched disable_chunked has_item =
     \<lparr>es_encdec = False, es_disable_chunked = disable_chunked, es_has_item = has_item,
      es_check = check_and_update_cache, es_can = can_allocate\<rparr>"

definition input_hashes :: "mm_request \<Rightarrow> nat list \<Rightarrow> string set" where
  "input_hashes r ids = (\<lambda>i. item_hash (mm_items r ! i)) ` set ids"

text \<open>
  What happens to the cache: a request is tried; a running request is preempted, with the
  inputs of this step that were withdrawn with it; a step is sent to the worker; processed
  inputs are released; a request ends; the cache is reset.
\<close>

datatype enc_act =
    Try mm_request int int int int bool
  | Preempt mm_request "nat list"
  | Dispatch
  | Processed mm_request int
  | Finish mm_request
  | Reset

fun en_act :: "enc_cache enc_sched \<Rightarrow> enc_act \<Rightarrow> enc_engine \<Rightarrow> enc_engine result" where
  "en_act e (Try r computed n budget shift kv_ok) s =
     chain (schedule_encoder e ec_allocate ec_free kv_ok r computed n budget shift (en_cache s)) (\<lambda>(out, m).
     Inr (s\<lparr>en_cache := m,
            en_scheduled := en_scheduled s \<union>
              (case out of None \<Rightarrow> {} | Some (inputs, _, _, external) \<Rightarrow> input_hashes r inputs \<union> input_hashes r external)\<rparr>))"
| "en_act e (Preempt r withdrawn) s =
     chain (ec_free r (en_cache s)) (\<lambda>m. Inr (s\<lparr>en_cache := m, en_scheduled := en_scheduled s - input_hashes r withdrawn\<rparr>))"
| "en_act e Dispatch s =
     (let (freed, m) = get_freed_mm_hashes (en_cache s)
      in Inr (s\<lparr>en_cache := m, en_worker := worker_step freed (en_scheduled s) (en_worker s), en_scheduled := {}\<rparr>))"
| "en_act e (Processed r computed) s =
     chain (free_processed False get_cached_input_ids free_encoder_input r computed (en_cache s)) (\<lambda>m. Inr (s\<lparr>en_cache := m\<rparr>))"
| "en_act e (Finish r) s = chain (ec_free r (en_cache s)) (\<lambda>m. Inr (s\<lparr>en_cache := m\<rparr>))"
| "en_act e Reset s = Inr (s\<lparr>en_cache := ec_reset (en_cache s), en_worker := {}\<rparr>)"

definition en_init :: "int \<Rightarrow> enc_engine" where
  "en_init cache_size = \<lparr>en_cache = ec_init cache_size, en_scheduled = {}, en_worker = {}\<rparr>"

section \<open>Embeddings in a range\<close>

text \<open>A placeholder covers some tokens, and its mask, if any, has a bit for each of them.\<close>

definition wf_item :: "mm_item \<Rightarrow> bool" where
  "wf_item f \<longleftrightarrow>
     0 < pr_length (mm_position f) \<and>
     (case pr_is_embed (mm_position f) of None \<Rightarrow> True | Some bits \<Rightarrow> int (length bits) = pr_length (mm_position f))"

text \<open>The number of embeddings before a position of the placeholder.\<close>

definition embeds_before :: "placeholder_range \<Rightarrow> int \<Rightarrow> int" where
  "embeds_before p x =
     (case pr_is_embed p of None \<Rightarrow> x | Some bits \<Rightarrow> int (length (filter id (take (nat x) bits))))"

lemma py_index_cumsum:
  assumes "0 < x" "x \<le> int (length bits)"
  shows "py_index (map (\<lambda>i. int (length (filter id (take (Suc i) bits)))) [0 ..< length bits]) (x - 1) =
    Inr (int (length (filter id (take (nat x) bits))))"
proof -
  have "Suc (nat (x - 1)) = nat x" "nat (x - 1) < length bits" using assms by auto
  then show ?thesis using assms by (simp add: py_index_def)
qed

lemma indices_in_range:
  assumes "wf_item f" "0 \<le> a" "a \<le> pr_length (mm_position f)" "b \<le> pr_length (mm_position f)" "0 \<le> b \<or> pr_is_embed (mm_position f) \<noteq> None"
  shows "get_embeds_indices_in_range (mm_position f) a b = Inr (embeds_before (mm_position f) a, embeds_before (mm_position f) b)"
proof (cases "pr_is_embed (mm_position f)")
  case None
  then show ?thesis by (simp add: get_embeds_indices_in_range_def embeds_cumsum_def embeds_before_def)
next
  case (Some bits)
  then have "a \<le> int (length bits)" "b \<le> int (length bits)" using assms by (simp_all add: wf_item_def)
  then show ?thesis using Some assms(2)
    by (auto simp: get_embeds_indices_in_range_def embeds_cumsum_def embeds_before_def py_index_cumsum)
qed

lemma indices_total:
  assumes "wf_item f" "0 \<le> a" "a \<le> pr_length (mm_position f)" "b \<le> pr_length (mm_position f)"
  shows "\<exists>x y. get_embeds_indices_in_range (mm_position f) a b = Inr (x, y) \<and>
    (0 \<le> b \<longrightarrow> x = embeds_before (mm_position f) a \<and> y = embeds_before (mm_position f) b)"
proof (cases "0 \<le> b \<or> pr_is_embed (mm_position f) \<noteq> None")
  case True
  then show ?thesis using indices_in_range [OF assms] by simp
next
  case False
  then show ?thesis by (simp add: get_embeds_indices_in_range_def embeds_cumsum_def)
qed

lemma embeds_before_mono: "x \<le> y \<Longrightarrow> embeds_before p x \<le> embeds_before p y"
proof (cases "pr_is_embed p")
  case (Some bits)
  assume "x \<le> y"
  then have "take (nat y) bits = take (nat x) bits @ take (nat y - nat x) (drop (nat x) bits)"
    by (metis le_add_diff_inverse nat_mono take_add)
  then show ?thesis using Some by (simp add: embeds_before_def)
qed (simp add: embeds_before_def)

text \<open>The step over \<open>n\<close> tokens from \<open>computed\<close> reads embeddings of the item.\<close>

definition reads_item :: "int \<Rightarrow> int \<Rightarrow> mm_item \<Rightarrow> bool" where
  "reads_item computed n f \<longleftrightarrow>
     (let p = mm_position f
      in pr_offset p < computed + n \<and> computed < pr_offset p + pr_length p \<and>
         embeds_before p (max 0 (computed - pr_offset p)) <
         embeds_before p (min (pr_length p) (computed + n - pr_offset p)))"

lemma reads_item_mono:
  assumes "reads_item computed n f" "n \<le> n'"
  shows "reads_item computed n' f"
proof -
  let ?p = "mm_position f"
  have "embeds_before ?p (min (pr_length ?p) (computed + n - pr_offset ?p)) \<le>
      embeds_before ?p (min (pr_length ?p) (computed + n' - pr_offset ?p))"
    using assms(2) by (intro embeds_before_mono) simp
  then show ?thesis using assms by (auto simp: reads_item_def Let_def)
qed

lemma reads_item_pos: "reads_item computed n f \<Longrightarrow> 0 < n"
  unfolding reads_item_def Let_def
  using embeds_before_mono [of "min (pr_length (mm_position f)) (computed + n - pr_offset (mm_position f))"
      "max 0 (computed - pr_offset (mm_position f))" "mm_position f"]
  by (cases "0 < n") auto

lemma gather_ok:
  assumes "\<forall>f \<in> set fs. wf_item f" "0 < n" "\<forall>f \<in> set fs. reads_item computed n f \<longrightarrow> item_hash f \<in> worker"
  shows "\<exists>out. gather_items worker computed n fs = Inr out"
  using assms(1,3)
proof (induction fs)
  case (Cons f fs)
  define p where "p = mm_position f"
  define a where "a = max 0 (computed - pr_offset p)"
  define b where "b = min (pr_length p) (computed + n - pr_offset p)"
  obtain out where out: "gather_items worker computed n fs = Inr out" using Cons by auto
  show ?case
  proof (cases "pr_offset p < computed + n \<and> computed < pr_offset p + pr_length p")
    case True
    then have ab: "0 \<le> a" "a < b" "b \<le> pr_length p" using assms(2) Cons.prems(1) by (auto simp: a_def b_def wf_item_def p_def)
    then have "get_embeds_indices_in_range p a b = Inr (embeds_before p a, embeds_before p b)"
      using Cons.prems(1) unfolding p_def by (intro indices_in_range) auto
    moreover have "embeds_before p a = embeds_before p b \<or> reads_item computed n f"
      using True embeds_before_mono [of a b p] ab(2) by (auto simp: reads_item_def Let_def a_def b_def p_def)
    moreover have "max (computed - pr_offset p) 0 = a" "min (computed - pr_offset p + n) (pr_length p) = b"
      by (auto simp: a_def b_def)
    ultimately show ?thesis using out True ab(2) Cons.prems(2)
      by (auto simp: Let_def p_def [symmetric] simp del: chain_eq_Inr)
  next
    case False
    then show ?thesis using out by (auto simp: Let_def p_def [symmetric] simp del: chain_eq_Inr)
  qed
qed simp

section \<open>The contract of a manager\<close>

definition item_embeds :: "mm_request \<Rightarrow> nat \<Rightarrow> int" where
  "item_embeds r i = get_num_embeds (mm_position (mm_items r ! i))"

definition hash_at :: "mm_request \<Rightarrow> nat \<Rightarrow> string" where
  "hash_at r i = item_hash (mm_items r ! i)"

text \<open>
  Requests as the front end builds them: the items in the order of their placeholders. An
  encoder-decoder model has its inputs at the start.
\<close>

definition wf_request :: "bool \<Rightarrow> mm_request \<Rightarrow> int \<Rightarrow> bool" where
  "wf_request encdec r computed \<longleftrightarrow>
     (\<forall>f \<in> set (mm_items r). wf_item f \<and> (encdec \<longrightarrow> computed \<le> 0 \<or> pr_offset (mm_position f) = 0)) \<and>
     sorted (map (\<lambda>f. pr_offset (mm_position f)) (mm_items r))"

text \<open>
  \<open>room\<close> is the number of free slots, \<open>has\<close> tells what is cached, \<open>held\<close> for whom, and \<open>missing\<close> what
  of it the worker still has to compute. A positive answer of
  \<open>can_allocate\<close> means room for the item and all that was granted before.
\<close>

locale encoder_manager =
  fixes e :: "'m enc_sched" and alloc :: "mm_request \<Rightarrow> nat \<Rightarrow> 'm \<Rightarrow> 'm result"
    and ok :: "'m \<Rightarrow> bool" and fits :: "mm_request \<Rightarrow> bool" and room :: "'m \<Rightarrow> int" and has :: "'m \<Rightarrow> string \<Rightarrow> bool"
    and held :: "'m \<Rightarrow> string \<Rightarrow> string \<Rightarrow> bool" and missing :: "'m \<Rightarrow> string set"
  assumes check_law: "ok m \<Longrightarrow> fits r \<Longrightarrow> i < length (mm_items r) \<Longrightarrow>
      \<exists>m'. es_check e r i m = Inr (has m (hash_at r i), m') \<and> ok m' \<and> room m' = room m \<and> has m' = has m \<and>
        (if has m (hash_at r i) then held m' (request_id r) (hash_at r i) else m' = m) \<and> (\<forall>q h. held m q h \<longrightarrow> held m' q h) \<and>
        missing m' \<subseteq> missing m"
    and can_law: "ok m \<Longrightarrow> fits r \<Longrightarrow> i < length (mm_items r) \<Longrightarrow>
      \<exists>b m'. es_can e r i B S m = Inr (b, m') \<and> ok m' \<and> room m \<le> room m' \<and> (b \<longrightarrow> item_embeds r i + S \<le> room m') \<and>
        (\<forall>h. has m' h \<longrightarrow> has m h) \<and> (\<forall>q h. held m q h \<longrightarrow> held m' q h) \<and>
        missing m' \<subseteq> missing m"
    and alloc_law: "ok m \<Longrightarrow> fits r \<Longrightarrow> i < length (mm_items r) \<Longrightarrow> \<not> has m (hash_at r i) \<Longrightarrow> item_embeds r i \<le> room m \<Longrightarrow>
      \<exists>m'. alloc r i m = Inr m' \<and> ok m' \<and> room m' = room m - item_embeds r i \<and>
        (\<forall>h. has m' h \<longrightarrow> has m h \<or> \<not> es_encdec e \<and> h = hash_at r i) \<and>
        held m' (request_id r) (hash_at r i) \<and> (\<forall>q h. held m q h \<longrightarrow> held m' q h) \<and>
        missing m' \<subseteq> insert (hash_at r i) (missing m)"
    and embeds_law: "fits r \<Longrightarrow> i < length (mm_items r) \<Longrightarrow> 0 \<le> item_embeds r i"
    and encdec_law: "es_encdec e \<Longrightarrow> \<not> has m h"
    and room_law: "ok m \<Longrightarrow> 0 \<le> room m"
begin

text \<open>What the loop maintains: the granted inputs fit together and none of them is cached.\<close>

definition granted :: "mm_request \<Rightarrow> 'm enc_try \<Rightarrow> bool" where
  "granted r s \<longleftrightarrow>
     ok (et_manager s) \<and> (\<forall>i \<in> set (et_inputs s @ et_external s). i < length (mm_items r)) \<and>
     sum_list (map (item_embeds r) (et_inputs s @ et_external s)) = et_embeds s \<and> et_embeds s \<le> room (et_manager s) \<and>
     et_hashes s = hash_at r ` set (et_inputs s @ et_external s) \<and> (\<forall>h \<in> et_hashes s. \<not> has (et_manager s) h) \<and>
     (es_encdec e \<or> distinct (map (hash_at r) (et_inputs s @ et_external s)))"

lemma granted_manager:
  assumes "granted r s" "ok m" "room (et_manager s) \<le> room m" "\<forall>h. has m h \<longrightarrow> has (et_manager s) h"
  shows "granted r (s\<lparr>et_manager := m\<rparr>)"
  using assms by (auto simp: granted_def)

lemma granted_tokens [simp]: "granted r (s\<lparr>et_num_new_tokens := n\<rparr>) = granted r s"
  by (simp add: granted_def)

lemma granted_input:
  assumes "granted r s" "i < length (mm_items r)" "\<not> has (et_manager s) (hash_at r i)"
    and "es_encdec e \<or> hash_at r i \<notin> et_hashes s" "item_embeds r i + et_embeds s \<le> room (et_manager s)"
  shows "granted r (s\<lparr>et_hashes := insert (hash_at r i) (et_hashes s), et_inputs := et_inputs s @ [i],
      et_embeds := et_embeds s + item_embeds r i, et_budget := et_budget s - item_embeds r i\<rparr>)"
    and "granted r (s\<lparr>et_hashes := insert (hash_at r i) (et_hashes s), et_external := et_external s @ [i],
      et_embeds := et_embeds s + item_embeds r i\<rparr>)"
  using assms by (auto simp: granted_def)

text \<open>The granted inputs can be allocated in any order.\<close>

lemma allocate_all:
  assumes "ok m" "fits r" "\<forall>i \<in> set ids. i < length (mm_items r)" "sum_list (map (item_embeds r) ids) \<le> room m"
    and "\<forall>i \<in> set ids. \<not> has m (hash_at r i)" "es_encdec e \<or> distinct (map (hash_at r) ids)"
  shows "\<exists>m'. for_each ids (alloc r) m = Inr m' \<and> ok m' \<and> (\<forall>i \<in> set ids. held m' (request_id r) (hash_at r i)) \<and>
    (\<forall>q h. held m q h \<longrightarrow> held m' q h) \<and> missing m' \<subseteq> missing m \<union> hash_at r ` set ids"
  using assms
proof (induction ids arbitrary: m)
  case (Cons i ids)
  have nonneg: "0 \<le> sum_list (map (item_embeds r) ids)"
    using Cons.prems(2,3) embeds_law by (intro sum_list_nonneg) auto
  then obtain m' where m': "alloc r i m = Inr m'" "ok m'" "room m' = room m - item_embeds r i"
    "\<forall>h. has m' h \<longrightarrow> has m h \<or> \<not> es_encdec e \<and> h = hash_at r i"
    "held m' (request_id r) (hash_at r i)" "\<forall>q h. held m q h \<longrightarrow> held m' q h" "missing m' \<subseteq> insert (hash_at r i) (missing m)"
    using alloc_law [OF Cons.prems(1,2), of i] Cons.prems(3-5) by auto
  have "\<not> has m' (hash_at r j)" if "j \<in> set ids" for j
    using that m'(4) Cons.prems(5,6) encdec_law by (cases "es_encdec e") (auto simp: rev_image_eqI)
  then have "\<exists>m''. for_each ids (alloc r) m' = Inr m'' \<and> ok m'' \<and> (\<forall>i \<in> set ids. held m'' (request_id r) (hash_at r i)) \<and>
      (\<forall>q h. held m' q h \<longrightarrow> held m'' q h) \<and> missing m'' \<subseteq> missing m' \<union> hash_at r ` set ids"
    using Cons.prems m'(2,3) by (intro Cons.IH) auto
  then obtain m'' where m'': "for_each ids (alloc r) m' = Inr m''" "ok m''" "\<forall>i \<in> set ids. held m'' (request_id r) (hash_at r i)"
    "\<forall>q h. held m' q h \<longrightarrow> held m'' q h" "missing m'' \<subseteq> missing m' \<union> hash_at r ` set ids" by blast
  have "missing m'' \<subseteq> missing m \<union> hash_at r ` set (i # ids)" using m'(7) m''(5) by auto
  then show ?case using m'(1,5,6) m''(1-4) by auto
qed simp

text \<open>The item is granted in this step, or cached and referenced.\<close>

definition covered :: "mm_request \<Rightarrow> 'm enc_try \<Rightarrow> mm_item \<Rightarrow> bool" where
  "covered r s f \<longleftrightarrow> item_hash f \<in> et_hashes s \<or> held (et_manager s) (request_id r) (item_hash f)"

text \<open>Nothing granted, referenced or computed is lost.\<close>

definition grows :: "'m enc_try \<Rightarrow> 'm enc_try \<Rightarrow> bool" where
  "grows s s1 \<longleftrightarrow>
     et_hashes s \<subseteq> et_hashes s1 \<and> (\<forall>q h. held (et_manager s) q h \<longrightarrow> held (et_manager s1) q h) \<and>
     missing (et_manager s1) \<subseteq> missing (et_manager s)"

lemma grows_refl: "grows s s"
  by (simp add: grows_def)

lemma grows_trans: "grows s s1 \<Longrightarrow> grows s1 s2 \<Longrightarrow> grows s s2"
  unfolding grows_def by blast

lemma grows_covered: "grows s s1 \<Longrightarrow> covered r s g \<Longrightarrow> covered r s1 g"
  by (auto simp: grows_def covered_def)

text \<open>A round that goes on, and one that leaves the loop.\<close>

definition goes_on :: "mm_request \<Rightarrow> int \<Rightarrow> mm_item \<Rightarrow> 'm enc_try \<Rightarrow> 'm enc_try \<Rightarrow> bool" where
  "goes_on r computed f s s1 \<longleftrightarrow>
     granted r s1 \<and> et_num_new_tokens s1 = et_num_new_tokens s \<and> grows s s1 \<and>
     ((es_encdec e \<longrightarrow> computed \<le> 0) \<longrightarrow> reads_item computed (et_num_new_tokens s) f \<longrightarrow> covered r s1 f)"

definition leaves :: "mm_request \<Rightarrow> int \<Rightarrow> mm_item \<Rightarrow> 'm enc_try \<Rightarrow> 'm enc_try \<Rightarrow> bool" where
  "leaves r computed f s s1 \<longleftrightarrow>
     granted r s1 \<and> 0 \<le> et_num_new_tokens s1 \<and> et_num_new_tokens s1 \<le> et_num_new_tokens s \<and>
     grows s s1 \<and>
     (et_num_new_tokens s1 = 0 \<or> computed + et_num_new_tokens s1 \<le> pr_offset (mm_position f))"

lemma check_round:
  assumes "granted r s" "fits r" "i < length (mm_items r)"
  shows "\<exists>m. (if es_encdec e then Inr (False, et_manager s) else es_check e r i (et_manager s)) =
      Inr (has (et_manager s) (hash_at r i), m) \<and> granted r (s\<lparr>et_manager := m\<rparr>) \<and> has m = has (et_manager s) \<and>
    (if has (et_manager s) (hash_at r i) then held m (request_id r) (hash_at r i) else m = et_manager s) \<and>
    (\<forall>q h. held (et_manager s) q h \<longrightarrow> held m q h) \<and> missing m \<subseteq> missing (et_manager s)"
proof (cases "es_encdec e")
  case True
  then show ?thesis using assms(1) encdec_law by simp
next
  case False
  have "ok (et_manager s)" using assms(1) by (simp add: granted_def)
  from check_law [OF this assms(2,3)] obtain m where
    m: "es_check e r i (et_manager s) = Inr (has (et_manager s) (hash_at r i), m)" "ok m" "room m = room (et_manager s)"
      "has m = has (et_manager s)" "if has (et_manager s) (hash_at r i) then held m (request_id r) (hash_at r i) else m = et_manager s"
      "\<forall>q h. held (et_manager s) q h \<longrightarrow> held m q h" "missing m \<subseteq> missing (et_manager s)" by blast
  have "granted r (s\<lparr>et_manager := m\<rparr>)" using m(2-4) by (intro granted_manager [OF assms(1)]) simp_all
  moreover have "(if es_encdec e then Inr (False, et_manager s) else es_check e r i (et_manager s)) =
      Inr (has (et_manager s) (hash_at r i), m)" using False m(1) by simp
  ultimately show ?thesis using m(4-7) by blast
qed

lemma can_round:
  assumes "granted r s" "fits r" "i < length (mm_items r)"
  shows "\<exists>b m. es_can e r i (et_budget s) (et_embeds s) (et_manager s) = Inr (b, m) \<and> granted r (s\<lparr>et_manager := m\<rparr>) \<and>
    (b \<longrightarrow> item_embeds r i + et_embeds s \<le> room m) \<and> (\<forall>h. has m h \<longrightarrow> has (et_manager s) h) \<and>
    (\<forall>q h. held (et_manager s) q h \<longrightarrow> held m q h) \<and> missing m \<subseteq> missing (et_manager s)"
proof -
  have "ok (et_manager s)" using assms(1) by (simp add: granted_def)
  from can_law [OF this assms(2,3)] show ?thesis using granted_manager [OF assms(1)] by blast
qed

text \<open>The round for an item in reach that is neither scheduled in this step nor cached.\<close>

lemma grant_round:
  assumes "granted r s" "fits r" "i < length (mm_items r)" "mm_items r ! i = f" "wf_item f"
    and "\<not> has (et_manager s) (item_hash f)" "es_encdec e \<or> item_hash f \<notin> et_hashes s"
    and "0 \<le> et_num_new_tokens s" "0 \<le> shift" "pr_offset (mm_position f) < computed + et_num_new_tokens s + shift"
    and "computed < pr_offset (mm_position f) + pr_length (mm_position f)" "\<not> (es_encdec e \<and> 0 < computed)"
    and "es_encdec e \<or> es_check e r i (et_manager s) = Inr (False, et_manager s)"
    and "\<not> (es_disable_chunked e \<and> computed < pr_offset (mm_position f) \<and>
      computed + et_num_new_tokens s < pr_offset (mm_position f) + pr_length (mm_position f))"
  shows "(\<exists>s1. (\<forall>rest. schedule_items e r computed shift ((i, f) # rest) s = schedule_items e r computed shift rest s1) \<and>
      goes_on r computed f s s1) \<or>
    (\<exists>s1. (\<forall>rest. schedule_items e r computed shift ((i, f) # rest) s = Inr s1) \<and> leaves r computed f s s1)"
proof -
  define p where "p = mm_position f"
  obtain b m where m: "es_can e r i (et_budget s) (et_embeds s) (et_manager s) = Inr (b, m)" "granted r (s\<lparr>et_manager := m\<rparr>)"
    "b \<longrightarrow> item_embeds r i + et_embeds s \<le> room m" "\<forall>h. has m h \<longrightarrow> has (et_manager s) h"
    "\<forall>q h. held (et_manager s) q h \<longrightarrow> held m q h" "missing m \<subseteq> missing (et_manager s)"
    using can_round [OF assms(1-3)] by blast
  define n where "n = et_num_new_tokens s"
  define a0 where "a0 = max 0 (computed - pr_offset p)"
  define b0 where "b0 = min (pr_length p) (computed + n - pr_offset p)"
  have emb: "get_num_embeds p = item_embeds r i" "hash_at r i = item_hash f" using assms(4) by (simp_all add: item_embeds_def hash_at_def p_def)
  note eval = Let_def p_def [symmetric] n_def [symmetric] a0_def [symmetric] b0_def [symmetric] m(1) emb(1)
  obtain x y where xy: "get_embeds_indices_in_range p a0 b0 = Inr (x, y)" "0 \<le> b0 \<Longrightarrow> x = embeds_before p a0 \<and> y = embeds_before p b0"
    using indices_total [OF assms(5), of a0 b0] assms(5,11) by (auto simp: p_def a0_def b0_def wf_item_def)
  note cond = assms(7,10-14) [unfolded p_def [symmetric] n_def [symmetric]]
  show ?thesis
  proof (cases b)
    case False
    let ?s = "s\<lparr>et_manager := m, et_num_new_tokens := if computed + shift < pr_offset p then pr_offset p - (computed + shift) else 0\<rparr>"
    have "leaves r computed f s ?s" using m(2,5,6) cond assms(8,9) by (auto simp: leaves_def grows_def p_def n_def)
    moreover have "schedule_items e r computed shift ((i, f) # rest) s = Inr ?s" for rest
      using cond False by (auto simp: eval simp del: chain_eq_Inr)
    ultimately show ?thesis by blast
  next
    case True
    note g = granted_input [OF m(2) assms(3), simplified emb(2), simplified] 
    consider "y - x = 0" | "y - x \<noteq> 0" "es_has_item e (item_hash f)" | "y - x \<noteq> 0" "\<not> es_has_item e (item_hash f)" by blast
    then show ?thesis
    proof cases
      case 1
      have "\<not> reads_item computed n f" using 1 xy(2) assms(5) by (auto simp: reads_item_def Let_def p_def a0_def b0_def wf_item_def)
      then have "goes_on r computed f s (s\<lparr>et_manager := m\<rparr>)" using m(2,5,6) by (simp add: goes_on_def grows_def n_def)
      moreover have "schedule_items e r computed shift ((i, f) # rest) s = schedule_items e r computed shift rest (s\<lparr>et_manager := m\<rparr>)" for rest
        using cond True 1 xy(1) by (auto simp: eval simp del: chain_eq_Inr)
      ultimately show ?thesis by blast
    next
      case 2
      let ?s = "s\<lparr>et_manager := m, et_hashes := insert (item_hash f) (et_hashes s), et_external := et_external s @ [i],
        et_embeds := et_embeds s + item_embeds r i\<rparr>"
      have "goes_on r computed f s ?s" using g(2) m(3-6) True assms(6,7) by (auto simp: goes_on_def grows_def covered_def)
      moreover have "schedule_items e r computed shift ((i, f) # rest) s = schedule_items e r computed shift rest ?s" for rest
        using cond True 2 xy(1) by (auto simp: eval simp del: chain_eq_Inr)
      ultimately show ?thesis by blast
    next
      case 3
      let ?s = "s\<lparr>et_manager := m, et_hashes := insert (item_hash f) (et_hashes s), et_inputs := et_inputs s @ [i],
        et_embeds := et_embeds s + item_embeds r i, et_budget := et_budget s - item_embeds r i\<rparr>"
      have "goes_on r computed f s ?s" using g(1) m(3-6) True assms(6,7) by (auto simp: goes_on_def grows_def covered_def)
      moreover have "schedule_items e r computed shift ((i, f) # rest) s = schedule_items e r computed shift rest ?s" for rest
        using cond True 3 xy(1) by (auto simp: eval simp del: chain_eq_Inr)
      ultimately show ?thesis by blast
    qed
  qed
qed

lemma round:
  assumes "granted r s" "fits r" "i < length (mm_items r)" "mm_items r ! i = f" "wf_item f"
    and "0 \<le> et_num_new_tokens s" "0 \<le> shift" "es_encdec e \<longrightarrow> computed \<le> 0 \<or> pr_offset (mm_position f) = 0"
  shows "(\<exists>s1. (\<forall>rest. schedule_items e r computed shift ((i, f) # rest) s = schedule_items e r computed shift rest s1) \<and>
      goes_on r computed f s s1) \<or>
    (\<exists>s1. (\<forall>rest. schedule_items e r computed shift ((i, f) # rest) s = Inr s1) \<and> leaves r computed f s s1)"
proof -
  let ?p = "mm_position f" and ?n = "et_num_new_tokens s"
  have h: "hash_at r i = item_hash f" using assms(4) by (simp add: hash_at_def)
  obtain m where m: "(if es_encdec e then Inr (False, et_manager s) else es_check e r i (et_manager s)) =
      Inr (has (et_manager s) (item_hash f), m)" "granted r (s\<lparr>et_manager := m\<rparr>)"
    "if has (et_manager s) (item_hash f) then held m (request_id r) (item_hash f) else m = et_manager s"
    "\<forall>q h. held (et_manager s) q h \<longrightarrow> held m q h" "missing m \<subseteq> missing (et_manager s)"
    using check_round [OF assms(1-3)] unfolding h by blast
  consider (far) "computed + ?n + shift \<le> pr_offset ?p"
    | (skip) "\<not> computed + ?n + shift \<le> pr_offset ?p"
        "es_encdec e \<and> 0 < computed \<or> pr_offset ?p + pr_length ?p \<le> computed \<or> \<not> es_encdec e \<and> item_hash f \<in> et_hashes s"
    | (reach) "\<not> computed + ?n + shift \<le> pr_offset ?p" "\<not> (es_encdec e \<and> 0 < computed)" "\<not> pr_offset ?p + pr_length ?p \<le> computed"
        "\<not> (\<not> es_encdec e \<and> item_hash f \<in> et_hashes s)" by blast
  then show ?thesis
  proof cases
    case far
    then have "leaves r computed f s s" using assms(1,6,7) by (auto simp: leaves_def grows_refl)
    then show ?thesis using far by auto
  next
    case skip
    then have "goes_on r computed f s s" using assms(1) by (auto simp: goes_on_def grows_refl covered_def reads_item_def Let_def)
    moreover have "schedule_items e r computed shift ((i, f) # rest) s = schedule_items e r computed shift rest s" for rest
      using skip assms(8) by (auto simp: Let_def simp del: chain_eq_Inr)
    ultimately show ?thesis by blast
  next
    case reach
    consider (hit) "has (et_manager s) (item_hash f)"
      | (chunk) "\<not> has (et_manager s) (item_hash f)"
          "es_disable_chunked e \<and> computed < pr_offset ?p \<and> computed + ?n < pr_offset ?p + pr_length ?p"
      | (new) "\<not> has (et_manager s) (item_hash f)"
          "\<not> (es_disable_chunked e \<and> computed < pr_offset ?p \<and> computed + ?n < pr_offset ?p + pr_length ?p)" by blast
    then show ?thesis
    proof cases
      case hit
      then have "goes_on r computed f s (s\<lparr>et_manager := m\<rparr>)" using m by (auto simp: goes_on_def grows_def covered_def)
      moreover have "schedule_items e r computed shift ((i, f) # rest) s = schedule_items e r computed shift rest (s\<lparr>et_manager := m\<rparr>)" for rest
        using reach hit m(1) by (auto simp: Let_def simp del: chain_eq_Inr)
      ultimately show ?thesis by blast
    next
      case chunk
      let ?s = "s\<lparr>et_manager := m, et_num_new_tokens := max 0 (pr_offset ?p - (computed + shift))\<rparr>"
      have "leaves r computed f s ?s" using m(2,4,5) reach assms(6,7) by (auto simp: leaves_def grows_def)
      moreover have "schedule_items e r computed shift ((i, f) # rest) s = Inr ?s" for rest
        using reach chunk m(1) by (auto simp: Let_def simp del: chain_eq_Inr)
      ultimately show ?thesis by blast
    next
      case new
      then have "es_encdec e \<or> es_check e r i (et_manager s) = Inr (False, et_manager s)" using m(1,3) by (auto split: if_splits)
      then show ?thesis using reach new assms(6,7) by (intro grant_round [OF assms(1-5)]) auto
    qed
  qed
qed

text \<open>
  The loop returns; the granted inputs fit, and every item that the final range reads is
  granted or cached. With encoder-decoder models the inputs belong to the first tokens.
\<close>

lemma schedule_items_ok:
  assumes "granted r s" "fits r" "\<forall>(i, f) \<in> set its. i < length (mm_items r) \<and> mm_items r ! i = f \<and> wf_item f"
    and "0 \<le> et_num_new_tokens s" "0 \<le> shift" "\<forall>(i, f) \<in> set its. es_encdec e \<longrightarrow> computed \<le> 0 \<or> pr_offset (mm_position f) = 0"
    and "sorted (map (\<lambda>(i, f). pr_offset (mm_position f)) its)"
  shows "\<exists>s'. schedule_items e r computed shift its s = Inr s' \<and> granted r s' \<and> 0 \<le> et_num_new_tokens s' \<and>
    et_num_new_tokens s' \<le> et_num_new_tokens s \<and> grows s s' \<and>
    (\<forall>(i, f) \<in> set its. (es_encdec e \<longrightarrow> computed \<le> 0) \<longrightarrow> reads_item computed (et_num_new_tokens s') f \<longrightarrow> covered r s' f)"
  using assms(1,3,4,6,7)
proof (induction its arbitrary: s)
  case (Cons x its)
  obtain i f where x: "x = (i, f)" by (cases x)
  have f: "i < length (mm_items r)" "mm_items r ! i = f" "wf_item f" using Cons.prems(2) x by auto
  from round [OF Cons.prems(1) assms(2) f Cons.prems(3) assms(5), of computed] Cons.prems(4) x
  consider (on) s1 where "\<forall>rest. schedule_items e r computed shift ((i, f) # rest) s = schedule_items e r computed shift rest s1"
      "goes_on r computed f s s1"
    | (stop) s1 where "\<forall>rest. schedule_items e r computed shift ((i, f) # rest) s = Inr s1" "leaves r computed f s s1" by auto
  then show ?case
  proof cases
    case on
    then have n: "et_num_new_tokens s1 = et_num_new_tokens s" "granted r s1" by (simp_all add: goes_on_def)
    obtain s' where s': "schedule_items e r computed shift its s1 = Inr s'" "granted r s'" "0 \<le> et_num_new_tokens s'"
      "et_num_new_tokens s' \<le> et_num_new_tokens s" "grows s1 s'"
      "\<forall>(i, f) \<in> set its. (es_encdec e \<longrightarrow> computed \<le> 0) \<longrightarrow> reads_item computed (et_num_new_tokens s') f \<longrightarrow> covered r s' f"
      using Cons.IH [OF n(2)] Cons.prems n(1) by auto
    have "(es_encdec e \<longrightarrow> computed \<le> 0) \<longrightarrow> reads_item computed (et_num_new_tokens s') f \<longrightarrow> covered r s' f"
      using on(2) s'(4,5) reads_item_mono [of computed "et_num_new_tokens s'" f "et_num_new_tokens s"] grows_covered
      by (auto simp: goes_on_def)
    moreover have "grows s s'" using on(2) s'(5) grows_trans by (auto simp: goes_on_def)
    ultimately show ?thesis using on(1) s' x by auto
  next
    case stop
    have "\<not> reads_item computed (et_num_new_tokens s1) g" if "(j, g) \<in> set (x # its)" for j g
    proof -
      have "pr_offset (mm_position f) \<le> pr_offset (mm_position g)" using that Cons.prems(5) x by auto
      then show ?thesis using stop(2) reads_item_pos [of computed "et_num_new_tokens s1" g]
        by (auto simp: leaves_def reads_item_def Let_def)
    qed
    then show ?thesis using stop x by (auto simp: leaves_def)
  qed
qed (auto simp: grows_refl)

text \<open>Trying a request and allocating what was granted.\<close>

lemma try_and_allocate:
  assumes "ok m" "wf_request (es_encdec e) r computed" "0 \<le> n" "0 \<le> shift" and fits: "fits r"
  shows "\<exists>inputs n' b external m1 m2 m3.
    try_schedule_encoder_inputs e r computed n budget shift m = Inr ((inputs, n', b, external), m1) \<and> ok m1 \<and>
    for_each inputs (alloc r) m1 = Inr m2 \<and> for_each external (alloc r) m2 = Inr m3 \<and> ok m3 \<and> 0 \<le> n' \<and> n' \<le> n \<and>
    missing m1 \<subseteq> missing m \<and> missing m3 \<subseteq> missing m \<union> hash_at r ` set (inputs @ external) \<and>
    (\<forall>q h. held m q h \<longrightarrow> held m1 q h \<and> held m3 q h) \<and>
    (\<forall>f \<in> set (mm_items r). (es_encdec e \<longrightarrow> computed \<le> 0) \<longrightarrow> reads_item computed n' f \<longrightarrow> held m3 (request_id r) (item_hash f))"
proof (cases "n = 0 \<or> mm_items r = []")
  case True
  then show ?thesis using assms reads_item_pos by (fastforce simp: try_schedule_encoder_inputs_def)
next
  case False
  let ?its = "enumerate 0 (mm_items r)" and ?s = "try_init n budget m"
  have its: "\<forall>(i, f) \<in> set ?its. i < length (mm_items r) \<and> mm_items r ! i = f \<and> wf_item f"
      "\<forall>(i, f) \<in> set ?its. es_encdec e \<longrightarrow> computed \<le> 0 \<or> pr_offset (mm_position f) = 0"
    using assms(2) by (auto simp: wf_request_def in_set_enumerate_eq)
  have "map (\<lambda>(i, f). pr_offset (mm_position f)) ?its = map (\<lambda>f. pr_offset (mm_position f)) (map snd ?its)" by (simp only: map_map comp_def case_prod_beta')
  then have sorted: "sorted (map (\<lambda>(i, f). pr_offset (mm_position f)) ?its)" using assms(2) by (simp add: wf_request_def)
  have init: "granted r ?s" "0 \<le> et_num_new_tokens ?s" using assms(1,3) room_law by (simp_all add: granted_def try_init_def)
  have n: "et_num_new_tokens ?s = n" by (simp add: try_init_def)
  obtain s where s: "schedule_items e r computed shift ?its ?s = Inr s" "granted r s" "0 \<le> et_num_new_tokens s"
      "et_num_new_tokens s \<le> n" "grows ?s s"
      "\<forall>(i, f) \<in> set ?its. (es_encdec e \<longrightarrow> computed \<le> 0) \<longrightarrow> reads_item computed (et_num_new_tokens s) f \<longrightarrow> covered r s f"
    using schedule_items_ok [OF init(1) fits its(1) init(2) assms(4) its(2) sorted] unfolding n by blast
  obtain m' where m': "for_each (et_inputs s @ et_external s) (alloc r) (et_manager s) = Inr m'" "ok m'"
    "\<forall>i \<in> set (et_inputs s @ et_external s). held m' (request_id r) (hash_at r i)"
    "\<forall>q h. held (et_manager s) q h \<longrightarrow> held m' q h" "missing m' \<subseteq> missing (et_manager s) \<union> hash_at r ` set (et_inputs s @ et_external s)"
    using allocate_all [of "et_manager s" r "et_inputs s @ et_external s"] s(2) fits by (auto simp: granted_def)
  obtain m2 where m2: "for_each (et_inputs s) (alloc r) (et_manager s) = Inr m2" "for_each (et_external s) (alloc r) m2 = Inr m'"
    using m'(1) by (auto simp: for_each_append)
  have "held m' (request_id r) (item_hash f)"
    if f: "f \<in> set (mm_items r)" "es_encdec e \<longrightarrow> computed \<le> 0" "reads_item computed (et_num_new_tokens s) f" for f
  proof -
    obtain i where "i < length (mm_items r)" "mm_items r ! i = f" using f(1) by (auto simp: in_set_conv_nth)
    then have "(i, f) \<in> set ?its" by (auto simp: in_set_enumerate_eq)
    then have "covered r s f" using s(6) f(2,3) by auto
    then show ?thesis using m'(3,4) s(2) by (auto simp: covered_def granted_def)
  qed
  moreover have "try_schedule_encoder_inputs e r computed n budget shift m =
      Inr ((et_inputs s, et_num_new_tokens s, et_budget s, et_external s), et_manager s)"
    using False s(1) by (simp add: try_schedule_encoder_inputs_def)
  moreover have "ok (et_manager s)" "missing (et_manager s) \<subseteq> missing m" "\<forall>q h. held m q h \<longrightarrow> held (et_manager s) q h"
    using s(2,5) by (auto simp: granted_def grows_def try_init_def)
  ultimately show ?thesis using s(3,4) m2 m'(2,4,5)
    by (intro exI [of _ "et_inputs s"] exI [of _ "et_num_new_tokens s"] exI [of _ "et_budget s"] exI [of _ "et_external s"]
        exI [of _ "et_manager s"] exI [of _ m2] exI [of _ m'] conjI) (assumption | blast)+
qed

end

section \<open>The two managers\<close>

definition ed_sched :: "bool \<Rightarrow> (string \<Rightarrow> bool) \<Rightarrow> encdec_cache enc_sched" where
  "ed_sched disable_chunked has_item =
     \<lparr>es_encdec = True, es_disable_chunked = disable_chunked, es_has_item = has_item,
      es_check = ed_check_and_update_cache, es_can = ed_can_allocate\<rparr>"

text \<open>What the cache promises and the worker with the keys \<open>W\<close> lacks.\<close>

definition ec_missing :: "string set \<Rightarrow> enc_cache \<Rightarrow> string set" where
  "ec_missing W m = dom (map_of (ec_cached m)) - (W - set (ec_freed m))"

lemma item_embeds_sized: "sized emb r \<Longrightarrow> i < length (mm_items r) \<Longrightarrow> item_embeds r i = int (emb (hash_at r i))"
  by (simp add: sized_def item_embeds_def hash_at_def)

lemma evicted_missing:
  assumes "ec_inv emb m" "k \<le> length (ec_freeable m)"
  shows "ec_missing W (evicted k m) \<subseteq> ec_missing W m" "ec_held m q h \<Longrightarrow> ec_held (evicted k m) q h"
    "od_has (ec_cached (evicted k m)) h \<Longrightarrow> od_has (ec_cached m) h" "ec_num_free_slots m \<le> ec_num_free_slots (evicted k m)"
proof -
  let ?old = "take k (ec_freeable m)"
  have sel: "ec_freed (evicted k m) = ec_freed m @ map fst ?old"
    "map_of (ec_cached (evicted k m)) = map_of (ec_cached m) |` (- fst ` set ?old)"
    "ec_num_free_slots (evicted k m) = ec_num_free_slots m + sum_list (map snd ?old)"
    using evicted_sel [OF assms] by simp_all
  have old: "map_of (ec_cached m) (fst x) = Some {} \<and> 0 \<le> snd x" if x: "x \<in> set ?old" for x
  proof -
    have "x \<in> set (ec_freeable m)" using x by (rule in_set_takeD)
    then have "map_of (ec_freeable m) (fst x) = Some (snd x)"
      using assms(1) by (intro map_of_is_SomeI) (simp_all add: ec_inv_def od_keys_def)
    then show ?thesis using ec_invD(1) [OF assms(1), of "fst x" "snd x"] by simp
  qed
  show "ec_missing W (evicted k m) \<subseteq> ec_missing W m" unfolding ec_missing_def sel by auto
  show "ec_held (evicted k m) q h" if "ec_held m q h" using that old by (auto simp: ec_held_def sel restrict_map_def)
  show "od_has (ec_cached m) h" if "od_has (ec_cached (evicted k m)) h" using that by (auto simp: od_has_dom sel)
  have "0 \<le> sum_list (map snd ?old)" using old by (intro sum_list_nonneg) auto
  then show "ec_num_free_slots m \<le> ec_num_free_slots (evicted k m)" using sel(3) by simp
qed

interpretation mm: encoder_manager "mm_sched disable_chunked has_item" ec_allocate "ec_inv emb" "sized emb" ec_num_free_slots
  "\<lambda>m. od_has (ec_cached m)" ec_held "ec_missing W" for disable_chunked has_item emb W
proof unfold_locales
  fix m :: enc_cache and r :: mm_request and i :: nat
  assume a: "ec_inv emb m" "sized emb r" "i < length (mm_items r)"
  show "\<exists>m'. es_check (mm_sched disable_chunked has_item) r i m = Inr (od_has (ec_cached m) (hash_at r i), m') \<and> ec_inv emb m' \<and>
      ec_num_free_slots m' = ec_num_free_slots m \<and> od_has (ec_cached m') = od_has (ec_cached m) \<and>
      (if od_has (ec_cached m) (hash_at r i) then ec_held m' (request_id r) (hash_at r i) else m' = m) \<and>
      (\<forall>q h. ec_held m q h \<longrightarrow> ec_held m' q h) \<and> ec_missing W m' \<subseteq> ec_missing W m"
  proof -
    obtain m' where m': "check_and_update_cache r i m = Inr (od_has (ec_cached m) (hash_at r i), m')" "ec_inv emb m'"
      "ec_num_free_slots m' = ec_num_free_slots m" "dom (map_of (ec_cached m')) = dom (map_of (ec_cached m))"
      "ec_freed m' = ec_freed m" "if od_has (ec_cached m) (hash_at r i) then ec_held m' (request_id r) (hash_at r i) else m' = m"
      "\<forall>q h. ec_held m q h \<longrightarrow> ec_held m' q h"
      using check_ok [OF a(1,3)] unfolding hash_at_def by blast
    have "od_has (ec_cached m') = od_has (ec_cached m)" "ec_missing W m' \<subseteq> ec_missing W m"
      using m'(4,5) by (auto simp: od_has_dom ec_missing_def)
    moreover have "es_check (mm_sched disable_chunked has_item) r i m = Inr (od_has (ec_cached m) (hash_at r i), m')"
      using m'(1) by (simp add: mm_sched_def)
    ultimately show ?thesis using m'(2,3,6,7) by blast
  qed
  show "\<exists>b m'. es_can (mm_sched disable_chunked has_item) r i B S m = Inr (b, m') \<and> ec_inv emb m' \<and>
      ec_num_free_slots m \<le> ec_num_free_slots m' \<and> (b \<longrightarrow> item_embeds r i + S \<le> ec_num_free_slots m') \<and>
      (\<forall>h. od_has (ec_cached m') h \<longrightarrow> od_has (ec_cached m) h) \<and> (\<forall>q h. ec_held m q h \<longrightarrow> ec_held m' q h) \<and>
      ec_missing W m' \<subseteq> ec_missing W m" for B S
  proof -
    obtain b k where k: "k \<le> length (ec_freeable m)" "can_allocate r i B S m = Inr (b, evicted k m)"
      "b \<longrightarrow> item_embeds r i + S \<le> ec_num_free_slots (evicted k m)"
      using can_allocate_ok [OF a, of B S] item_embeds_sized [OF a(2,3)] unfolding hash_at_def by auto
    then show ?thesis using evicted_missing [OF a(1) k(1)] evicted_sel [OF a(1) k(1)]
      by (intro exI [of _ b] exI [of _ "evicted k m"]) (simp add: mm_sched_def)
  qed
  assume b: "\<not> od_has (ec_cached m) (hash_at r i)" "item_embeds r i \<le> ec_num_free_slots m"
  show "\<exists>m'. ec_allocate r i m = Inr m' \<and> ec_inv emb m' \<and> ec_num_free_slots m' = ec_num_free_slots m - item_embeds r i \<and>
      (\<forall>h. od_has (ec_cached m') h \<longrightarrow> od_has (ec_cached m) h \<or> \<not> es_encdec (mm_sched disable_chunked has_item) \<and> h = hash_at r i) \<and>
      ec_held m' (request_id r) (hash_at r i) \<and> (\<forall>q h. ec_held m q h \<longrightarrow> ec_held m' q h) \<and>
      ec_missing W m' \<subseteq> insert (hash_at r i) (ec_missing W m)"
    using allocate_ok [OF a] b item_embeds_sized [OF a(2,3)] unfolding hash_at_def
    by (auto simp: mm_sched_def ec_held_def ec_missing_def od_has_dom split: if_splits)
qed (auto simp: item_embeds_sized mm_sched_def ec_inv_def)

interpretation ed: encoder_manager "ed_sched disable_chunked has_item" ed_allocate "\<lambda>m. 0 \<le> ed_num_free_slots m"
  "\<lambda>r. \<forall>i < length (mm_items r). 0 \<le> item_embeds r i" ed_num_free_slots "\<lambda>_ _. False"
  "\<lambda>m q h. h \<in> set (ed_allocated m)" "\<lambda>m. set (ed_allocated m)" for disable_chunked has_item
  by unfold_locales
    (auto simp: ed_sched_def ed_check_and_update_cache_def ed_can_allocate_def ed_allocate_def get_num_encoder_embeds_def
      item_embeds_def hash_at_def)

end
