(* ===== verification/Encoder_Correct.thy ===== *)
theory Encoder_Correct
  imports Encoder_Schedule
begin

text \<open>
  Properties of the encoder cache across scheduler and worker: every sequence of actions
  returns and keeps the two caches in step, so a step finds the embeddings it reads. Three
  theorems show where the code departs from that: the shifted range of a draft model, the
  preemption of a request scheduled in the same step, and the release of the inputs of an
  encoder-decoder model.
\<close>

section \<open>Actions of the engine\<close>

definition en_ok :: "(string \<Rightarrow> nat) \<Rightarrow> enc_engine \<Rightarrow> bool" where
  "en_ok emb s \<longleftrightarrow> ec_inv emb (en_cache s) \<and> ec_missing (en_worker s) (en_cache s) \<subseteq> en_scheduled s"

text \<open>
  Actions on well-formed requests in which no request of the current step is withdrawn: under
  first-come-first-served the preempted request has not been scheduled yet.
\<close>

fun act_ok :: "(string \<Rightarrow> nat) \<Rightarrow> enc_act \<Rightarrow> bool" where
  "act_ok emb (Try r computed n budget shift kv_ok) \<longleftrightarrow> sized emb r \<and> wf_request False r computed \<and> 0 \<le> n \<and> 0 \<le> shift"
| "act_ok emb (Preempt r withdrawn) \<longleftrightarrow> sized emb r \<and> withdrawn = []"
| "act_ok emb Dispatch \<longleftrightarrow> True"
| "act_ok emb (Processed r computed) \<longleftrightarrow> sized emb r"
| "act_ok emb (Finish r) \<longleftrightarrow> sized emb r"
| "act_ok emb Reset \<longleftrightarrow> True"

text \<open>What the rest of a scheduling pass does: other requests are tried and preempted.\<close>

fun concerns_other :: "string \<Rightarrow> enc_act \<Rightarrow> bool" where
  "concerns_other q (Try r computed n budget shift kv_ok) \<longleftrightarrow> request_id r \<noteq> q"
| "concerns_other q (Preempt r withdrawn) \<longleftrightarrow> request_id r \<noteq> q"
| "concerns_other q _ \<longleftrightarrow> False"

lemma unref_missing: "unref_only q m m' \<Longrightarrow> ec_missing W m' = ec_missing W m"
  by (simp add: unref_only_def ec_missing_def)

lemma input_hashes_hash_at: "input_hashes r ids = hash_at r ` set ids"
  by (simp add: input_hashes_def hash_at_def)

lemma schedule_encoder_ok:
  assumes "ec_inv emb m" "sized emb r" "wf_request False r computed" "0 \<le> n" "0 \<le> shift"
  shows "\<exists>out m'. schedule_encoder (mm_sched dc hi) ec_allocate ec_free kv_ok r computed n budget shift m = Inr (out, m') \<and>
    ec_inv emb m' \<and>
    ec_missing W m' \<subseteq> ec_missing W m \<union>
      (case out of None \<Rightarrow> {} | Some (inputs, _, _, external) \<Rightarrow> input_hashes r inputs \<union> input_hashes r external) \<and>
    (\<forall>q h. q \<noteq> request_id r \<longrightarrow> ec_held m q h \<longrightarrow> ec_held m' q h) \<and>
    (case out of None \<Rightarrow> True | Some (_, n', _, _) \<Rightarrow>
       0 < n' \<and> (\<forall>f \<in> set (mm_items r). reads_item computed n' f \<longrightarrow> ec_held m' (request_id r) (item_hash f)))"
proof -
  have "wf_request (es_encdec (mm_sched dc hi)) r computed" using assms(3) by (simp add: mm_sched_def)
  from mm.try_and_allocate [OF assms(1) this assms(4,5,2), of budget W]
  obtain inputs n' b external m1 m2 m3 where
    t: "try_schedule_encoder_inputs (mm_sched dc hi) r computed n budget shift m = Inr ((inputs, n', b, external), m1)" "ec_inv emb m1"
      "for_each inputs (ec_allocate r) m1 = Inr m2" "for_each external (ec_allocate r) m2 = Inr m3" "ec_inv emb m3" "0 \<le> n'"
      "ec_missing W m1 \<subseteq> ec_missing W m" "ec_missing W m3 \<subseteq> ec_missing W m \<union> hash_at r ` set (inputs @ external)"
      "\<forall>q h. ec_held m q h \<longrightarrow> ec_held m1 q h \<and> ec_held m3 q h"
      "\<forall>f \<in> set (mm_items r). (es_encdec (mm_sched dc hi) \<longrightarrow> computed \<le> 0) \<longrightarrow> reads_item computed n' f \<longrightarrow>
         ec_held m3 (request_id r) (item_hash f)" by blast
  have enc: "\<not> es_encdec (mm_sched dc hi)" by (simp add: mm_sched_def)
  obtain m4 where m4: "ec_free r m1 = Inr m4" "ec_inv emb m4" "unref_only (request_id r) m1 m4"
    using ec_free_ok [OF t(2) assms(2)] by blast
  consider "n' = 0" | "n' \<noteq> 0" "\<not> kv_ok" | "n' \<noteq> 0" "kv_ok" by blast
  then show ?thesis
  proof cases
    case 1
    then have "schedule_encoder (mm_sched dc hi) ec_allocate ec_free kv_ok r computed n budget shift m = Inr (None, m1)"
      using t(1) by (simp add: schedule_encoder_def)
    then show ?thesis using t(2,7,9) by auto
  next
    case 2
    then have "schedule_encoder (mm_sched dc hi) ec_allocate ec_free kv_ok r computed n budget shift m = Inr (None, m4)"
      using t(1) m4(1) by (simp add: schedule_encoder_def)
    moreover have "\<forall>q h. q \<noteq> request_id r \<longrightarrow> ec_held m q h \<longrightarrow> ec_held m4 q h"
      using t(9) m4(3) unfolding unref_only_def by blast
    ultimately show ?thesis using t(7) m4(2) unref_missing [OF m4(3), of W] by auto
  next
    case 3
    then have "schedule_encoder (mm_sched dc hi) ec_allocate ec_free kv_ok r computed n budget shift m =
        Inr (Some (inputs, n', if inputs = [] then budget else b, external), m3)"
      using t(1,3,4) by (simp add: schedule_encoder_def)
    moreover have "0 < n'" using 3 t(6) by simp
    ultimately show ?thesis using t(5,8,9,10) enc by (auto simp: input_hashes_hash_at)
  qed
qed

lemma free_processed_ids:
  "free_processed encdec ids free r computed m =
     for_each (filter (\<lambda>i. encdec \<and> 0 < computed \<or> pr_offset (mm_position (mm_items r ! i)) +
       pr_length (mm_position (mm_items r ! i)) \<le> computed) (ids r m)) (free r) m"
  if "\<forall>i \<in> set (ids r m). i < length (mm_items r)"
proof -
  have "for_each xs (\<lambda>i m. chain (py_nth (mm_items r) i) (\<lambda>f.
       if encdec \<and> 0 < computed then free r i m
       else if pr_offset (mm_position f) + pr_length (mm_position f) \<le> computed then free r i m else Inr m)) m =
     for_each (filter (\<lambda>i. encdec \<and> 0 < computed \<or> pr_offset (mm_position (mm_items r ! i)) +
       pr_length (mm_position (mm_items r ! i)) \<le> computed) xs) (free r) m"
    if "\<forall>i \<in> set xs. i < length (mm_items r)" for xs m
    using that by (induction xs arbitrary: m) (auto simp: chain_def split: sum.splits)
  then show ?thesis using that by (simp add: free_processed_def)
qed

lemma act_keeps:
  assumes "en_ok emb s" "act_ok emb a"
  shows "\<exists>s'. en_act (mm_sched dc hi) a s = Inr s' \<and> en_ok emb s' \<and>
    (\<forall>q. concerns_other q a \<longrightarrow> (\<forall>h. ec_held (en_cache s) q h \<longrightarrow> ec_held (en_cache s') q h))"
proof -
  have inv: "ec_inv emb (en_cache s)" "ec_missing (en_worker s) (en_cache s) \<subseteq> en_scheduled s" using assms(1) by (simp_all add: en_ok_def)
  show ?thesis
  proof (cases a)
    case (Try r computed n budget shift kv_ok)
    then have r: "sized emb r" "wf_request False r computed" "0 \<le> n" "0 \<le> shift" using assms(2) by simp_all
    from schedule_encoder_ok [OF inv(1) r, of dc hi kv_ok budget "en_worker s"] obtain out m where
      m: "schedule_encoder (mm_sched dc hi) ec_allocate ec_free kv_ok r computed n budget shift (en_cache s) = Inr (out, m)"
        "ec_inv emb m" "ec_missing (en_worker s) m \<subseteq> ec_missing (en_worker s) (en_cache s) \<union>
          (case out of None \<Rightarrow> {} | Some (inputs, _, _, external) \<Rightarrow> input_hashes r inputs \<union> input_hashes r external)"
        "\<forall>q h. q \<noteq> request_id r \<longrightarrow> ec_held (en_cache s) q h \<longrightarrow> ec_held m q h" by blast
    let ?s = "s\<lparr>en_cache := m, en_scheduled := en_scheduled s \<union>
      (case out of None \<Rightarrow> {} | Some (inputs, _, _, external) \<Rightarrow> input_hashes r inputs \<union> input_hashes r external)\<rparr>"
    have "en_act (mm_sched dc hi) a s = Inr ?s" using Try m(1) by simp
    moreover have "en_ok emb ?s" using m(2,3) inv(2) by (auto simp: en_ok_def)
    moreover have "\<forall>q. concerns_other q a \<longrightarrow> (\<forall>h. ec_held (en_cache s) q h \<longrightarrow> ec_held (en_cache ?s) q h)" using Try m(4) by auto
    ultimately show ?thesis by blast
  next
    case (Preempt r withdrawn)
    then obtain m where m: "ec_free r (en_cache s) = Inr m" "ec_inv emb m" "unref_only (request_id r) (en_cache s) m"
      using ec_free_ok [OF inv(1), of r] assms(2) by auto
    then show ?thesis using Preempt assms(2) inv(2) unref_missing [OF m(3)]
      by (auto simp: en_ok_def input_hashes_def unref_only_def)
  next
    case Dispatch
    then show ?thesis using inv
      by (auto simp: en_ok_def get_freed_mm_hashes_def worker_step_def ec_inv_freed ec_missing_def)
  next
    case (Processed r computed)
    let ?ids = "filter (\<lambda>i. False \<and> 0 < computed \<or> pr_offset (mm_position (mm_items r ! i)) +
      pr_length (mm_position (mm_items r ! i)) \<le> computed) (get_cached_input_ids r (en_cache s))"
    have ids: "\<forall>i \<in> set (get_cached_input_ids r (en_cache s)). i < length (mm_items r)" by (simp add: get_cached_input_ids_def)
    then have "\<forall>i \<in> set ?ids. i < length (mm_items r)" by simp
    from free_inputs_ok [OF inv(1) _ this] assms(2) Processed obtain m where
      "for_each ?ids (free_encoder_input r) (en_cache s) = Inr m" "ec_inv emb m" "unref_only (request_id r) (en_cache s) m" by auto
    then have "\<exists>m. free_processed False get_cached_input_ids free_encoder_input r computed (en_cache s) = Inr m \<and> ec_inv emb m \<and>
        unref_only (request_id r) (en_cache s) m"
      using free_processed_ids [where ids = get_cached_input_ids and r = r and m = "en_cache s" and encdec = False, OF ids] by auto
    then show ?thesis using Processed inv(2) unref_missing by (fastforce simp: en_ok_def)
  next
    case (Finish r)
    then obtain m where m: "ec_free r (en_cache s) = Inr m" "ec_inv emb m" "unref_only (request_id r) (en_cache s) m"
      using ec_free_ok [OF inv(1), of r] assms(2) by auto
    then show ?thesis using Finish inv(2) unref_missing [OF m(3)] by (auto simp: en_ok_def)
  next
    case Reset
    then show ?thesis using ec_inv_reset [OF inv(1)] by (auto simp: en_ok_def ec_missing_def ec_reset_def)
  qed
qed

lemma acts_keep:
  assumes "en_ok emb s" "\<forall>a \<in> set acts. act_ok emb a"
  shows "\<exists>s'. for_each acts (en_act (mm_sched dc hi)) s = Inr s' \<and> en_ok emb s' \<and>
    (\<forall>q. (\<forall>a \<in> set acts. concerns_other q a) \<longrightarrow> (\<forall>h. ec_held (en_cache s) q h \<longrightarrow> ec_held (en_cache s') q h))"
  using assms
proof (induction acts arbitrary: s)
  case (Cons a acts)
  then have a: "act_ok emb a" "\<forall>a \<in> set acts. act_ok emb a" by simp_all
  obtain s1 where s1: "en_act (mm_sched dc hi) a s = Inr s1" "en_ok emb s1"
    "\<forall>q. concerns_other q a \<longrightarrow> (\<forall>h. ec_held (en_cache s) q h \<longrightarrow> ec_held (en_cache s1) q h)"
    using act_keeps [OF Cons.prems(1) a(1)] by blast
  obtain s2 where s2: "for_each acts (en_act (mm_sched dc hi)) s1 = Inr s2" "en_ok emb s2"
    "\<forall>q. (\<forall>a \<in> set acts. concerns_other q a) \<longrightarrow> (\<forall>h. ec_held (en_cache s1) q h \<longrightarrow> ec_held (en_cache s2) q h)"
    using Cons.IH [OF s1(2) a(2)] by blast
  have "for_each (a # acts) (en_act (mm_sched dc hi)) s = Inr s2" using s1(1) s2(1) by simp
  then show ?case using s1(3) s2(2,3) by (intro exI [of _ s2]) simp
qed simp

lemma en_ok_init: "0 \<le> n \<Longrightarrow> en_ok emb (en_init n)"
  by (simp add: en_ok_def en_init_def ec_inv_init ec_missing_def) (simp add: ec_init_def)

text \<open>
  C20. Scheduler and worker agree. Whatever well-formed requests are tried, preempted, released,
  finished and dispatched in whatever order, no request being withdrawn from the current step
  and the hash of an item determining how many embeddings it has, every
  call returns, the free slots and the embeddings of the cached items make up the cache
  size, the reclaimable slots are the free and the unreferenced ones, and the worker has, or
  computes in the current step, everything the scheduler takes for cached.
\<close>

theorem encoder_caches_agree:
  assumes "0 \<le> n" "\<forall>a \<in> set acts. act_ok emb a"
  shows "\<exists>s. for_each acts (en_act (mm_sched disable_chunked has_item)) (en_init n) = Inr s \<and>
    0 \<le> ec_num_free_slots (en_cache s) \<and>
    ec_num_free_slots (en_cache s) + int (sum emb (dom (map_of (ec_cached (en_cache s))))) = ec_cache_size (en_cache s) \<and>
    ec_num_freeable_slots (en_cache s) =
      ec_num_free_slots (en_cache s) + int (sum emb {h. map_of (ec_cached (en_cache s)) h = Some {}}) \<and>
    dom (map_of (ec_cached (en_cache s))) \<subseteq> (en_worker s - set (ec_freed (en_cache s))) \<union> en_scheduled s"
proof -
  obtain s where s: "for_each acts (en_act (mm_sched disable_chunked has_item)) (en_init n) = Inr s" "en_ok emb s"
    using acts_keep [OF en_ok_init [OF assms(1)] assms(2)] by blast
  then have inv: "ec_inv emb (en_cache s)" by (simp add: en_ok_def)
  have "dom (map_of (ec_freeable (en_cache s))) = {h. map_of (ec_cached (en_cache s)) h = Some {}}"
    using ec_invD(1,2) [OF inv] by auto
  then have "ec_num_freeable_slots (en_cache s) =
      ec_num_free_slots (en_cache s) + int (sum emb {h. map_of (ec_cached (en_cache s)) h = Some {}})" using inv by (simp add: ec_inv_def)
  moreover have "dom (map_of (ec_cached (en_cache s))) \<subseteq> (en_worker s - set (ec_freed (en_cache s))) \<union> en_scheduled s"
    using s(2) by (auto simp: en_ok_def ec_missing_def)
  ultimately show ?thesis using s(1) inv by (intro exI [of _ s]) (simp add: ec_inv_def)
qed

text \<open>
  C19. A step finds the embeddings it reads. Requests are well-formed, the hash of an item
  determines how many embeddings it has, and no preemption withdraws a request from the step
  being scheduled, as under first-come-first-served. Let a request be tried after any such
  history, and other requests be tried and preempted before the step is dispatched. If the
  request is scheduled, with a range that the encoder budget or the cache may have shortened,
  then the worker's gathering over that range meets no missing encoder output.
\<close>

theorem scheduled_step_gathers:
  assumes "0 \<le> cache_size" "\<forall>a \<in> set before. act_ok emb a" "act_ok emb (Try r computed n budget shift True)"
    and "\<forall>a \<in> set during. act_ok emb a \<and> concerns_other (request_id r) a"
  shows "\<exists>s out m s'. for_each before (en_act (mm_sched dc hi)) (en_init cache_size) = Inr s \<and>
    schedule_encoder (mm_sched dc hi) ec_allocate ec_free True r computed n budget shift (en_cache s) = Inr (out, m) \<and>
    for_each (Try r computed n budget shift True # during @ [Dispatch]) (en_act (mm_sched dc hi)) s = Inr s' \<and>
    (case out of None \<Rightarrow> True
     | Some (_, n', _, _) \<Rightarrow> \<exists>embeds. gather_mm_embeddings (en_worker s') r computed n' 0 = Inr embeds)"
proof -
  let ?e = "mm_sched dc hi" and ?a = "Try r computed n budget shift True"
  obtain s where s: "for_each before (en_act ?e) (en_init cache_size) = Inr s" "en_ok emb s"
    using acts_keep [OF en_ok_init [OF assms(1)] assms(2)] by blast
  obtain s1 where s1: "en_act ?e ?a s = Inr s1" "en_ok emb s1" using act_keeps [OF s(2) assms(3)] by blast
  have "\<forall>a \<in> set during. act_ok emb a" using assms(4) by simp
  then obtain s2 where s2: "for_each during (en_act ?e) s1 = Inr s2" "en_ok emb s2"
    "\<forall>h. ec_held (en_cache s1) (request_id r) h \<longrightarrow> ec_held (en_cache s2) (request_id r) h"
    using acts_keep [OF s1(2), of during] assms(4) by blast
  obtain s3 where s3: "en_act ?e Dispatch s2 = Inr s3" "en_worker s3 = worker_step (ec_freed (en_cache s2)) (en_scheduled s2) (en_worker s2)"
    by (simp add: get_freed_mm_hashes_def)
  have "ec_inv emb (en_cache s)" using s(2) by (simp add: en_ok_def)
  then obtain out m where out: "schedule_encoder ?e ec_allocate ec_free True r computed n budget shift (en_cache s) = Inr (out, m)"
    "case out of None \<Rightarrow> True | Some (_, n', _, _) \<Rightarrow>
       0 < n' \<and> (\<forall>f \<in> set (mm_items r). reads_item computed n' f \<longrightarrow> ec_held m (request_id r) (item_hash f))"
    using schedule_encoder_ok [of emb "en_cache s" r computed n shift dc hi True budget] assms(3) by (simp only: act_ok.simps) blast
  have m: "en_cache s1 = m" using s1(1) out(1) by auto
  have found: "item_hash f \<in> en_worker s3" if "ec_held m (request_id r) (item_hash f)" for f
  proof -
    have "ec_held (en_cache s2) (request_id r) (item_hash f)" using that s2(3) m by blast
    then have "item_hash f \<in> dom (map_of (ec_cached (en_cache s2)))" by (auto simp: ec_held_def)
    then show ?thesis using s2(2) by (auto simp: en_ok_def ec_missing_def s3(2) worker_step_def)
  qed
  have "case out of None \<Rightarrow> True | Some (_, n', _, _) \<Rightarrow> \<exists>embeds. gather_mm_embeddings (en_worker s3) r computed n' 0 = Inr embeds"
  proof (cases out)
    case (Some x)
    then obtain inputs n' b external where x: "out = Some (inputs, n', b, external)" by (cases x) auto
    have "\<forall>f \<in> set (mm_items r). wf_item f" using assms(3) by (simp add: wf_request_def)
    from gather_ok [OF this, of n' computed "en_worker s3"] show ?thesis using x out(2) found by (auto simp: gather_mm_embeddings_def)
  qed simp
  moreover have "for_each (?a # during @ [Dispatch]) (en_act ?e) s = Inr s3"
    using s1(1) s2(1) s3(1) by (simp add: for_each_append del: en_act.simps)
  ultimately show ?thesis using s(1) out(1) by blast
qed

section \<open>Where the code falls short\<close>

text \<open>
  C22. With a draft model, and chunked multimodal input allowed, the scheduler looks one token
  further, but skips an item that starts exactly there: its range of embeddings is computed
  without the shift and is empty.
  The step is scheduled in full without the encoder input, and the gathering for the draft
  model, shifted by one, fails on the missing encoder output.
\<close>

theorem draft_boundary_item_missed:
  assumes "ec_inv emb m" "sized emb r" "mm_items r = [f]" "pr_is_embed (mm_position f) = None" "0 < pr_length (mm_position f)"
    and "pr_offset (mm_position f) = computed + n" "0 < n"
    and "\<not> od_has (ec_cached m) (item_hash f)" "int (emb (item_hash f)) \<le> budget" "int (emb (item_hash f)) \<le> ec_num_freeable_slots m"
    and "item_hash f \<notin> worker"
  shows "\<exists>m'. try_schedule_encoder_inputs (mm_sched False hi) r computed n budget 1 m = Inr (([], n, budget, []), m') \<and>
    gather_mm_embeddings worker r computed n 1 = Inl AssertionError"
proof -
  obtain k where k: "can_allocate r 0 budget 0 m = Inr (True, evicted k m)"
    using can_allocate_ok [OF assms(1,2), of 0 budget 0] assms(3,9,10) by auto
  have check: "check_and_update_cache r 0 m = Inr (False, m)"
    using assms(3,8) by (simp add: check_and_update_cache_def not_od_has_iff)
  have "try_schedule_encoder_inputs (mm_sched False hi) r computed n budget 1 m = Inr (([], n, budget, []), evicted k m)"
    using k check assms(3-7)
    by (simp add: try_schedule_encoder_inputs_def try_init_def mm_sched_def get_embeds_indices_in_range_def embeds_cumsum_def
        del: chain_eq_Inr)
  moreover have "gather_mm_embeddings worker r computed n 1 = Inl AssertionError"
    using assms(3-7,11) by (simp add: gather_mm_embeddings_def get_embeds_indices_in_range_def embeds_cumsum_def del: chain_eq_Inr)
  ultimately show ?thesis by blast
qed

text \<open>
  C23. Preempting a request that was scheduled in the same step, as the priority policy does,
  withdraws its encoder inputs from the step but leaves them in the scheduler's cache. When
  the request is tried again, the input counts as cached, the request is scheduled without
  it, and the worker fails on the missing encoder output.
\<close>

theorem preempted_input_not_recomputed:
  assumes "mm_items r = [f]" "pr_is_embed (mm_position f) = None" "pr_offset (mm_position f) = 0" "pr_length (mm_position f) = n"
    and "0 < n" "n \<le> cache_size" "n \<le> budget"
  shows "\<exists>s m s'.
    for_each [Try r 0 n budget 0 True, Preempt r [0], Dispatch] (en_act (mm_sched dc (\<lambda>_. False))) (en_init cache_size) = Inr s \<and>
    schedule_encoder (mm_sched dc (\<lambda>_. False)) ec_allocate ec_free True r 0 n budget 0 (en_cache s) =
      Inr (Some ([], n, budget, []), m) \<and>
    for_each [Try r 0 n budget 0 True, Dispatch] (en_act (mm_sched dc (\<lambda>_. False))) s = Inr s' \<and>
    gather_mm_embeddings (en_worker s') r 0 n 0 = Inl AssertionError"
proof -
  let ?e = "mm_sched dc (\<lambda>_. False)" and ?q = "request_id r" and ?h = "item_hash f"
  let ?c = "\<lambda>refs fr x. \<lparr>ec_cache_size = cache_size, ec_num_free_slots = cache_size - n, ec_num_freeable_slots = x,
    ec_cached = [(?h, refs)], ec_freeable = fr, ec_freed = []\<rparr>"
  note defs = schedule_encoder_def try_schedule_encoder_inputs_def try_init_def mm_sched_def get_embeds_indices_in_range_def
    embeds_cumsum_def check_and_update_cache_def can_allocate_def get_num_encoder_embeds_def get_num_embeds_def ec_allocate_def Let_def
  have first: "schedule_encoder ?e ec_allocate ec_free True r 0 n budget 0 (ec_init cache_size) =
      Inr (Some ([0], n, budget - n, []), ?c {?q} [] (cache_size - n))"
    using assms by (simp add: defs ec_init_def del: chain_eq_Inr)
  have freed: "ec_free r (?c {?q} [] (cache_size - n)) = Inr (?c {} [(?h, n)] cache_size)"
    using assms by (simp add: ec_free_def get_cached_input_ids_def free_encoder_input_def od_has_def od_keys_def
        get_num_encoder_embeds_def get_num_embeds_def embeds_cumsum_def del: chain_eq_Inr)
  have again: "schedule_encoder ?e ec_allocate ec_free True r 0 n budget 0 (?c {} [(?h, n)] cache_size) =
      Inr (Some ([], n, budget, []), ?c {?q} [] (cache_size - n))"
    using assms by (simp add: defs del: chain_eq_Inr)
  let ?s = "\<lparr>en_cache = ?c {} [(?h, n)] cache_size, en_scheduled = {}, en_worker = {}\<rparr>"
  have "for_each [Try r 0 n budget 0 True, Preempt r [0], Dispatch] (en_act ?e) (en_init cache_size) = Inr ?s"
    using first freed by (simp add: en_init_def input_hashes_def get_freed_mm_hashes_def worker_step_def del: chain_eq_Inr)
  moreover have "for_each [Try r 0 n budget 0 True, Dispatch] (en_act ?e) ?s =
      Inr \<lparr>en_cache = ?c {?q} [] (cache_size - n), en_scheduled = {}, en_worker = {}\<rparr>"
    using again by (simp add: input_hashes_def get_freed_mm_hashes_def worker_step_def del: chain_eq_Inr)
  moreover have "gather_mm_embeddings {} r 0 n 0 = Inl AssertionError"
    using assms by (simp add: gather_mm_embeddings_def get_embeds_indices_in_range_def embeds_cumsum_def del: chain_eq_Inr)
  ultimately show ?thesis using again by (intro exI conjI) (assumption | simp)+
qed

lemma ed_free_inputs:
  assumes "\<forall>i \<in> set ids. i < length (mm_items r)"
  shows "\<exists>m'. for_each ids (ed_free_encoder_input r) m = Inr m' \<and>
    ed_num_free_slots m' = ed_num_free_slots m + sum_list (map (item_embeds r) ids)"
  using assms
proof (induction ids arbitrary: m)
  case (Cons i ids)
  then have "ed_free_encoder_input r i m = Inr (m\<lparr>ed_num_free_slots := ed_num_free_slots m + item_embeds r i\<rparr>)"
    by (simp add: ed_free_encoder_input_def get_num_encoder_embeds_def item_embeds_def)
  then show ?case using Cons.IH [of "m\<lparr>ed_num_free_slots := ed_num_free_slots m + item_embeds r i\<rparr>"] Cons.prems by auto
qed simp

text \<open>
  C24. The manager of encoder-decoder models does not record which inputs are released: after
  the first token every step of a request gives the slots of its inputs back once more, so
  the free slots grow with the length of the output beyond the size of the cache.
\<close>

theorem encdec_release_repeats:
  assumes "\<forall>computed \<in> set steps. 0 < computed"
  shows "\<exists>m'. for_each steps (free_processed True ed_get_cached_input_ids ed_free_encoder_input r) m = Inr m' \<and>
    ed_num_free_slots m' =
      ed_num_free_slots m + int (length steps) * sum_list (map (item_embeds r) [0 ..< length (mm_items r)])"
proof -
  have ids: "\<forall>i \<in> set (ed_get_cached_input_ids r m). i < length (mm_items r)" for m by (simp add: ed_get_cached_input_ids_def)
  have step: "\<exists>m'. free_processed True ed_get_cached_input_ids ed_free_encoder_input r computed m = Inr m' \<and>
      ed_num_free_slots m' = ed_num_free_slots m + sum_list (map (item_embeds r) [0 ..< length (mm_items r)])"
    if "0 < computed" for computed m
    using that ed_free_inputs [of "[0 ..< length (mm_items r)]" r m]
      free_processed_ids [where ids = ed_get_cached_input_ids and r = r and m = m and encdec = True, OF ids]
    by (simp add: ed_get_cached_input_ids_def)
  show ?thesis
    using assms
  proof (induction steps arbitrary: m)
    case (Cons c steps)
    then obtain m1 where m1: "free_processed True ed_get_cached_input_ids ed_free_encoder_input r c m = Inr m1"
      "ed_num_free_slots m1 = ed_num_free_slots m + sum_list (map (item_embeds r) [0 ..< length (mm_items r)])"
      using step [of c m] by auto
    then show ?case using Cons.IH [of m1] Cons.prems by (auto simp: algebra_simps)
  qed simp
qed

section \<open>Examples\<close>

definition ex_mm :: mm_request where
  "ex_mm = ex_req ''r'' [ex_img ''a'' 2 3, ex_img ''b'' 6 2]"

definition ex_size :: "string \<Rightarrow> nat" where
  "ex_size h = (if h = ''a'' then 3 else 2)"

lemma ex_mm_ok: "sized ex_size ex_mm" "wf_request False ex_mm 0"
  by (simp_all add: sized_def wf_request_def wf_item_def ex_mm_def ex_req_def ex_img_def get_num_embeds_def embeds_cumsum_def ex_size_def)

definition ex_other :: mm_request where
  "ex_other = ex_req ''q'' [ex_img ''a'' 0 3]"

lemma ex_other_ok: "sized ex_size ex_other" "wf_request False ex_other 0"
  by (simp_all add: sized_def wf_request_def wf_item_def ex_other_def ex_req_def ex_img_def get_num_embeds_def embeds_cumsum_def ex_size_def)

theorem encoder_caches_agree_witness:
  "\<exists>s. for_each [Try ex_mm 0 8 10 0 True, Dispatch, Try ex_other 0 3 10 0 True, Processed ex_mm 8, Finish ex_mm]
      (en_act (mm_sched False (\<lambda>_. False))) (en_init 5) = Inr s \<and>
    dom (map_of (ec_cached (en_cache s))) \<subseteq> (en_worker s - set (ec_freed (en_cache s))) \<union> en_scheduled s"
  using encoder_caches_agree [where n = 5 and emb = ex_size and disable_chunked = False and has_item = "\<lambda>_. False" and
      acts = "[Try ex_mm 0 8 10 0 True, Dispatch, Try ex_other 0 3 10 0 True, Processed ex_mm 8, Finish ex_mm]"] ex_mm_ok ex_other_ok
  by (auto simp del: for_each.simps)

theorem scheduled_step_gathers_witness:
  "\<exists>s out m s'. for_each [Try ex_mm 0 8 10 0 True, Dispatch, Finish ex_mm] (en_act (mm_sched False (\<lambda>_. False))) (en_init 5) = Inr s \<and>
    schedule_encoder (mm_sched False (\<lambda>_. False)) ec_allocate ec_free True ex_mm 0 8 10 0 (en_cache s) = Inr (out, m) \<and>
    for_each (Try ex_mm 0 8 10 0 True # [Try ex_other 0 3 10 0 True] @ [Dispatch]) (en_act (mm_sched False (\<lambda>_. False))) s = Inr s' \<and>
    (case out of None \<Rightarrow> True | Some (_, n', _, _) \<Rightarrow> \<exists>embeds. gather_mm_embeddings (en_worker s') ex_mm 0 n' 0 = Inr embeds)"
proof (rule scheduled_step_gathers [where emb = ex_size])
  show "\<forall>a \<in> set [Try ex_mm 0 8 10 0 True, Dispatch, Finish ex_mm]. act_ok ex_size a" using ex_mm_ok by simp
  show "act_ok ex_size (Try ex_mm 0 8 10 0 True)" using ex_mm_ok by simp
  show "\<forall>a \<in> set [Try ex_other 0 3 10 0 True]. act_ok ex_size a \<and> concerns_other (request_id ex_mm) a"
    using ex_other_ok by (simp add: ex_mm_def ex_other_def ex_req_def)
qed simp

theorem draft_boundary_item_missed_witness:
  "\<exists>m'. try_schedule_encoder_inputs (mm_sched False (\<lambda>_. False)) (ex_req ''q'' [ex_img ''a'' 4 3]) 0 4 10 1 (ec_init 8) =
      Inr (([], 4, 10, []), m') \<and>
    gather_mm_embeddings {} (ex_req ''q'' [ex_img ''a'' 4 3]) 0 4 1 = Inl AssertionError"
  by (rule draft_boundary_item_missed [where emb = ex_size and f = "ex_img ''a'' 4 3", OF ec_inv_init])
    (simp_all add: sized_def ex_req_def ex_img_def get_num_embeds_def embeds_cumsum_def ex_size_def ec_init_def od_has_def od_keys_def)

theorem preempted_input_not_recomputed_witness:
  "\<exists>s m s'.
    for_each [Try ex_other 0 3 10 0 True, Preempt ex_other [0], Dispatch] (en_act (mm_sched False (\<lambda>_. False))) (en_init 8) = Inr s \<and>
    schedule_encoder (mm_sched False (\<lambda>_. False)) ec_allocate ec_free True ex_other 0 3 10 0 (en_cache s) = Inr (Some ([], 3, 10, []), m) \<and>
    for_each [Try ex_other 0 3 10 0 True, Dispatch] (en_act (mm_sched False (\<lambda>_. False))) s = Inr s' \<and>
    gather_mm_embeddings (en_worker s') ex_other 0 3 0 = Inl AssertionError"
  by (rule preempted_input_not_recomputed [where f = "ex_img ''a'' 0 3"]) (simp_all add: ex_other_def ex_req_def ex_img_def)

theorem encdec_release_repeats_witness:
  "\<exists>m'. for_each [1, 2] (free_processed True ed_get_cached_input_ids ed_free_encoder_input ex_other) (ed_init 3) = Inr m' \<and>
    ed_num_free_slots m' = 9"
  using encdec_release_repeats [of "[1, 2]" ex_other "ed_init 3"]
  by (auto simp: ex_other_def ex_req_def ex_img_def item_embeds_def get_num_embeds_def embeds_cumsum_def ed_init_def simp del: for_each.simps)

end
